(* ===== verification/CBase.thy ===== *)
theory CBase
  imports "HOL-Library.Word"
begin

text \<open>
  The C side of the development: bytes, machine words and character arrays, and the
  functions of the C library the programs call on them (\<open>memcpy\<close>, \<open>bzero\<close>, \<open>strncpy\<close>,
  \<open>strlen\<close>, \<open>strcmp\<close>, \<open>atoi\<close>), on x86-64 Linux: little-endian words, 32-bit \<open>int\<close>, 64-bit
  \<open>long\<close>. An array is the list of its bytes. What the programs do on a failing call or
  on a memory access out of range is a value of \<open>fault\<close>, carried on the left of a sum.
\<close>

unbundle bit_operations_syntax

type_synonym byte = "8 word"
type_synonym u16 = "16 word"
type_synonym u32 = "32 word"

named_theorems mem_simps \<open>reading and writing ranges of byte arrays\<close>

section \<open>Failure\<close>

datatype fault =
    Exit int          \<comment> \<open>\<open>exit(n)\<close> after an error message\<close>
  | OutOfBounds       \<comment> \<open>an access outside an array or an object\<close>
  | Diverges          \<comment> \<open>a loop that has used up the bound on its passes\<close>
  | Waits             \<comment> \<open>a call that has not returned\<close>

definition bindE :: "fault + 'a \<Rightarrow> ('a \<Rightarrow> fault + 'b) \<Rightarrow> fault + 'b" where
  "bindE m f = (case m of Inl e \<Rightarrow> Inl e | Inr x \<Rightarrow> f x)"

lemma bindE_simps [simp]: "bindE (Inl e) f = Inl e" "bindE (Inr x) f = f x"
  by (simp_all add: bindE_def)

text \<open>With this congruence rule a run is evaluated from its first step.\<close>

lemma bindE_weak_cong: "m = m' \<Longrightarrow> bindE m f = bindE m' f"
  by simp

lemma bindE_eq_Inr: "bindE m f = Inr y \<longleftrightarrow> (\<exists>x. m = Inr x \<and> f x = Inr y)"
  by (cases m) auto

lemma bindE_eq_Inl: "bindE m f = Inl e \<longleftrightarrow> m = Inl e \<or> (\<exists>x. m = Inr x \<and> f x = Inl e)"
  by (cases m) auto

section \<open>Byte arrays\<close>

definition get_bytes :: "nat \<Rightarrow> nat \<Rightarrow> 'a list \<Rightarrow> 'a list" where
  "get_bytes off n mem = take n (drop off mem)"

text \<open>\<open>memcpy (mem + off, src, length src)\<close>\<close>

definition put_bytes :: "nat \<Rightarrow> 'a list \<Rightarrow> 'a list \<Rightarrow> 'a list" where
  "put_bytes off src mem = take off mem @ src @ drop (off + length src) mem"

text \<open>\<open>bzero (mem + off, n)\<close>\<close>

definition zero_bytes :: "nat \<Rightarrow> nat \<Rightarrow> byte list \<Rightarrow> byte list" where
  "zero_bytes off n mem = put_bytes off (replicate n 0) mem"

lemma length_get_bytes [mem_simps]: "off + n \<le> length mem \<Longrightarrow> length (get_bytes off n mem) = n"
  by (simp add: get_bytes_def)

lemma length_put_bytes [mem_simps]:
  "off + length src \<le> length mem \<Longrightarrow> length (put_bytes off src mem) = length mem"
  by (simp add: put_bytes_def)

lemma length_zero_bytes [mem_simps]:
  "off + n \<le> length mem \<Longrightarrow> length (zero_bytes off n mem) = length mem"
  by (simp add: zero_bytes_def mem_simps)

lemma get_put_same [mem_simps]:
  "off + length src \<le> length mem \<Longrightarrow> n = length src \<Longrightarrow>
    get_bytes off n (put_bytes off src mem) = src"
  by (simp add: get_bytes_def put_bytes_def)

lemma nth_put_bytes:
  "off + length src \<le> length mem \<Longrightarrow> i < length mem \<Longrightarrow>
    put_bytes off src mem ! i =
      (if off \<le> i \<and> i < off + length src then src ! (i - off) else mem ! i)"
  by (auto simp: put_bytes_def nth_append)

lemma get_put_disjoint [mem_simps]:
  assumes "off + length src \<le> length mem" "a + n \<le> length mem"
    and "a + n \<le> off \<or> off + length src \<le> a"
  shows "get_bytes a n (put_bytes off src mem) = get_bytes a n mem"
  using assms
  by (intro nth_equalityI) (auto simp: get_bytes_def length_put_bytes nth_put_bytes)

text \<open>A write inside the range that is read.\<close>

lemma get_put_inside [mem_simps]:
  assumes "off + length src \<le> length mem" "a + n \<le> length mem"
    and "a \<le> off" "off + length src \<le> a + n"
  shows "get_bytes a n (put_bytes off src mem) = put_bytes (off - a) src (get_bytes a n mem)"
  using assms
  by (intro nth_equalityI)
    (auto simp: get_bytes_def length_put_bytes nth_put_bytes intro!: arg_cong [where f = "nth src"])

lemma get_bytes_get_bytes [mem_simps]:
  "b + m \<le> n \<Longrightarrow> get_bytes b m (get_bytes a n mem) = get_bytes (a + b) m mem"
  unfolding get_bytes_def drop_take take_take drop_drop
  by (simp add: add.commute min_absorb1)

lemma put_put_same [mem_simps]:
  "length src' = length src \<Longrightarrow> off + length src \<le> length mem \<Longrightarrow>
    put_bytes off src (put_bytes off src' mem) = put_bytes off src mem"
  by (intro nth_equalityI) (auto simp: length_put_bytes nth_put_bytes)

lemma put_get_same [mem_simps]:
  "off + n \<le> length mem \<Longrightarrow> put_bytes off (get_bytes off n mem) mem = mem"
  by (intro nth_equalityI) (auto simp: get_bytes_def length_put_bytes nth_put_bytes)

lemma get_bytes_all [mem_simps]: "n = length mem \<Longrightarrow> get_bytes 0 n mem = mem"
  by (simp add: get_bytes_def)

section \<open>Little-endian words\<close>

fun le_bytes :: "nat \<Rightarrow> 'a::len word \<Rightarrow> byte list" where
  "le_bytes 0 w = []"
| "le_bytes (Suc n) w = ucast w # le_bytes n (drop_bit 8 w)"

fun le_word :: "byte list \<Rightarrow> 'a::len word" where
  "le_word [] = 0"
| "le_word (b # bs) = ucast b OR push_bit 8 (le_word bs)"

lemma length_le_bytes [simp]: "length (le_bytes n w) = n"
  by (induction n arbitrary: w) auto

lemma le_word_le_bytes: "le_word (le_bytes n w) = take_bit (8 * n) (w :: 'a::len word)"
proof (induction n arbitrary: w)
  case 0
  show ?case by simp
next
  case (Suc n)
  show ?case
    unfolding le_bytes.simps le_word.simps Suc.IH
    by (rule bit_word_eqI) (auto simp: bit_simps)
qed

lemma le_word_le_bytes_u32 [simp]: "le_word (le_bytes 4 w) = (w :: u32)"
  by (simp add: le_word_le_bytes take_bit_word_eq_self)

lemma le_word_le_bytes_u16 [simp]: "le_word (le_bytes 2 w) = (w :: u16)"
  by (simp add: le_word_le_bytes take_bit_word_eq_self)

lemma uint_drop_bit_u32: "uint (drop_bit n (w :: u32)) = uint w div 2 ^ n"
proof -
  have "take_bit LENGTH(32) (uint w) = uint w"
    using uint_ge_0 [of w] unsigned_less [of w] by (intro take_bit_int_eq_self)
  then show ?thesis
    unfolding unsigned_drop_bit_eq by (simp only: drop_bit_eq_div)
qed

text \<open>The bytes of a C \<open>int\<close>, and the \<open>int\<close> of four bytes.\<close>

definition int_bytes :: "int \<Rightarrow> byte list" where
  "int_bytes x = le_bytes 4 (word_of_int x :: u32)"

definition int_of_bytes :: "byte list \<Rightarrow> int" where
  "int_of_bytes bs = sint (le_word bs :: u32)"

definition is_int32 :: "int \<Rightarrow> bool" where
  "is_int32 x \<longleftrightarrow> - (2 ^ 31) \<le> x \<and> x < 2 ^ 31"

lemma length_int_bytes [simp]: "length (int_bytes x) = 4"
  by (simp add: int_bytes_def)

lemma int_of_bytes_int_bytes: "is_int32 x \<Longrightarrow> int_of_bytes (int_bytes x) = x"
  by (simp add: int_of_bytes_def int_bytes_def is_int32_def sint_sbintrunc' signed_take_bit_int_eq_self)

section \<open>C strings\<close>

text \<open>
  The bytes of a string end at the first zero byte. \<open>strncpy\<close> copies at most \<open>n\<close> bytes
  of the source, stops at its terminator and fills up with zero bytes.
\<close>

definition c_string :: "byte list \<Rightarrow> byte list" where
  "c_string mem = takeWhile (\<lambda>b. b \<noteq> 0) mem"

definition c_strncpy :: "nat \<Rightarrow> byte list \<Rightarrow> byte list" where
  "c_strncpy n src = (let s = take n (c_string src) in s @ replicate (n - length s) 0)"

text \<open>\<open>strlen\<close> of an array without a terminator reads past its end.\<close>

definition c_strlen :: "byte list \<Rightarrow> fault + nat" where
  "c_strlen mem = (if 0 \<in> set mem then Inr (length (c_string mem)) else Inl OutOfBounds)"

definition bytes_of_string :: "string \<Rightarrow> byte list" where
  "bytes_of_string s = map (\<lambda>c. of_char c) s"

lemma length_c_strncpy [simp]: "length (c_strncpy n src) = n"
  by (simp add: c_strncpy_def Let_def)

lemma c_string_all_nonzero: "0 \<notin> set mem \<Longrightarrow> c_string mem = mem"
  unfolding c_string_def by (rule takeWhile_eq_all_conv [THEN iffD2]) auto

lemma c_string_append_zero: "0 \<notin> set s \<Longrightarrow> c_string (s @ 0 # r) = s"
  unfolding c_string_def by (subst takeWhile_append2) auto

lemma c_string_replicate_zero: "0 \<notin> set s \<Longrightarrow> c_string (s @ replicate n 0) = s"
  by (cases n) (simp_all add: c_string_all_nonzero c_string_append_zero)

lemma zero_notin_c_string: "0 \<notin> set (c_string mem)"
  unfolding c_string_def using set_takeWhileD by fastforce

section \<open>Numbers in strings\<close>

definition isdigit :: "byte \<Rightarrow> bool" where
  "isdigit c \<longleftrightarrow> 48 \<le> c \<and> c \<le> 57"

fun atoi_digits :: "int \<Rightarrow> byte list \<Rightarrow> int" where
  "atoi_digits n [] = n"
| "atoi_digits n (c # s) = (if isdigit c then atoi_digits (10 * n + uint c - 48) s else n)"

text \<open>White space, a sign and digits; a number that does not fit an \<open>int\<close> is not defined in C.\<close>

definition c_atoi :: "byte list \<Rightarrow> int" where
  "c_atoi s =
    (let s = dropWhile (\<lambda>c. c = 32 \<or> 9 \<le> c \<and> c \<le> 13) s
     in case s of
          [] \<Rightarrow> 0
        | c # s' \<Rightarrow>
            if c = 45 then - atoi_digits 0 s' else if c = 43 then atoi_digits 0 s' else atoi_digits 0 s)"

section \<open>Arrays of blocks\<close>

text \<open>
  The send and receive buffers are arrays of \<open>SEND_RECV_BUF_SIZE\<close> blocks of \<open>BUFFSIZE\<close>
  bytes, only ever addressed block by block. An index out of range is a fault.
\<close>

definition read_block :: "byte list list \<Rightarrow> int \<Rightarrow> fault + byte list" where
  "read_block bs i = (if 0 \<le> i \<and> i < int (length bs) then Inr (bs ! nat i) else Inl OutOfBounds)"

definition write_block :: "byte list list \<Rightarrow> int \<Rightarrow> byte list \<Rightarrow> fault + byte list list" where
  "write_block bs i b =
    (if 0 \<le> i \<and> i < int (length bs) then Inr (bs[nat i := b]) else Inl OutOfBounds)"

lemma read_block_in [simp]: "0 \<le> i \<Longrightarrow> i < int (length bs) \<Longrightarrow> read_block bs i = Inr (bs ! nat i)"
  by (simp add: read_block_def)

lemma write_block_in [simp]:
  "0 \<le> i \<Longrightarrow> i < int (length bs) \<Longrightarrow> write_block bs i b = Inr (bs[nat i := b])"
  by (simp add: write_block_def)

end
