(* ===== verification/Crc.thy ===== *)
theory Crc
  imports CBase
begin

text \<open>
  The CRC-16 checksum of \<open>project1/tcpd.c\<close>: \<open>crcInit\<close> fills \<open>crcTable\<close>, \<open>crcFast\<close>
  folds it over a message. The lemmas relate the table-driven code to the bit-serial
  division and to polynomial division over GF(2), and derive what the checksum detects.
\<close>

section \<open>The code\<close>

type_synonym crc = u16

definition WIDTH :: nat where "WIDTH = 8 * 2"

definition TOPBIT :: crc where "TOPBIT = push_bit (WIDTH - 1) 1"

definition POLYNOMIAL :: crc where "POLYNOMIAL = 0x8005"

text \<open>The body of the inner loop of \<open>crcInit\<close>: one step of the modulo-2 division.\<close>

definition crc_bit :: "crc \<Rightarrow> crc" where
  "crc_bit remainder =
    (if remainder AND TOPBIT \<noteq> 0 then push_bit 1 remainder XOR POLYNOMIAL
     else push_bit 1 remainder)"

fun crc_bits :: "nat \<Rightarrow> crc \<Rightarrow> crc" where
  "crc_bits 0 remainder = remainder"
| "crc_bits (Suc n) remainder = crc_bits n (crc_bit remainder)"

definition crcInit :: "crc list" where
  "crcInit = map (\<lambda>dividend. crc_bits 8 (push_bit (WIDTH - 8) (word_of_nat dividend))) [0..<256]"

definition crcFast_step :: "crc list \<Rightarrow> crc \<Rightarrow> byte \<Rightarrow> crc" where
  "crcFast_step crcTable remainder m =
    (let data = m XOR ucast (drop_bit (WIDTH - 8) remainder)
     in crcTable ! unat data XOR push_bit 8 remainder)"

definition crcFast :: "crc list \<Rightarrow> byte list \<Rightarrow> crc" where
  "crcFast crcTable message = foldl (crcFast_step crcTable) 0 message"

section \<open>The table is the bit-serial division\<close>

lemma WIDTH_simps [simp]: "WIDTH - 8 = 8" "WIDTH - Suc 0 = 15" "WIDTH - 1 = 15"
  by (simp_all add: WIDTH_def)

lemma and_TOPBIT: "r AND TOPBIT \<noteq> 0 \<longleftrightarrow> bit r 15"
  unfolding TOPBIT_def WIDTH_simps push_bit_of_1 by (simp only: and_exp_eq_0_iff_not_bit not_not)

lemma crc_bit_xor: "crc_bit (a XOR b) = crc_bit a XOR crc_bit b"
proof -
  have P: "push_bit 1 (a XOR b) = push_bit 1 a XOR push_bit 1 (b :: crc)"
    by (rule push_bit_xor)
  show ?thesis
    unfolding crc_bit_def and_TOPBIT P
    by (simp add: bit_xor_iff xor.assoc xor.left_commute xor.commute)
qed

lemma crc_bits_xor: "crc_bits n (a XOR b) = crc_bits n a XOR crc_bits n b"
  by (induction n arbitrary: a b) (simp_all add: crc_bit_xor)

text \<open>A remainder with an empty upper byte is shifted unchanged through eight steps.\<close>

lemma crc_bits_low:
  assumes "\<And>k. 16 - n \<le> k \<Longrightarrow> \<not> bit r k" and "n \<le> 16"
  shows "crc_bits n r = push_bit n r"
  using assms
proof (induction n arbitrary: r)
  case 0
  then show ?case by simp
next
  case (Suc n)
  have "\<not> bit r 15"
    using Suc.prems by simp
  then have one: "crc_bit r = push_bit 1 r"
    by (simp add: crc_bit_def and_TOPBIT)
  have "crc_bits n (push_bit 1 r) = push_bit n (push_bit 1 r)"
  proof (rule Suc.IH)
    show "\<not> bit (push_bit 1 r) k" if "16 - n \<le> k" for k
      using Suc.prems that by (auto simp only: bit_push_bit_iff)
    show "n \<le> 16"
      using Suc.prems by simp
  qed
  then show ?case
    by (simp add: one)
qed

lemma crcInit_nth:
  "crcInit ! unat (d :: byte) = crc_bits 8 (push_bit 8 (ucast d))"
proof -
  have lt: "unat d < 256"
    using unsigned_less [of d] by simp
  have "word_of_nat (unat d) = (ucast d :: crc)"
    by simp
  with lt show ?thesis
    by (simp add: crcInit_def)
qed

text \<open>One byte of the reference division: the byte enters at the top, eight steps follow.\<close>

definition crc_byte :: "crc \<Rightarrow> byte \<Rightarrow> crc" where
  "crc_byte r m = crc_bits 8 (r XOR push_bit 8 (ucast m))"

lemma split_remainder:
  "r XOR push_bit 8 (ucast (m :: byte)) =
    push_bit 8 (ucast (m XOR ucast (drop_bit 8 r) :: byte)) XOR take_bit 8 (r :: crc)"
  by (rule bit_word_eqI) (auto simp: bit_simps)

lemma crcFast_step_crc_byte: "crcFast_step crcInit r m = crc_byte r m"
proof -
  have low: "crc_bits 8 (take_bit 8 r) = push_bit 8 r"
  proof -
    have "crc_bits 8 (take_bit 8 r) = push_bit 8 (take_bit 8 r)"
      by (rule crc_bits_low) (auto simp: bit_simps)
    also have "\<dots> = push_bit 8 r"
      by (rule bit_word_eqI) (auto simp: bit_simps)
    finally show ?thesis .
  qed
  show ?thesis
    unfolding crc_byte_def crcFast_step_def Let_def WIDTH_simps crcInit_nth
    by (simp add: split_remainder [of r m] crc_bits_xor low)
qed

lemma crcFast_crc_byte: "crcFast crcInit message = foldl crc_byte 0 message"
  unfolding crcFast_def using crcFast_step_crc_byte by presburger

lemma foldl_crc_byte_xor:
  "length xs = length ys \<Longrightarrow>
    foldl crc_byte (a XOR b) (map2 (XOR) xs ys) = foldl crc_byte a xs XOR foldl crc_byte b ys"
proof (induction xs ys arbitrary: a b rule: list_induct2)
  case Nil
  show ?case by simp
next
  case (Cons x xs y ys)
  have "crc_byte (a XOR b) (x XOR y) = crc_byte a x XOR crc_byte b y"
  proof -
    have "(a XOR b) XOR push_bit 8 (ucast (x XOR y)) =
        (a XOR push_bit 8 (ucast x)) XOR (b XOR push_bit 8 (ucast y))"
      by (rule bit_word_eqI) (auto simp: bit_simps)
    then show ?thesis
      unfolding crc_byte_def by (simp only: crc_bits_xor)
  qed
  with Cons.IH [of "crc_byte a x" "crc_byte b y"] show ?case
    by simp
qed

section \<open>Polynomials over GF(2)\<close>

text \<open>
  A polynomial with coefficients in GF(2) is the natural number whose bits are the
  coefficients. Addition is \<open>XOR\<close>, multiplication by x is a shift, and \<open>clmul\<close> is the
  carry-less product. \<open>GEN\<close> is x^16 + x^15 + x^2 + 1, the generator that \<open>POLYNOMIAL\<close>
  abbreviates.
\<close>

fun clmul :: "nat \<Rightarrow> nat \<Rightarrow> nat" where
  "clmul a b = (if a = 0 then 0 else (if odd a then b else 0) XOR push_bit 1 (clmul (a div 2) b))"

declare clmul.simps [simp del]

definition GEN :: nat where "GEN = 0x18005"

text \<open>The polynomial of a message, its first byte at the highest powers.\<close>

definition msg_poly :: "byte list \<Rightarrow> nat" where
  "msg_poly message = foldl (\<lambda>v m. push_bit 8 v XOR unat m) 0 message"

definition gen_multiple :: "nat \<Rightarrow> bool" where
  "gen_multiple x \<longleftrightarrow> (\<exists>q. x = clmul q GEN)"

lemma clmul_0 [simp]: "clmul 0 b = 0"
  by (simp add: clmul.simps)

lemma clmul_rec: "clmul a b = (if odd a then b else 0) XOR push_bit 1 (clmul (a div 2) b)"
  by (cases "a = 0") (simp_all add: clmul.simps [of a])

lemma xor_div_2_nat: "(a XOR c) div 2 = (a div 2) XOR (c div 2)" for a c :: nat
  using drop_bit_xor [of 1 a c] by (simp only: drop_bit_eq_div power_one_right)

lemma xor_cancel_nat: "x XOR (x XOR y) = y" for x y :: nat
  by (simp add: xor.assoc [symmetric])

lemma clmul_xor: "clmul (a XOR c) b = clmul a b XOR clmul c b"
proof (induction a arbitrary: c rule: less_induct)
  case (less a)
  show ?case
  proof (cases "a = 0")
    case True
    then show ?thesis by simp
  next
    case False
    have odd_xor: "odd (a XOR c) \<longleftrightarrow> odd a \<noteq> odd c"
      using even_xor_iff [of a c] by auto
    have "clmul ((a XOR c) div 2) b = clmul (a div 2) b XOR clmul (c div 2) b"
      using False by (simp add: xor_div_2_nat less.IH)
    then show ?thesis
      unfolding clmul_rec [of "a XOR c"] clmul_rec [of a] clmul_rec [of c]
      by (cases "odd a"; cases "odd c")
        (simp_all add: odd_xor push_bit_xor xor.assoc xor.left_commute xor.commute xor_cancel_nat)
  qed
qed

lemma clmul_double: "clmul (push_bit 1 a) b = push_bit 1 (clmul a b)"
  by (subst clmul_rec) (simp add: push_bit_double)

lemma gen_multiple_xor: "gen_multiple x \<Longrightarrow> gen_multiple y \<Longrightarrow> gen_multiple (x XOR y)"
  unfolding gen_multiple_def using clmul_xor by metis

lemma gen_multiple_shift: "gen_multiple x \<Longrightarrow> gen_multiple (push_bit n x)"
proof (induction n)
  case 0
  then show ?case by simp
next
  case (Suc n)
  then obtain q where "push_bit n x = clmul q GEN"
    by (auto simp: gen_multiple_def)
  then have "push_bit 1 (push_bit n x) = clmul (push_bit 1 q) GEN"
    by (simp only: clmul_double)
  then show ?case
    unfolding gen_multiple_def push_bit_push_bit by auto
qed

lemma gen_multiple_0 [simp]: "gen_multiple 0"
  unfolding gen_multiple_def by (rule exI [of _ 0]) simp

lemma gen_multiple_GEN: "gen_multiple GEN"
proof -
  have "clmul 1 GEN = GEN"
    by (subst clmul_rec) simp
  then show ?thesis
    unfolding gen_multiple_def by metis
qed

text \<open>A nonzero multiple of the generator has degree at least 16.\<close>

lemma xor_ge_power:
  fixes x y :: nat
  assumes "2 ^ n \<le> x" and "y < 2 ^ n"
  shows "2 ^ n \<le> x XOR y"
proof -
  have "drop_bit n (x XOR y) = drop_bit n x"
  proof -
    have "drop_bit n y = 0"
      using assms(2) by (simp add: drop_bit_eq_div)
    then show ?thesis
      by (simp only: drop_bit_xor xor.right_neutral)
  qed
  then have "(x XOR y) div 2 ^ n = x div 2 ^ n"
    by (simp add: drop_bit_eq_div)
  moreover have "x div 2 ^ n \<noteq> 0"
    using assms(1) by (simp add: div_eq_0_iff)
  ultimately have "(x XOR y) div 2 ^ n \<noteq> 0"
    by simp
  then show ?thesis
    by (simp add: div_eq_0_iff not_less)
qed

lemma clmul_GEN_ge: "q \<noteq> 0 \<Longrightarrow> 2 ^ 16 \<le> clmul q GEN"
proof (induction q rule: less_induct)
  case (less q)
  show ?case
  proof (cases "q div 2 = 0")
    case True
    with less.prems have "q = 1" by simp
    then show ?thesis
      by (subst clmul_rec) (simp add: GEN_def)
  next
    case False
    with less.IH [of "q div 2"] have "2 ^ 16 \<le> clmul (q div 2) GEN"
      by simp
    then have "2 ^ 17 \<le> push_bit 1 (clmul (q div 2) GEN)"
      by (simp add: push_bit_eq_mult)
    moreover have "(if odd q then GEN else 0) < 2 ^ 17"
      by (simp add: GEN_def)
    ultimately have "2 ^ 17 \<le> push_bit 1 (clmul (q div 2) GEN) XOR (if odd q then GEN else 0)"
      by (rule xor_ge_power)
    then have "2 ^ 17 \<le> clmul q GEN"
      by (subst clmul_rec) (simp only: xor.commute)
    then show ?thesis by simp
  qed
qed

text \<open>x divides no multiple of the generator unless it divides the quotient.\<close>

lemma gen_multiple_unshift: "gen_multiple (push_bit n x) \<Longrightarrow> gen_multiple x"
proof (induction n)
  case 0
  then show ?case by simp
next
  case (Suc n)
  then obtain q where q: "push_bit 1 (push_bit n x) = clmul q GEN"
    by (auto simp: gen_multiple_def push_bit_push_bit)
  have "even (clmul q GEN)"
    unfolding q [symmetric] by (simp add: push_bit_eq_mult)
  then have "even q"
    by (subst (asm) clmul_rec) (simp add: GEN_def even_xor_iff split: if_splits)
  then have "push_bit 1 (clmul (q div 2) GEN) = push_bit 1 (push_bit n x)"
    unfolding q by (subst (2) clmul_rec) simp
  then have "push_bit n x = clmul (q div 2) GEN"
    by (simp add: push_bit_eq_mult)
  then have "gen_multiple (push_bit n x)"
    unfolding gen_multiple_def by auto
  then show ?case
    by (rule Suc.IH)
qed

lemma gen_multiple_small: "gen_multiple x \<Longrightarrow> x < 2 ^ 16 \<Longrightarrow> x = 0"
  unfolding gen_multiple_def using clmul_GEN_ge leD by (metis clmul_0)

section \<open>The checksum is the remainder of polynomial division\<close>

lemma bit_unat_crc: "bit (unat (r :: crc)) n \<longleftrightarrow> bit r n"
  by (simp add: bit_unsigned_iff)

lemma GEN_POLYNOMIAL: "GEN = 2 ^ 16 XOR unat POLYNOMIAL"
  by (simp add: GEN_def POLYNOMIAL_def)

lemma unat_shift: "push_bit 1 (unat r) = (if bit r 15 then 2 ^ 16 else 0) XOR unat (push_bit 1 (r :: crc))"
proof (rule bit_eqI)
  fix n
  have r16: "bit r m \<Longrightarrow> m < 16" for m
    using bit_imp_le_length by force
  have low: "bit (push_bit 1 (unat r)) n \<longleftrightarrow> 1 \<le> n \<and> bit r (n - 1)"
    by (auto simp: bit_push_bit_iff bit_unat_crc simp del: push_bit_Suc)
  have word: "bit (unat (push_bit 1 r)) n \<longleftrightarrow> 1 \<le> n \<and> bit r (n - 1) \<and> n < 16"
    by (auto simp: bit_unat_crc bit_push_bit_iff simp del: push_bit_Suc)
  have top: "bit (if bit r 15 then 2 ^ 16 else (0 :: nat)) n \<longleftrightarrow> bit r 15 \<and> n = 16"
    by (simp only: bit_exp_iff split: if_split) auto
  have "n < 16 \<or> n = 16 \<or> 16 < n"
    by auto
  then show "bit (push_bit 1 (unat r)) n =
      bit ((if bit r 15 then 2 ^ 16 else 0) XOR unat (push_bit 1 r)) n"
    unfolding bit_xor_iff low word top using r16 [of "n - 1"] by auto
qed

lemma crc_bit_poly:
  "push_bit 1 (unat r) XOR unat (crc_bit r) = (if bit r 15 then GEN else 0)"
  unfolding crc_bit_def and_TOPBIT GEN_POLYNOMIAL unat_shift
  by (simp add: unsigned_xor_eq xor.assoc xor.left_commute xor_cancel_nat del: push_bit_Suc)

lemma crc_bits_poly: "gen_multiple (push_bit n (unat r) XOR unat (crc_bits n r))"
proof (induction n arbitrary: r)
  case 0
  show ?case by simp
next
  case (Suc n)
  have "gen_multiple (push_bit 1 (unat r) XOR unat (crc_bit r))"
    unfolding crc_bit_poly by (simp add: gen_multiple_GEN)
  then have "gen_multiple (push_bit n (push_bit 1 (unat r) XOR unat (crc_bit r)))"
    by (rule gen_multiple_shift)
  from gen_multiple_xor [OF this Suc.IH [of "crc_bit r"]] show ?case
    by (simp add: push_bit_xor push_bit_push_bit xor.assoc xor_cancel_nat del: push_bit_Suc)
qed

lemma crc_byte_poly:
  assumes "gen_multiple (push_bit 16 P XOR unat r)"
  shows "gen_multiple (push_bit 16 (push_bit 8 P XOR unat m) XOR unat (crc_byte r m))"
proof -
  have u: "unat (r XOR push_bit 8 (ucast m)) = unat r XOR push_bit 8 (unat m)"
    by (rule bit_eqI)
      (auto simp: bit_xor_iff bit_push_bit_iff bit_unat_crc bit_unsigned_iff bit_ucast_iff
        dest: bit_imp_le_length)
  have "gen_multiple (push_bit 8 (push_bit 16 P XOR unat r))"
    using assms by (rule gen_multiple_shift)
  moreover have "gen_multiple (push_bit 8 (unat r XOR push_bit 8 (unat m)) XOR unat (crc_byte r m))"
    unfolding crc_byte_def u [symmetric] by (rule crc_bits_poly)
  ultimately have "gen_multiple (push_bit 8 (push_bit 16 P XOR unat r) XOR
      (push_bit 8 (unat r XOR push_bit 8 (unat m)) XOR unat (crc_byte r m)))"
    by (rule gen_multiple_xor)
  then show ?thesis
    by (simp add: push_bit_xor push_bit_push_bit xor.assoc xor.left_commute [of "push_bit 8 (unat r)"]
        xor_cancel_nat)
qed

lemma crc_poly: "gen_multiple (push_bit 16 (msg_poly message) XOR unat (crcFast crcInit message))"
proof -
  have "gen_multiple (push_bit 16 P XOR unat r) \<Longrightarrow>
      gen_multiple (push_bit 16 (foldl (\<lambda>v m. push_bit 8 v XOR unat m) P message) XOR
        unat (foldl crc_byte r message))" for P r
  proof (induction message arbitrary: P r)
    case Nil
    then show ?case by simp
  next
    case (Cons m message)
    from Cons.IH [OF crc_byte_poly [OF Cons.prems, of m]] show ?case
      by (simp only: foldl_Cons)
  qed
  from this [of 0 0] show ?thesis
    by (simp add: msg_poly_def crcFast_crc_byte)
qed

text \<open>
  Two messages with the same checksum differ by a multiple of the generator, so a burst
  of at most 16 bits never goes unnoticed.
\<close>

lemma crc_eq_poly:
  assumes "crcFast crcInit m1 = crcFast crcInit m2"
  shows "gen_multiple (msg_poly m1 XOR msg_poly m2)"
proof -
  have "gen_multiple ((push_bit 16 (msg_poly m1) XOR unat (crcFast crcInit m1)) XOR
      (push_bit 16 (msg_poly m2) XOR unat (crcFast crcInit m2)))"
    by (intro gen_multiple_xor crc_poly)
  then have "gen_multiple (push_bit 16 (msg_poly m1 XOR msg_poly m2))"
    unfolding assms
    by (simp add: push_bit_xor xor.assoc xor.left_commute xor.commute xor_cancel_nat)
  then show ?thesis
    by (rule gen_multiple_unshift)
qed

definition burst16 :: "byte list \<Rightarrow> byte list \<Rightarrow> bool" where
  "burst16 m1 m2 \<longleftrightarrow> (\<exists>k e. 0 < e \<and> e < 2 ^ 16 \<and> msg_poly m1 XOR msg_poly m2 = push_bit k e)"

lemma crc_burst: "burst16 m1 m2 \<Longrightarrow> crcFast crcInit m1 \<noteq> crcFast crcInit m2"
  unfolding burst16_def
  using crc_eq_poly gen_multiple_unshift gen_multiple_small by (metis less_irrefl)

text \<open>Two messages that differ in two bytes only differ by such a burst.\<close>

lemma msg_poly_append:
  "msg_poly (xs @ ys) = push_bit (8 * length ys) (msg_poly xs) XOR msg_poly ys"
proof (induction ys rule: rev_induct)
  case Nil
  show ?case
    by (simp add: msg_poly_def)
next
  case (snoc y ys)
  have "msg_poly (zs @ [y]) = push_bit 8 (msg_poly zs) XOR unat y" for zs
    by (simp add: msg_poly_def)
  from this [of "xs @ ys"] this [of ys] snoc.IH show ?case
    by (simp add: push_bit_xor push_bit_push_bit xor.assoc)
qed

lemma xor_less_power_nat: "x < 2 ^ n \<Longrightarrow> y < 2 ^ n \<Longrightarrow> x XOR y < 2 ^ n" for x y :: nat
  by (metis take_bit_nat_eq_self_iff take_bit_xor)

lemma burst16_two_bytes:
  assumes "(c, d) \<noteq> (0, 0)"
  shows "burst16 (xs @ [c, d] @ ys) (xs @ [0, 0] @ ys)"
proof -
  let ?e = "msg_poly [c, d]"
  have lt: "unat x < 256" for x :: byte
    using unsigned_less [of x] by simp
  have e: "?e = push_bit 8 (unat c) XOR unat d"
    by (simp add: msg_poly_def)
  have split: "msg_poly (xs @ zs @ ys) = push_bit (8 * length ys) (push_bit (8 * length zs) (msg_poly xs))
      XOR push_bit (8 * length ys) (msg_poly zs) XOR msg_poly ys" for zs
    by (simp add: msg_poly_append push_bit_xor push_bit_push_bit xor.assoc add.commute)
  have "msg_poly [0, 0] = 0"
    by (simp add: msg_poly_def)
  then have "msg_poly (xs @ [c, d] @ ys) XOR msg_poly (xs @ [0, 0] @ ys) = push_bit (8 * length ys) ?e"
    unfolding split by (simp add: xor.assoc xor.left_commute xor.commute xor_cancel_nat)
  moreover have "?e < 2 ^ 16"
  proof -
    have "push_bit 8 (unat c) < 2 ^ 16"
      using unsigned_less [of c] by (simp add: push_bit_eq_mult)
    moreover have "unat d < 2 ^ 16"
      using lt [of d] by simp
    ultimately show ?thesis
      unfolding e by (simp only: xor_less_power_nat)
  qed
  moreover have "0 < ?e"
  proof (rule ccontr)
    assume "\<not> 0 < ?e"
    then have "push_bit 8 (unat c) = unat d"
      unfolding e by (metis gr0I xor_cancel_nat xor.right_neutral)
    then have "unat d = 256 * unat c"
      by (simp add: push_bit_eq_mult)
    with lt [of d] have "unat c = 0" "unat d = 0"
      by simp_all
    with assms show False
      by (simp add: unat_eq_zero)
  qed
  ultimately show ?thesis
    unfolding burst16_def by blast
qed

section \<open>Properties\<close>

text \<open>
  The table-driven \<open>crcFast\<close> over the table filled by \<open>crcInit\<close> computes the
  bit-serial division: each byte enters at the top of the remainder and eight shift steps
  with the polynomial follow.
\<close>

theorem crcFast_bit_serial: "crcFast crcInit message = foldl crc_byte 0 message"
  by (rule crcFast_crc_byte)

text \<open>
  C15: The checksum is the remainder of polynomial division over GF(2): the polynomial of
  the message times x^16 is a multiple of x^16 + x^15 + x^2 + 1 plus the checksum, whose
  degree is below 16.
\<close>

theorem crcFast_remainder:
  "\<exists>q. push_bit 16 (msg_poly message) = clmul q GEN XOR unat (crcFast crcInit message) \<and>
    unat (crcFast crcInit message) < 2 ^ 16"
proof -
  obtain q where q: "push_bit 16 (msg_poly message) XOR unat (crcFast crcInit message) = clmul q GEN"
    using crc_poly by (auto simp: gen_multiple_def)
  have "push_bit 16 (msg_poly message) = clmul q GEN XOR unat (crcFast crcInit message)"
    unfolding q [symmetric] by (simp add: xor.assoc)
  moreover have "unat (crcFast crcInit message) < 2 ^ 16"
    using unsigned_less [of "crcFast crcInit message"] by simp
  ultimately show ?thesis by blast
qed

text \<open>
  Two messages whose difference is a burst of at most 16 bits, anywhere in the message,
  never have the same checksum.
\<close>

theorem crc_detects_burst:
  assumes "burst16 m1 m2"
  shows "crcFast crcInit m1 \<noteq> crcFast crcInit m2"
  using assms by (rule crc_burst)

theorem crc_detects_burst_witness:
  "crcFast crcInit [0x31, 0x32, 0x33, 0x34] \<noteq> crcFast crcInit [0x31, 0x3F, 0xF3, 0x34]"
proof (rule crc_detects_burst)
  have "msg_poly [0x31, 0x32, 0x33, 0x34] XOR msg_poly [0x31, 0x3F, 0xF3, 0x34] = push_bit 8 0xDC0"
    by (simp add: msg_poly_def push_bit_eq_mult)
  then show "burst16 [0x31, 0x32, 0x33, 0x34] [0x31, 0x3F, 0xF3, 0x34]"
    unfolding burst16_def by (intro exI [of _ 8] exI [of _ "0xDC0"]) simp
qed

text \<open>
  The checksum is linear: the checksum of the bytewise difference of two messages of
  the same length is the difference of their checksums.
\<close>

theorem crc_linear:
  assumes "length xs = length ys"
  shows "crcFast crcInit (map2 (XOR) xs ys) = crcFast crcInit xs XOR crcFast crcInit ys"
  using foldl_crc_byte_xor [OF assms, of 0 0] by (simp add: crcFast_crc_byte)

theorem crc_linear_witness:
  "crcFast crcInit [0x0F, 0xFF] = crcFast crcInit [0x0E, 0x0F] XOR crcFast crcInit [0x01, 0xF0]"
  using crc_linear [of "[0x0E, 0x0F]" "[0x01, 0xF0]"] by simp

end
