(* ===== verification/Timeval.thy ===== *)
theory Timeval
  imports CBase
begin

text \<open>
  Time values of \<open>project1/tcpd.c\<close> and \<open>proj1/timmer.c\<close>: \<open>timeval_subtract\<close>,
  \<open>timeval_add\<close> and \<open>calculate_rtt\<close>. The fields \<open>tv_sec\<close> and \<open>tv_usec\<close> are 64-bit
  \<open>long\<close>s, which no clock value comes near to overflowing: they are integers here. The
  local \<open>nsec\<close> is a 32-bit \<open>int\<close>, and so is its product with 1000000: both conversions
  are written out. \<open>usecs\<close> is the value in microseconds that a pair of fields stands for.
\<close>

section \<open>The code\<close>

record timeval =
  tv_sec :: int
  tv_usec :: int

definition to_int32 :: "int \<Rightarrow> int" where
  "to_int32 x = signed_take_bit 31 x"

text \<open>
  The two carry steps of \<open>timeval_subtract\<close> update \<open>*y\<close> in place. Both quotients have a
  positive numerator, where C's division agrees with \<open>div\<close>.
\<close>

definition carry_up :: "timeval \<Rightarrow> timeval \<Rightarrow> timeval" where
  "carry_up x y =
    (if tv_usec x < tv_usec y then
       let nsec = to_int32 (to_int32 ((tv_usec y - tv_usec x) div 1000000) + 1)
       in y\<lparr>tv_usec := tv_usec y - to_int32 (1000000 * nsec), tv_sec := tv_sec y + nsec\<rparr>
     else y)"

definition carry_down :: "timeval \<Rightarrow> timeval \<Rightarrow> timeval" where
  "carry_down x y =
    (if tv_usec x - tv_usec y > 1000000 then
       let nsec = to_int32 ((tv_usec x - tv_usec y) div 1000000)
       in y\<lparr>tv_usec := tv_usec y + to_int32 (1000000 * nsec), tv_sec := tv_sec y - nsec\<rparr>
     else y)"

text \<open>
  \<open>timeval_subtract (result, x, y)\<close> with a \<open>result\<close> distinct from \<open>x\<close> and \<open>y\<close>: the
  return value, \<open>*result\<close> and the updated \<open>*y\<close>.
\<close>

definition timeval_subtract :: "timeval \<Rightarrow> timeval \<Rightarrow> bool \<times> timeval \<times> timeval" where
  "timeval_subtract x y =
    (let y' = carry_down x (carry_up x y);
         result = \<lparr>tv_sec = tv_sec x - tv_sec y', tv_usec = tv_usec x - tv_usec y'\<rparr>
     in (tv_sec x < tv_sec y', result, y'))"

text \<open>
  The same call with \<open>result = x\<close>: \<open>*x\<close> is overwritten before the return value is
  computed from it. Every caller of this form ignores the return value.
\<close>

definition timeval_subtract_into :: "timeval \<Rightarrow> timeval \<Rightarrow> bool \<times> timeval \<times> timeval" where
  "timeval_subtract_into x y =
    (let y' = carry_down x (carry_up x y);
         result = \<lparr>tv_sec = tv_sec x - tv_sec y', tv_usec = tv_usec x - tv_usec y'\<rparr>
     in (tv_sec result < tv_sec y', result, y'))"

definition timeval_add :: "timeval \<Rightarrow> timeval \<Rightarrow> timeval" where
  "timeval_add x y = \<lparr>tv_sec = tv_sec x + tv_sec y, tv_usec = tv_usec x + tv_usec y\<rparr>"

definition calculate_rtt :: "timeval \<Rightarrow> timeval \<Rightarrow> u32" where
  "calculate_rtt x y =
    (if tv_usec x < tv_usec y
     then word_of_int (tv_usec x + 1000000 - tv_usec y + 1000000 * (tv_sec x - 1 - tv_sec y))
     else word_of_int (tv_usec x - tv_usec y + 1000000 * (tv_sec x - tv_sec y)))"

section \<open>Values in microseconds\<close>

definition usecs :: "timeval \<Rightarrow> int" where
  "usecs t = 1000000 * tv_sec t + tv_usec t"

definition normal :: "timeval \<Rightarrow> bool" where
  "normal t \<longleftrightarrow> 0 \<le> tv_usec t \<and> tv_usec t < 1000000"

text \<open>Where the 32-bit \<open>nsec\<close> and its product cannot overflow.\<close>

definition usec_ok :: "timeval \<Rightarrow> bool" where
  "usec_ok t \<longleftrightarrow> \<bar>tv_usec t\<bar> \<le> 10 ^ 9"

lemma to_int32_id: "- (2 ^ 31) \<le> x \<Longrightarrow> x < 2 ^ 31 \<Longrightarrow> to_int32 x = x"
  by (simp add: to_int32_def signed_take_bit_int_eq_self)

lemma normal_usec_ok: "normal t \<Longrightarrow> usec_ok t"
  by (auto simp: normal_def usec_ok_def)

text \<open>Times are compared field by field; for normalised ones this is the order of the microseconds.\<close>

instantiation timeval_ext :: (linorder) linorder
begin

definition less_eq_timeval_ext :: "'a timeval_ext \<Rightarrow> 'a timeval_ext \<Rightarrow> bool" where
  "x \<le> y \<longleftrightarrow> tv_sec x < tv_sec y \<or> tv_sec x = tv_sec y \<and>
    (tv_usec x < tv_usec y \<or> tv_usec x = tv_usec y \<and> timeval.more x \<le> timeval.more y)"

definition less_timeval_ext :: "'a timeval_ext \<Rightarrow> 'a timeval_ext \<Rightarrow> bool" where
  "x < y \<longleftrightarrow> x \<le> y \<and> \<not> y \<le> (x :: 'a timeval_ext)"

instance
  by standard (auto simp: less_eq_timeval_ext_def less_timeval_ext_def)

end

lemma normal_less:
  assumes "normal x" and "normal y"
  shows "x < y \<longleftrightarrow> usecs x < usecs y"
  using assms by (auto simp: less_timeval_ext_def less_eq_timeval_ext_def normal_def usecs_def)

lemma carry_up_exact:
  assumes "usec_ok x" and "usec_ok y" and "tv_usec x < tv_usec y"
  shows "carry_up x y =
    (let nsec = (tv_usec y - tv_usec x) div 1000000 + 1
     in y\<lparr>tv_usec := tv_usec y - 1000000 * nsec, tv_sec := tv_sec y + nsec\<rparr>)"
proof -
  define q where "q = (tv_usec y - tv_usec x) div 1000000"
  have "0 \<le> q" "q \<le> 2000"
    using assms by (auto simp: q_def usec_ok_def)
  then have "to_int32 q = q" "to_int32 (q + 1) = q + 1"
    "to_int32 (1000000 * (q + 1)) = 1000000 * (q + 1)"
    by (simp_all add: to_int32_id)
  then show ?thesis
    using assms(3) by (simp add: carry_up_def q_def [symmetric] Let_def)
qed

lemma carry_down_exact:
  assumes "tv_usec x - tv_usec y > 1000000" and "tv_usec x - tv_usec y \<le> 2 * 10 ^ 9"
  shows "carry_down x y =
    (let nsec = (tv_usec x - tv_usec y) div 1000000
     in y\<lparr>tv_usec := tv_usec y + 1000000 * nsec, tv_sec := tv_sec y - nsec\<rparr>)"
proof -
  define q where "q = (tv_usec x - tv_usec y) div 1000000"
  have "0 \<le> q" "q \<le> 2000"
    using assms by (auto simp: q_def)
  then have "to_int32 q = q" "to_int32 (1000000 * q) = 1000000 * q"
    by (simp_all add: to_int32_id)
  then show ?thesis
    using assms(1) by (simp add: carry_down_def q_def [symmetric] Let_def)
qed

text \<open>The updated \<open>*y\<close>, in all the cases of the carry steps.\<close>

definition carry :: "timeval \<Rightarrow> timeval \<Rightarrow> timeval" where
  "carry x y = carry_down x (carry_up x y)"

lemma carry_facts:
  assumes x: "usec_ok x" and y: "usec_ok y"
  shows carry_usecs: "usecs (carry x y) = usecs y"
    and carry_lo: "0 \<le> tv_usec x - tv_usec (carry x y)"
    and carry_hi: "tv_usec x - tv_usec (carry x y) \<le> 1000000"
proof -
  define d where "d = tv_usec y - tv_usec x"
  have d: "\<bar>d\<bar> \<le> 2 * 10 ^ 9"
    using x y by (auto simp: d_def usec_ok_def)
  have "usecs (carry x y) = usecs y \<and> 0 \<le> tv_usec x - tv_usec (carry x y) \<and>
      tv_usec x - tv_usec (carry x y) \<le> 1000000"
  proof (cases "0 < d")
    case True
    have up: "carry_up x y =
        y\<lparr>tv_usec := tv_usec y - 1000000 * (d div 1000000 + 1), tv_sec := tv_sec y + (d div 1000000 + 1)\<rparr>"
      using carry_up_exact [OF x y] True by (simp add: d_def Let_def)
    have "d mod 1000000 = d - 1000000 * (d div 1000000)"
      by (simp add: minus_mult_div_eq_mod)
    moreover have "0 \<le> d mod 1000000" "d mod 1000000 < 1000000"
      by simp_all
    ultimately have r: "0 \<le> tv_usec x - tv_usec (carry_up x y)"
      "tv_usec x - tv_usec (carry_up x y) \<le> 1000000"
      unfolding up by (simp_all add: d_def)
    then have "carry x y = carry_up x y"
      by (simp add: carry_def carry_down_def)
    with r show ?thesis
      by (simp add: up usecs_def)
  next
    case False
    then have up: "carry_up x y = y"
      by (simp add: carry_up_def d_def)
    show ?thesis
    proof (cases "- d > 1000000")
      case True
      define e where "e = - d"
      have e: "e = tv_usec x - tv_usec y"
        by (simp add: e_def d_def)
      have down: "carry x y =
          y\<lparr>tv_usec := tv_usec y + 1000000 * (e div 1000000), tv_sec := tv_sec y - e div 1000000\<rparr>"
        using carry_down_exact [of x y] True d by (simp add: carry_def up e Let_def d_def)
      have "e mod 1000000 = e - 1000000 * (e div 1000000)"
        by (simp add: minus_mult_div_eq_mod)
      moreover have "0 \<le> e mod 1000000" "e mod 1000000 < 1000000"
        by simp_all
      ultimately show ?thesis
        unfolding down by (simp add: usecs_def e)
    next
      case False
      with \<open>\<not> 0 < d\<close> show ?thesis
        by (simp add: carry_def up carry_down_def d_def)
    qed
  qed
  then show "usecs (carry x y) = usecs y" "0 \<le> tv_usec x - tv_usec (carry x y)"
    "tv_usec x - tv_usec (carry x y) \<le> 1000000"
    by simp_all
qed

lemma timeval_subtract_carry:
  "timeval_subtract x y =
    (tv_sec x < tv_sec (carry x y),
     \<lparr>tv_sec = tv_sec x - tv_sec (carry x y), tv_usec = tv_usec x - tv_usec (carry x y)\<rparr>,
     carry x y)"
  by (simp add: timeval_subtract_def carry_def Let_def)

lemma timeval_subtract_into_carry:
  "snd (timeval_subtract_into x y) = snd (timeval_subtract x y)"
  by (simp add: timeval_subtract_def timeval_subtract_into_def Let_def)

lemma carry_idem:
  assumes "0 \<le> tv_usec x - tv_usec y" and "tv_usec x - tv_usec y \<le> 1000000"
  shows "carry x y = y"
  using assms by (simp add: carry_def carry_up_def carry_down_def)

lemma timeval_add_usecs: "usecs (timeval_add x y) = usecs x + usecs y"
  by (simp add: timeval_add_def usecs_def)

section \<open>Properties\<close>

text \<open>
  C32: On normalised values \<open>timeval_subtract\<close> is the subtraction of the times: the
  result is the difference, normalised again, the return value says whether \<open>x\<close> is the
  earlier time, and the time that \<open>*y\<close> stands for is unchanged.
\<close>

theorem timeval_subtract_normal:
  assumes "normal x" and "normal y"
  shows "case timeval_subtract x y of (negative, result, y') \<Rightarrow>
    usecs result = usecs x - usecs y \<and> normal result \<and>
    (negative \<longleftrightarrow> x < y) \<and> usecs y' = usecs y"
proof -
  have ok: "usec_ok x" "usec_ok y"
    using assms by (simp_all add: normal_usec_ok)
  note c = carry_facts [OF ok]
  have hi: "tv_usec x - tv_usec (carry x y) < 1000000"
  proof (cases "tv_usec x < tv_usec y")
    case True
    then have "(tv_usec y - tv_usec x) div 1000000 = 0"
      using assms by (auto simp: normal_def)
    then have "carry_up x y = y\<lparr>tv_usec := tv_usec y - 1000000, tv_sec := tv_sec y + 1\<rparr>"
      using carry_up_exact [OF ok True] by simp
    then show ?thesis
      using assms True by (auto simp: carry_def carry_down_def normal_def)
  next
    case False
    then show ?thesis
      using assms by (auto simp: carry_def carry_down_def carry_up_def normal_def)
  qed
  have "tv_sec x < tv_sec (carry x y) \<longleftrightarrow> usecs x < usecs (carry x y)"
    using c(2) hi by (auto simp: usecs_def)
  then show ?thesis
    using c hi normal_less [OF assms] by (simp add: timeval_subtract_carry normal_def) (auto simp: usecs_def)
qed

theorem timeval_subtract_normal_witness:
  "case timeval_subtract \<lparr>tv_sec = 5, tv_usec = 100\<rparr> \<lparr>tv_sec = 3, tv_usec = 900\<rparr> of
    (negative, result, y') \<Rightarrow>
      usecs result = 1999200 \<and> normal result \<and> \<not> negative \<and> usecs y' = 3000900"
  using timeval_subtract_normal [of "\<lparr>tv_sec = 5, tv_usec = 100\<rparr>" "\<lparr>tv_sec = 3, tv_usec = 900\<rparr>"]
  by (auto simp: normal_def usecs_def less_timeval_ext_def less_eq_timeval_ext_def)

text \<open>
  Without normalisation (microsecond fields up to 10^9 either way) the difference and
  \<open>*y\<close> are still right, the microseconds of the result lie between 0 and 1000000, both
  included, and a negative answer excludes only a positive difference, a nonnegative answer
  only a negative one.
\<close>

theorem timeval_subtract_any:
  assumes "usec_ok x" and "usec_ok y"
  shows "case timeval_subtract x y of (negative, result, y') \<Rightarrow>
    usecs result = usecs x - usecs y \<and> 0 \<le> tv_usec result \<and> tv_usec result \<le> 1000000 \<and>
    (if negative then usecs x \<le> usecs y else usecs y \<le> usecs x) \<and> usecs y' = usecs y"
proof -
  note c = carry_facts [OF assms]
  have "usecs \<lparr>tv_sec = tv_sec x - tv_sec (carry x y), tv_usec = tv_usec x - tv_usec (carry x y)\<rparr> =
      usecs x - usecs (carry x y)"
    by (simp add: usecs_def)
  moreover have "if tv_sec x < tv_sec (carry x y) then usecs x \<le> usecs (carry x y)
      else usecs (carry x y) \<le> usecs x"
    using c(2,3) by (auto simp: usecs_def)
  ultimately show ?thesis
    using c by (auto simp: timeval_subtract_carry split: if_splits)
qed

theorem timeval_subtract_any_witness:
  "case timeval_subtract \<lparr>tv_sec = 2, tv_usec = 1500000\<rparr> \<lparr>tv_sec = 1, tv_usec = -300\<rparr> of
    (negative, result, y') \<Rightarrow>
      usecs result = 2500300 \<and> 0 \<le> tv_usec result \<and> tv_usec result \<le> 1000000 \<and>
      (if negative then (3500000::int) \<le> 999700 else (999700::int) \<le> 3500000) \<and> usecs y' = 999700"
  using timeval_subtract_any [of "\<lparr>tv_sec = 2, tv_usec = 1500000\<rparr>" "\<lparr>tv_sec = 1, tv_usec = -300\<rparr>"]
  by (auto simp: usec_ok_def usecs_def split: if_splits)

text \<open>
  The second carry step tests \<open>> 1000000\<close> where it means \<open>>= 1000000\<close>: one second
  minus one second, written as 1000000 microseconds, is reported as negative.
\<close>

theorem timeval_subtract_equal_negative:
  "timeval_subtract \<lparr>tv_sec = 0, tv_usec = 1000000\<rparr> \<lparr>tv_sec = 1, tv_usec = 0\<rparr> =
    (True, \<lparr>tv_sec = -1, tv_usec = 1000000\<rparr>, \<lparr>tv_sec = 1, tv_usec = 0\<rparr>) \<and>
   usecs \<lparr>tv_sec = 0, tv_usec = 1000000\<rparr> = usecs \<lparr>tv_sec = 1, tv_usec = 0\<rparr>"
  by (simp add: timeval_subtract_def carry_up_def carry_down_def usecs_def)

text \<open>
  \<open>calculate_rtt\<close> is the difference in microseconds whenever it fits 32 bits; both of
  its branches agree, also for times that are not normalised.
\<close>

theorem calculate_rtt_exact:
  assumes "usecs y \<le> usecs x" and "usecs x - usecs y < 2 ^ 32"
  shows "uint (calculate_rtt x y) = usecs x - usecs y"
proof -
  have "calculate_rtt x y = word_of_int (usecs x - usecs y)"
    unfolding calculate_rtt_def usecs_def
    by (simp add: algebra_simps)
  then show ?thesis
    using assms by (simp only: uint_word_of_int) simp
qed

theorem calculate_rtt_exact_witness:
  "uint (calculate_rtt \<lparr>tv_sec = 11, tv_usec = 5\<rparr> \<lparr>tv_sec = 9, tv_usec = 999999\<rparr>) = 1000006"
  using calculate_rtt_exact [of "\<lparr>tv_sec = 9, tv_usec = 999999\<rparr>" "\<lparr>tv_sec = 11, tv_usec = 5\<rparr>"]
  by (simp add: usecs_def)

end
