(* ===== verification/Wire.thy ===== *)
theory Wire
  imports Crc Timeval
begin

text \<open>
  The datagrams of \<open>project1/tcpd.c\<close> byte by byte. A data packet (\<open>struct Packet\<close>) has
  1056 bytes: \<open>sockaddr_in\<close> at 0, \<open>tcphdr\<close> at 16 (\<open>seq\<close> at 20, \<open>ack_seq\<close> at 24,
  \<open>check\<close> at 32), four bytes of padding at 36, the time stamp at 40 and the body at 56.
  An acknowledgement is the same without the body: 56 bytes, \<open>header_size\<close>. The first 16
  bytes address the troll and are not part of what the checksum covers.
\<close>

section \<open>The code\<close>

abbreviation BUFFSIZE :: nat where "BUFFSIZE \<equiv> 1000"
abbreviation header_size :: nat where "header_size \<equiv> 56"
abbreviation packet_size :: nat where "packet_size \<equiv> 1056"

definition timeval_bytes :: "timeval \<Rightarrow> byte list" where
  "timeval_bytes t =
    le_bytes 8 (word_of_int (tv_sec t) :: 64 word) @ le_bytes 8 (word_of_int (tv_usec t) :: 64 word)"

definition timeval_of_bytes :: "byte list \<Rightarrow> timeval" where
  "timeval_of_bytes bs =
    \<lparr>tv_sec = sint (le_word (get_bytes 0 8 bs) :: 64 word),
     tv_usec = sint (le_word (get_bytes 8 8 bs) :: 64 word)\<rparr>"

text \<open>
  The client fills the packet buffer: sequence number, body, time stamp, and the checksum
  of everything behind the address, computed while the check field is still zero.
\<close>

definition fill_packet :: "byte list \<Rightarrow> int \<Rightarrow> byte list \<Rightarrow> timeval \<Rightarrow> byte list" where
  "fill_packet packet seq body now =
    (let packet = put_bytes 20 (int_bytes seq) packet;
         packet = put_bytes 56 body packet;
         packet = put_bytes 40 (timeval_bytes now) packet;
         message = get_bytes 16 1040 packet;
         checksum = crcFast crcInit message
     in put_bytes 32 (le_bytes 2 checksum) packet)"

text \<open>After every transmission the header, the time stamp and the body are zeroed.\<close>

definition clear_packet :: "byte list \<Rightarrow> byte list" where
  "clear_packet packet = zero_bytes 56 BUFFSIZE (zero_bytes 40 16 (zero_bytes 16 20 packet))"

text \<open>The server's reading of a received packet.\<close>

definition packet_message :: "byte list \<Rightarrow> byte list" where
  "packet_message buf = get_bytes 16 1040 buf"

definition packet_seq :: "byte list \<Rightarrow> int" where
  "packet_seq buf = int_of_bytes (get_bytes 4 4 (packet_message buf))"

definition packet_time :: "byte list \<Rightarrow> timeval" where
  "packet_time buf = timeval_of_bytes (get_bytes 40 16 buf)"

definition packet_ok :: "byte list \<Rightarrow> bool" where
  "packet_ok buf =
    (let message = packet_message buf;
         original = le_word (get_bytes 16 2 message);
         message = zero_bytes 16 2 message;
         remainder = crcFast crcInit message
     in remainder = original)"

definition packet_body :: "byte list \<Rightarrow> nat \<Rightarrow> byte list" where
  "packet_body buf len = get_bytes header_size (len - header_size) buf"

text \<open>The server's acknowledgement. Its check field is not zeroed before the checksum.\<close>

definition fill_ack :: "byte list \<Rightarrow> int \<Rightarrow> timeval \<Rightarrow> byte list" where
  "fill_ack ack seqNum time_stamp =
    (let ack = put_bytes 24 (int_bytes seqNum) ack;
         ack = put_bytes 40 (timeval_bytes time_stamp) ack;
         ackcheck = get_bytes 16 40 ack;
         checksum = crcFast crcInit ackcheck
     in put_bytes 32 (le_bytes 2 checksum) ack)"

definition clear_ack :: "byte list \<Rightarrow> byte list" where
  "clear_ack ack = zero_bytes 40 16 (zero_bytes 16 20 ack)"

text \<open>The client's reading of a received acknowledgement.\<close>

definition ack_ok :: "byte list \<Rightarrow> bool" where
  "ack_ok ackbuf =
    (let original = le_word (get_bytes 32 2 ackbuf);
         ackbuf = zero_bytes 32 2 ackbuf;
         ackcheck = get_bytes 16 40 ackbuf;
         remainder = crcFast crcInit ackcheck
     in original = remainder)"

definition ack_number :: "byte list \<Rightarrow> int" where
  "ack_number ackbuf = int_of_bytes (get_bytes 24 4 (zero_bytes 32 2 ackbuf))"

definition ack_time :: "byte list \<Rightarrow> timeval" where
  "ack_time ackbuf = timeval_of_bytes (get_bytes 40 16 (zero_bytes 32 2 ackbuf))"

section \<open>Checksummed frames\<close>

text \<open>
  What the protocol needs of a checksum, as an interface: a frame carries the checksum of
  its bytes, taken with the check field zeroed, in the check field at \<open>off\<close>.
\<close>

definition seal :: "(byte list \<Rightarrow> u16) \<Rightarrow> nat \<Rightarrow> byte list \<Rightarrow> byte list" where
  "seal crc off frame = put_bytes off (le_bytes 2 (crc frame)) frame"

definition intact :: "(byte list \<Rightarrow> u16) \<Rightarrow> nat \<Rightarrow> byte list \<Rightarrow> bool" where
  "intact crc off frame \<longleftrightarrow> crc (zero_bytes off 2 frame) = le_word (get_bytes off 2 frame)"

locale checksum =
  fixes crc :: "byte list \<Rightarrow> u16"
  assumes burst: "burst16 m1 m2 \<Longrightarrow> crc m1 \<noteq> crc m2"
begin

lemma seal_intact:
  assumes "off + 2 \<le> length frame" and "get_bytes off 2 frame = [0, 0]"
  shows "intact crc off (seal crc off frame)"
proof -
  have "put_bytes off [0, 0] frame = frame"
    using put_get_same [OF assms(1)] assms(2) by simp
  then have "zero_bytes off 2 (seal crc off frame) = frame"
    using assms(1) by (simp add: seal_def zero_bytes_def numeral_2_eq_2 put_put_same)
  moreover have "get_bytes off 2 (seal crc off frame) = le_bytes 2 (crc frame)"
    using assms(1) by (simp add: seal_def get_put_same)
  ultimately show ?thesis
    by (simp add: intact_def)
qed

lemma damaged_frame:
  assumes "intact crc off frame" and "get_bytes off 2 frame' = get_bytes off 2 frame"
    and "burst16 (zero_bytes off 2 frame) (zero_bytes off 2 frame')"
  shows "\<not> intact crc off frame'"
  using assms burst unfolding intact_def by metis

lemma damaged_check:
  assumes "intact crc off frame" and "zero_bytes off 2 frame' = zero_bytes off 2 frame"
    and "(le_word (get_bytes off 2 frame') :: u16) \<noteq> le_word (get_bytes off 2 frame)"
  shows "\<not> intact crc off frame'"
  using assms unfolding intact_def by metis

end

interpretation crc16: checksum "crcFast crcInit"
  by unfold_locales (rule crc_burst)

section \<open>Reading back what was written\<close>

definition is_long :: "int \<Rightarrow> bool" where
  "is_long x \<longleftrightarrow> - (2 ^ 63) \<le> x \<and> x < 2 ^ 63"

definition timeval_fits :: "timeval \<Rightarrow> bool" where
  "timeval_fits t \<longleftrightarrow> is_long (tv_sec t) \<and> is_long (tv_usec t)"

lemma length_timeval_bytes [simp]: "length (timeval_bytes t) = 16"
  by (simp add: timeval_bytes_def)

lemma le_word_le_bytes_u64 [simp]: "le_word (le_bytes 8 w) = (w :: 64 word)"
  by (simp add: le_word_le_bytes take_bit_word_eq_self)

lemma timeval_of_bytes_timeval_bytes:
  assumes "timeval_fits t"
  shows "timeval_of_bytes (timeval_bytes t) = t"
proof -
  have "sint (word_of_int x :: 64 word) = x" if "is_long x" for x
    using that by (simp add: is_long_def sint_sbintrunc' signed_take_bit_int_eq_self)
  with assms show ?thesis
    by (simp add: timeval_of_bytes_def timeval_bytes_def get_bytes_def timeval_fits_def)
qed

text \<open>A packet buffer ready to be filled: the check field is zero.\<close>

definition packet_ready :: "byte list \<Rightarrow> bool" where
  "packet_ready packet \<longleftrightarrow> length packet = packet_size \<and> get_bytes 32 2 packet = [0, 0]"

definition ack_ready :: "byte list \<Rightarrow> bool" where
  "ack_ready ack \<longleftrightarrow> length ack = header_size \<and> get_bytes 32 2 ack = [0, 0]"

lemma length_fill_packet [simp]:
  "length packet = packet_size \<Longrightarrow> length body = BUFFSIZE \<Longrightarrow>
    length (fill_packet packet seq body now) = packet_size"
  by (simp add: fill_packet_def Let_def mem_simps)

lemma length_fill_ack [simp]:
  "length ack = header_size \<Longrightarrow> length (fill_ack ack seqNum time) = header_size"
  by (simp add: fill_ack_def Let_def mem_simps)

lemma zero_range_cleared:
  "off \<le> a \<Longrightarrow> a + n \<le> off + m \<Longrightarrow> off + m \<le> length mem \<Longrightarrow>
    get_bytes a n (zero_bytes off m mem) = replicate n 0"
  unfolding zero_bytes_def
  by (intro nth_equalityI) (auto simp: get_bytes_def length_put_bytes nth_put_bytes)

lemma packet_ready_clear: "length packet = packet_size \<Longrightarrow> packet_ready (clear_packet packet)"
  by (simp add: packet_ready_def clear_packet_def mem_simps)
    (simp add: zero_bytes_def mem_simps get_bytes_def put_bytes_def numeral_2_eq_2)

lemma ack_ready_clear: "length ack = header_size \<Longrightarrow> ack_ready (clear_ack ack)"
  by (simp add: ack_ready_def clear_ack_def mem_simps)
    (simp add: zero_bytes_def mem_simps get_bytes_def put_bytes_def numeral_2_eq_2)

text \<open>The message of a filled packet is the sealed message of the buffer before the checksum.\<close>

lemma packet_message_fill:
  assumes p: "packet_ready packet" and b: "length body = BUFFSIZE"
  shows "\<exists>frame. packet_message (fill_packet packet seq body now) = seal (crcFast crcInit) 16 frame \<and>
    length frame = 1040 \<and> get_bytes 16 2 frame = [0, 0] \<and> get_bytes 4 4 frame = int_bytes seq"
proof -
  define full where "full =
    put_bytes 40 (timeval_bytes now) (put_bytes 56 body (put_bytes 20 (int_bytes seq) packet))"
  have len: "length full = packet_size"
    using p b by (simp add: full_def packet_ready_def mem_simps)
  have "packet_message (fill_packet packet seq body now) =
      seal (crcFast crcInit) 16 (get_bytes 16 1040 full)"
    using len by (simp add: packet_message_def fill_packet_def Let_def full_def [symmetric] seal_def mem_simps)
  moreover have "length (get_bytes 16 1040 full) = 1040"
    using len by (simp add: mem_simps)
  moreover have "get_bytes 16 2 (get_bytes 16 1040 full) = [0, 0]"
    using p b by (simp add: full_def packet_ready_def mem_simps)
  moreover have "get_bytes 4 4 (get_bytes 16 1040 full) = int_bytes seq"
    using p b by (simp add: full_def packet_ready_def mem_simps)
  ultimately show ?thesis by blast
qed

lemma packet_ok_intact: "packet_ok buf \<longleftrightarrow> intact (crcFast crcInit) 16 (packet_message buf)"
  by (simp add: packet_ok_def intact_def Let_def)

lemma packet_ok_fill:
  assumes "packet_ready packet" and "length body = BUFFSIZE"
  shows "packet_ok (fill_packet packet seq body now)"
proof -
  obtain frame where "packet_message (fill_packet packet seq body now) = seal (crcFast crcInit) 16 frame"
    and "length frame = 1040" and "get_bytes 16 2 frame = [0, 0]"
    using packet_message_fill [OF assms] by blast
  then show ?thesis
    by (simp add: packet_ok_intact crc16.seal_intact)
qed

lemma packet_seq_fill:
  assumes "packet_ready packet" and "length body = BUFFSIZE" and "is_int32 seq"
  shows "packet_seq (fill_packet packet seq body now) = seq"
proof -
  obtain frame where m: "packet_message (fill_packet packet seq body now) = seal (crcFast crcInit) 16 frame"
    and "length frame = 1040" and "get_bytes 4 4 frame = int_bytes seq"
    using packet_message_fill [OF assms(1,2)] by blast
  then show ?thesis
    using assms(3) by (simp add: packet_seq_def m seal_def mem_simps int_of_bytes_int_bytes)
qed

lemma packet_body_fill:
  assumes "length packet = packet_size" and "length body = BUFFSIZE"
  shows "packet_body (fill_packet packet seq body now) packet_size = body"
  using assms by (simp add: packet_body_def fill_packet_def Let_def mem_simps)

lemma packet_time_fill:
  assumes "length packet = packet_size" and "length body = BUFFSIZE" and "timeval_fits now"
  shows "packet_time (fill_packet packet seq body now) = now"
  using assms
  by (simp add: packet_time_def fill_packet_def Let_def mem_simps timeval_of_bytes_timeval_bytes)

lemma ack_ok_intact:
  assumes "length ackbuf = header_size"
  shows "ack_ok ackbuf \<longleftrightarrow> intact (crcFast crcInit) 16 (get_bytes 16 40 ackbuf)"
  using assms by (auto simp: ack_ok_def intact_def Let_def zero_bytes_def mem_simps)

lemma zero_get_bytes: "off + 2 \<le> length m \<Longrightarrow> zero_bytes off 2 m = m \<longleftrightarrow> get_bytes off 2 m = [0, 0]"
  unfolding zero_bytes_def using get_put_same [of off "[0, 0]" m] put_get_same [of off 2 m]
  by (auto simp: numeral_2_eq_2)

text \<open>Two bytes of a message that are not zero change its checksum.\<close>

lemma check_field_counts:
  assumes "off + 2 \<le> length m" and "get_bytes off 2 m \<noteq> [0, 0]"
  shows "crcFast crcInit m \<noteq> crcFast crcInit (zero_bytes off 2 m)"
proof -
  have "length (get_bytes off 2 m) = 2"
    using assms(1) by (simp add: mem_simps)
  then obtain c d where cd: "get_bytes off 2 m = [c, d]"
    by (auto simp: numeral_2_eq_2 length_Suc_conv)
  have put: "put_bytes off bs m = take off m @ bs @ drop (off + 2) m" if "length bs = 2" for bs
    using that by (simp add: put_bytes_def)
  have "m = take off m @ [c, d] @ drop (off + 2) m"
    using put_get_same [OF assms(1)] cd put [of "[c, d]"] by simp
  moreover have "zero_bytes off 2 m = take off m @ [0, 0] @ drop (off + 2) m"
    by (simp add: zero_bytes_def put numeral_2_eq_2)
  moreover have "(c, d) \<noteq> (0, 0)"
    using assms(2) cd by simp
  ultimately show ?thesis
    using crc16.burst [OF burst16_two_bytes] by metis
qed

text \<open>
  The check field is not cleared before the checksum is taken. The acknowledgement is
  accepted exactly when the field was zero; number and time stamp are read in any case.
\<close>

lemma ack_fill_number:
  assumes "length a = header_size"
  shows "is_int32 seqNum \<Longrightarrow> ack_number (fill_ack a seqNum time) = seqNum"
    and "timeval_fits time \<Longrightarrow> ack_time (fill_ack a seqNum time) = time"
  using assms
  by (simp_all add: ack_number_def ack_time_def fill_ack_def Let_def zero_bytes_def mem_simps
      int_of_bytes_int_bytes timeval_of_bytes_timeval_bytes)

lemma ack_fill_ok:
  assumes "length a = header_size"
  shows "ack_ok (fill_ack a seqNum time) \<longleftrightarrow> get_bytes 32 2 a = [0, 0]"
proof -
  define full where "full = put_bytes 40 (timeval_bytes time) (put_bytes 24 (int_bytes seqNum) a)"
  define frame where "frame = get_bytes 16 40 full"
  have len: "length full = header_size"
    using assms by (simp add: full_def mem_simps)
  then have length_frame: "length frame = 40"
    by (simp add: frame_def mem_simps)
  have check: "get_bytes 16 2 frame = get_bytes 32 2 a"
    using assms by (simp add: frame_def full_def mem_simps)
  have "fill_ack a seqNum time = put_bytes 32 (le_bytes 2 (crcFast crcInit frame)) full"
    by (simp add: fill_ack_def Let_def full_def frame_def)
  then have "get_bytes 16 40 (fill_ack a seqNum time) = seal (crcFast crcInit) 16 frame"
    using len by (simp add: seal_def frame_def mem_simps)
  then have "ack_ok (fill_ack a seqNum time) \<longleftrightarrow> intact (crcFast crcInit) 16 (seal (crcFast crcInit) 16 frame)"
    using assms by (simp add: ack_ok_intact)
  also have "\<dots> \<longleftrightarrow> crcFast crcInit (zero_bytes 16 2 frame) = crcFast crcInit frame"
    using length_frame by (simp add: intact_def seal_def zero_bytes_def mem_simps)
  also have "\<dots> \<longleftrightarrow> get_bytes 16 2 frame = [0, 0]"
    using check_field_counts [of 16 frame] zero_get_bytes [of 16 frame] length_frame by auto
  finally show ?thesis
    by (simp only: check)
qed

lemma ack_fill:
  assumes "ack_ready a"
  shows "ack_ok (fill_ack a seqNum time)"
    and "is_int32 seqNum \<Longrightarrow> ack_number (fill_ack a seqNum time) = seqNum"
    and "timeval_fits time \<Longrightarrow> ack_time (fill_ack a seqNum time) = time"
  using assms by (simp_all add: ack_ready_def ack_fill_ok ack_fill_number)

section \<open>Properties\<close>

text \<open>
  C14: What the client puts into a packet the server reads back: the checksum is accepted,
  and sequence number, body and time stamp are the ones that were written, whatever the
  rest of the packet buffer held.
\<close>

theorem packet_roundtrip:
  assumes "packet_ready packet" and "length body = BUFFSIZE" and "is_int32 seq"
    and "timeval_fits now"
  shows "packet_ok (fill_packet packet seq body now) \<and>
    packet_seq (fill_packet packet seq body now) = seq \<and>
    packet_body (fill_packet packet seq body now) packet_size = body \<and>
    packet_time (fill_packet packet seq body now) = now"
  using assms packet_ok_fill packet_seq_fill packet_body_fill packet_time_fill
  by (simp add: packet_ready_def)

theorem packet_roundtrip_witness:
  "packet_ok (fill_packet (replicate packet_size 0) 63 (replicate BUFFSIZE 7) \<lparr>tv_sec = 12, tv_usec = 34\<rparr>) \<and>
    packet_seq (fill_packet (replicate packet_size 0) 63 (replicate BUFFSIZE 7) \<lparr>tv_sec = 12, tv_usec = 34\<rparr>) = 63 \<and>
    packet_body (fill_packet (replicate packet_size 0) 63 (replicate BUFFSIZE 7) \<lparr>tv_sec = 12, tv_usec = 34\<rparr>)
      packet_size = replicate BUFFSIZE 7 \<and>
    packet_time (fill_packet (replicate packet_size 0) 63 (replicate BUFFSIZE 7) \<lparr>tv_sec = 12, tv_usec = 34\<rparr>) =
      \<lparr>tv_sec = 12, tv_usec = 34\<rparr>"
  by (rule packet_roundtrip)
    (simp_all add: packet_ready_def get_bytes_def numeral_2_eq_2 is_int32_def timeval_fits_def is_long_def)

text \<open>
  C26: What the server puts into an acknowledgement the client reads back: number and time
  stamp are the ones that were written, whatever the buffer held, and the checksum is
  accepted if and only if the check field of the buffer was zero. The server clears the
  field after every acknowledgement, but not before the first one, whose \<open>struct\<close> is
  uninitialised.
\<close>

theorem ack_roundtrip:
  assumes "length a = header_size" and "is_int32 seqNum" and "timeval_fits time"
  shows "(ack_ok (fill_ack a seqNum time) \<longleftrightarrow> get_bytes 32 2 a = [0, 0]) \<and>
    ack_number (fill_ack a seqNum time) = seqNum \<and> ack_time (fill_ack a seqNum time) = time \<and>
    get_bytes 32 2 (clear_ack (fill_ack a seqNum time)) = [0, 0]"
  using assms ack_ready_clear [of "fill_ack a seqNum time"]
  by (simp add: ack_fill_ok ack_fill_number ack_ready_def)

theorem ack_roundtrip_witness:
  "ack_ok (fill_ack (replicate header_size 0) 5 \<lparr>tv_sec = 1, tv_usec = 2\<rparr>) \<and>
    \<not> ack_ok (fill_ack (replicate header_size 1) 5 \<lparr>tv_sec = 1, tv_usec = 2\<rparr>) \<and>
    ack_number (fill_ack (replicate header_size 1) 5 \<lparr>tv_sec = 1, tv_usec = 2\<rparr>) = 5"
  using ack_roundtrip [of "replicate header_size 0" 5 "\<lparr>tv_sec = 1, tv_usec = 2\<rparr>"]
    ack_roundtrip [of "replicate header_size 1" 5 "\<lparr>tv_sec = 1, tv_usec = 2\<rparr>"]
  by (simp add: get_bytes_def numeral_2_eq_2 is_int32_def timeval_fits_def is_long_def)

text \<open>
  C27: A packet damaged on its way is rejected by the server's test if all changed bits lie in
  a burst of at most 16 bits of what the checksum covers, behind the address and outside the
  check field, or if they lie in the check field alone. The address is not covered by the
  checksum, and nothing is claimed of a burst that reaches into the check field from outside.
\<close>

theorem damaged_packet_rejected:
  assumes "packet_ok pkt"
    and "if get_bytes 16 2 (packet_message pkt') = get_bytes 16 2 (packet_message pkt)
      then burst16 (zero_bytes 16 2 (packet_message pkt)) (zero_bytes 16 2 (packet_message pkt'))
      else zero_bytes 16 2 (packet_message pkt') = zero_bytes 16 2 (packet_message pkt) \<and>
        le_word (get_bytes 16 2 (packet_message pkt')) \<noteq> (le_word (get_bytes 16 2 (packet_message pkt)) :: u16)"
  shows "\<not> packet_ok pkt'"
proof (cases "get_bytes 16 2 (packet_message pkt') = get_bytes 16 2 (packet_message pkt)")
  case True
  with assms(2) have "burst16 (zero_bytes 16 2 (packet_message pkt)) (zero_bytes 16 2 (packet_message pkt'))"
    by (simp only: if_True)
  with assms(1) True show ?thesis
    unfolding packet_ok_intact by (rule crc16.damaged_frame)
next
  case False
  with assms(2) have "zero_bytes 16 2 (packet_message pkt') = zero_bytes 16 2 (packet_message pkt)"
    "le_word (get_bytes 16 2 (packet_message pkt')) \<noteq> (le_word (get_bytes 16 2 (packet_message pkt)) :: u16)"
    by (simp_all only: if_False not_False_eq_True simp_thms)
  with assms(1) show ?thesis
    unfolding packet_ok_intact by (rule crc16.damaged_check)
qed

theorem damaged_packet_rejected_witness:
  "packet_ok (replicate packet_size 0) \<and> \<not> packet_ok ((replicate packet_size 0)[32 := 1])"
proof -
  define z where "z = (replicate packet_size 0 :: byte list)"
  have m: "packet_message z = replicate 1040 0"
    by (simp add: packet_message_def z_def get_bytes_def)
  have m': "packet_message (z[32 := 1]) = (replicate 1040 0)[16 := 1]"
    unfolding packet_message_def z_def
    by (intro nth_equalityI) (auto simp: get_bytes_def nth_list_update)
  have zm: "zero_bytes 16 2 (replicate 1040 0) = (replicate 1040 0 :: byte list)"
    by (intro nth_equalityI) (auto simp: zero_bytes_def length_put_bytes nth_put_bytes)
  have zm': "zero_bytes 16 2 ((replicate 1040 0)[16 := 1]) = (replicate 1040 0 :: byte list)"
    by (intro nth_equalityI)
      (auto simp: zero_bytes_def length_put_bytes nth_put_bytes nth_list_update)
  have g: "get_bytes 16 2 (replicate 1040 0) = ([0, 0] :: byte list)"
    by (simp add: get_bytes_def numeral_2_eq_2)
  have g': "get_bytes 16 2 ((replicate 1040 0)[16 := 1]) = ([1, 0] :: byte list)"
    by (intro nth_equalityI) (auto simp: get_bytes_def nth_list_update nth_Cons less_2_cases_iff split: nat.split)
  have step: "crcFast crcInit (replicate n 0) = 0" for n
  proof -
    have "crc_byte 0 0 = 0"
      unfolding crc_byte_def using crc_bits_low [of 8 0] by simp
    then show ?thesis
      unfolding crcFast_crc_byte by (induction n) simp_all
  qed
  have ok: "packet_ok z"
    by (simp add: packet_ok_def m zm g step)
  moreover have "\<not> packet_ok (z[32 := 1])"
    using ok by (rule damaged_packet_rejected) (simp add: m m' g g' zm zm')
  ultimately show ?thesis
    by (simp add: z_def)
qed

end
