(* ===== verification/Receiver.thy ===== *)
theory Receiver
  imports Wire
begin

text \<open>
  The receiving side of \<open>project1/tcpd.c\<close>: \<open>checkEmpty\<close> and \<open>server\<close>. The buffer
  \<open>recvbuf\<close> holds 64 blocks of 1000 bytes; \<open>lfr\<close> is the last frame received in order,
  \<open>laf\<close> the largest acceptable frame, both cyclic indices. A block of zero bytes is an
  empty slot. One iteration of the server's loop is \<open>server_step\<close>. The abstract receiver
  of the second half keeps the expected number and the 20 slots of the window, and the
  code is proved to simulate it outside the one state in which it stalls.
\<close>

section \<open>The code\<close>

abbreviation SEND_RECV_BUF_SIZE :: int where "SEND_RECV_BUF_SIZE \<equiv> 64"
abbreviation WINDOW :: int where "WINDOW \<equiv> 20"

fun checkEmpty :: "byte list \<Rightarrow> bool" where
  "checkEmpty [] = True"
| "checkEmpty (b # buffer) = (if b AND 0xff \<noteq> 0 then False else checkEmpty buffer)"

definition zero_block :: "byte list" where
  "zero_block = replicate BUFFSIZE 0"

text \<open>\<open>bzero\<close> over the blocks from \<open>lo\<close> up to but not including \<open>hi\<close>\<close>

definition zero_blocks :: "byte list list \<Rightarrow> int \<Rightarrow> int \<Rightarrow> fault + byte list list" where
  "zero_blocks bs lo hi =
    (if 0 \<le> lo \<and> lo \<le> hi \<and> hi \<le> int (length bs)
     then Inr (put_bytes (nat lo) (replicate (nat (hi - lo)) zero_block) bs)
     else Inl OutOfBounds)"

datatype datagram =
    To_ftps "byte list"     \<comment> \<open>a block for the application\<close>
  | To_troll "byte list"    \<comment> \<open>an acknowledgement, to be forwarded to the sender\<close>

record server_state =
  recvbuf :: "byte list list"
  lfr :: int
  laf :: int
  ack :: "byte list"

text \<open>
  The argument \<open>sent\<close> says which calls of \<open>sendto\<close> succeed; on a failing one the server
  exits. The delivery loops send the blocks from \<open>i\<close> on up to the first empty one, at most
  up to \<open>hi\<close>; \<open>n\<close> is \<open>length - header_size\<close> of the packet being processed.
\<close>

function deliver ::
  "(datagram \<Rightarrow> bool) \<Rightarrow> nat \<Rightarrow> byte list list \<Rightarrow> int \<Rightarrow> int \<Rightarrow> fault + (int \<times> datagram list)"
where
  "deliver sent n bs i hi =
    (if i \<le> hi then
       bindE (read_block bs i) (\<lambda>b.
         if checkEmpty b then Inr (i, [])
         else if sent (To_ftps (take n b)) then
           bindE (deliver sent n bs (i + 1) hi) (\<lambda>(j, out). Inr (j, To_ftps (take n b) # out))
         else Inl (Exit 1))
     else Inr (i, []))"
  by pat_completeness auto
termination
  by (relation "measure (\<lambda>(sent, n, bs, i, hi). nat (hi + 1 - i))") auto

declare deliver.simps [simp del]

text \<open>The window does not wrap: \<open>laf > lfr\<close>.\<close>

definition advance_straight ::
  "(datagram \<Rightarrow> bool) \<Rightarrow> nat \<Rightarrow> server_state \<Rightarrow> fault + (server_state \<times> datagram list)"
where
  "advance_straight sent n s =
    bindE (deliver sent n (recvbuf s) (lfr s + 1) (laf s)) (\<lambda>(i, out).
      if i \<noteq> lfr s + 1 then
        bindE (zero_blocks (recvbuf s) (lfr s + 1) i) (\<lambda>bs.
          let lfr' = i - 1;
              lfr' = (if lfr' > 63 then -1 else lfr');
              laf' = lfr' + WINDOW;
              laf' = (if laf' > 63 then laf' - 64 else laf')
          in Inr (s\<lparr>recvbuf := bs, lfr := lfr', laf := laf'\<rparr>, out))
      else Inr (s, out))"

text \<open>The window wraps: \<open>laf < lfr\<close>.\<close>

definition advance_wrapped ::
  "(datagram \<Rightarrow> bool) \<Rightarrow> nat \<Rightarrow> server_state \<Rightarrow> fault + (server_state \<times> datagram list)"
where
  "advance_wrapped sent n s =
    bindE (deliver sent n (recvbuf s) (lfr s + 1) (SEND_RECV_BUF_SIZE - 1)) (\<lambda>(i, out).
      if i \<noteq> lfr s + 1 then
        bindE (zero_blocks (recvbuf s) (lfr s + 1) i) (\<lambda>bs.
          if i < SEND_RECV_BUF_SIZE then
            Inr (s\<lparr>recvbuf := bs, lfr := i - 1, laf := laf s + (i - lfr s - 1)\<rparr>, out)
          else
            bindE (deliver sent n bs 0 (laf s)) (\<lambda>(i, out').
              bindE (if i \<noteq> 0 then zero_blocks bs 0 i else Inr bs) (\<lambda>bs.
                let lfr' = (if i \<noteq> 0 then i - 1 else -1)
                in Inr (s\<lparr>recvbuf := bs, lfr := lfr', laf := lfr' + WINDOW\<rparr>, out @ out'))))
      else Inr (s, out))"

definition in_window :: "int \<Rightarrow> int \<Rightarrow> int \<Rightarrow> bool" where
  "in_window received acceptable seqNum \<longleftrightarrow>
    (acceptable \<ge> received \<and> seqNum > received \<and> seqNum \<le> acceptable) \<or>
    (acceptable < received \<and> (seqNum > received \<or> seqNum \<le> acceptable))"

text \<open>A packet with a correct checksum: store it if it is new and in the window, then deliver.\<close>

definition accept_packet ::
  "(datagram \<Rightarrow> bool) \<Rightarrow> server_state \<Rightarrow> int \<Rightarrow> byte list \<Rightarrow> nat \<Rightarrow> fault + (server_state \<times> datagram list)"
where
  "accept_packet sent s seqNum buf len =
    (if in_window (lfr s) (laf s) seqNum then
       bindE (read_block (recvbuf s) seqNum) (\<lambda>temp.
         if checkEmpty temp then
           if len < header_size then Inl OutOfBounds
           else
             bindE (write_block (recvbuf s) seqNum (put_bytes 0 (packet_body buf len) temp)) (\<lambda>bs.
               let s = s\<lparr>recvbuf := bs\<rparr> in
               if laf s > lfr s then advance_straight sent (len - header_size) s
               else if laf s < lfr s then advance_wrapped sent (len - header_size) s
               else Inr (s, []))
         else Inr (s, []))
     else Inr (s, []))"

text \<open>
  One iteration of the server's loop. \<open>None\<close> is a failing \<open>recvfrom\<close>. The buffer is
  zeroed before every reception, and a longer datagram is truncated to its size.
\<close>

definition server_step ::
  "(datagram \<Rightarrow> bool) \<Rightarrow> server_state \<Rightarrow> byte list option \<Rightarrow> fault + (server_state \<times> datagram list)"
where
  "server_step sent s received =
    (case received of
       None \<Rightarrow> Inl (Exit 1)
     | Some d \<Rightarrow>
         let len = min (length d) packet_size;
             buf = put_bytes 0 (take packet_size d) (replicate packet_size 0)
         in if packet_ok buf then
              bindE (accept_packet sent s (packet_seq buf) buf len) (\<lambda>(s, out).
                let a = fill_ack (ack s) (packet_seq buf) (packet_time buf)
                in if sent (To_troll a) then Inr (s\<lparr>ack := clear_ack a\<rparr>, out @ [To_troll a])
                   else Inl (Exit 1))
            else Inr (s\<lparr>ack := clear_ack (ack s)\<rparr>, []))"

text \<open>The state before the loop; \<open>a\<close> is the content of the uninitialised \<open>ack\<close>.\<close>

definition server_init :: "byte list \<Rightarrow> server_state" where
  "server_init a = \<lparr>recvbuf = replicate 64 zero_block, lfr = -1, laf = -1 + WINDOW, ack = a\<rparr>"

fun server_run ::
  "(datagram \<Rightarrow> bool) \<Rightarrow> server_state \<Rightarrow> byte list option list \<Rightarrow> fault + (server_state \<times> datagram list)"
where
  "server_run sent s [] = Inr (s, [])"
| "server_run sent s (r # rs) =
    bindE (server_step sent s r) (\<lambda>(s, out).
      bindE (server_run sent s rs) (\<lambda>(s, out'). Inr (s, out @ out')))"

section \<open>Slots and the delivery loop\<close>

lemma and_255: "(b :: byte) AND 0xff = b"
proof -
  have "take_bit 8 b = b"
    by (rule take_bit_word_eq_self) simp
  moreover have "mask 8 = (0xff :: byte)"
    by (simp add: mask_eq_exp_minus_1)
  ultimately show ?thesis
    by (simp add: take_bit_eq_mask)
qed

lemma checkEmpty_iff: "checkEmpty bs \<longleftrightarrow> bs = replicate (length bs) 0"
  by (induction bs) (simp_all add: and_255)

lemma checkEmpty_block: "length b = BUFFSIZE \<Longrightarrow> checkEmpty b \<longleftrightarrow> b = zero_block"
  by (simp add: checkEmpty_iff zero_block_def)

lemma checkEmpty_zero_block [simp]: "checkEmpty zero_block"
  by (simp add: checkEmpty_block zero_block_def)

lemma length_zero_block [simp]: "length zero_block = BUFFSIZE"
  by (simp add: zero_block_def)

abbreviation filled :: "byte list \<Rightarrow> bool" where "filled b \<equiv> \<not> checkEmpty b"

text \<open>
  A stream assigns a block to every frame number; no block consists of zero bytes only.
\<close>

definition is_stream :: "(nat \<Rightarrow> byte list) \<Rightarrow> bool" where
  "is_stream blk \<longleftrightarrow> (\<forall>j. length (blk j) = BUFFSIZE \<and> filled (blk j))"

lemma get_bytes_Suc: "i < length bs \<Longrightarrow> get_bytes i (Suc m) bs = bs ! i # get_bytes (Suc i) m bs"
  unfolding get_bytes_def by (subst Cons_nth_drop_Suc [symmetric]) auto

abbreviation all_sent :: "datagram \<Rightarrow> bool" where "all_sent \<equiv> \<lambda>_. True"

lemma deliver_run:
  assumes "0 \<le> i" and "hi < int (length bs)"
  shows "deliver all_sent n bs i hi =
    (let run = takeWhile filled (get_bytes (nat i) (nat (hi + 1 - i)) bs)
     in Inr (i + int (length run), map (\<lambda>b. To_ftps (take n b)) run))"
  using assms
proof (induction all_sent n bs i hi rule: deliver.induct)
  case (1 n bs i hi)
  show ?case
  proof (cases "i \<le> hi")
    case False
    then show ?thesis
      by (simp add: deliver.simps get_bytes_def)
  next
    case True
    then have i: "nat i < length bs" "nat (hi + 1 - i) = Suc (nat (hi + 1 - (i + 1)))"
        "nat (i + 1) = Suc (nat i)"
      using "1.prems" by auto
    have rd: "read_block bs i = Inr (bs ! nat i)"
      using "1.prems" \<open>i \<le> hi\<close> by simp
    show ?thesis
    proof (cases "checkEmpty (bs ! nat i)")
      case True
      then show ?thesis
        using \<open>i \<le> hi\<close> rd i
        by (simp add: deliver.simps [of all_sent n bs i hi] get_bytes_Suc)
    next
      case False
      from "1.hyps" [OF \<open>i \<le> hi\<close>, of "bs ! nat i"] False "1.prems" show ?thesis
        using \<open>i \<le> hi\<close> rd i
        by (simp add: deliver.simps [of all_sent n bs i hi] get_bytes_Suc Let_def)
    qed
  qed
qed

section \<open>The abstract receiver\<close>

text \<open>
  The contract: \<open>expected\<close> is the number of the next frame in order (modulo 64), \<open>slots\<close>
  the 20 slots from that frame on. A new frame inside the window is stored, and the filled
  slots at the front of the window are handed to the application in order.
\<close>

record receiver_spec =
  expected :: int
  slots :: "byte list list"

definition spec_accept ::
  "receiver_spec \<Rightarrow> int \<Rightarrow> byte list \<Rightarrow> nat \<Rightarrow> receiver_spec \<times> datagram list"
where
  "spec_accept r seqNum b n =
    (let off = (seqNum - expected r) mod 64 in
     if off < 20 \<and> checkEmpty (slots r ! nat off) then
       let w = (slots r)[nat off := b];
           run = takeWhile filled w;
           m = length run
       in (\<lparr>expected = (expected r + int m) mod 64, slots = drop m w @ replicate m zero_block\<rparr>,
           map (\<lambda>b. To_ftps (take n b)) run)
     else (r, []))"

definition window :: "byte list list \<Rightarrow> int \<Rightarrow> byte list list" where
  "window bs e = map (\<lambda>k. bs ! nat ((e + int k) mod 64)) [0..<20]"

definition abs_recv :: "server_state \<Rightarrow> receiver_spec" where
  "abs_recv s = \<lparr>expected = (lfr s + 1) mod 64, slots = window (recvbuf s) (lfr s + 1)\<rparr>"

text \<open>Outside the window every slot is empty.\<close>

definition clean_outside :: "byte list list \<Rightarrow> int \<Rightarrow> bool" where
  "clean_outside bs e \<longleftrightarrow> (\<forall>k < 64. 20 \<le> (int k - e) mod 64 \<longrightarrow> bs ! k = zero_block)"

definition blocks_ok :: "byte list list \<Rightarrow> bool" where
  "blocks_ok bs \<longleftrightarrow> length bs = 64 \<and> (\<forall>b \<in> set bs. length b = BUFFSIZE)"

definition recv_inv :: "server_state \<Rightarrow> bool" where
  "recv_inv s \<longleftrightarrow> blocks_ok (recvbuf s) \<and> -1 \<le> lfr s \<and> lfr s \<le> 63 \<and>
    laf s = (if lfr s \<le> 43 then lfr s + 20 else lfr s - 44) \<and>
    clean_outside (recvbuf s) (lfr s + 1)"

lemma recv_inv_init: "recv_inv (server_init a)"
  by (auto simp: recv_inv_def server_init_def blocks_ok_def clean_outside_def)

section \<open>Windows as cyclic intervals\<close>

text \<open>The buffer with \<open>m\<close> slots from \<open>e\<close> on zeroed, cyclically.\<close>

definition clear_run :: "byte list list \<Rightarrow> int \<Rightarrow> nat \<Rightarrow> byte list list" where
  "clear_run bs e m = map (\<lambda>k. if (int k - e) mod 64 < int m then zero_block else bs ! k) [0..<64]"

lemma length_window [simp]: "length (window bs e) = 20"
  by (simp add: window_def)

lemma nth_window: "k < 20 \<Longrightarrow> window bs e ! k = bs ! nat ((e + int k) mod 64)"
  by (simp add: window_def)

lemma mod_64_cases:
  fixes x :: int
  assumes "- 64 \<le> x" and "x < 128"
  shows "x mod 64 = (if x < 0 then x + 64 else if x < 64 then x else x - 64)"
  using assms by presburger

lemma clear_run_straight:
  assumes "length bs = 64" and "0 \<le> e" and "e + int m \<le> 64"
  shows "put_bytes (nat e) (replicate m zero_block) bs = clear_run bs e m"
  using assms
  by (intro nth_equalityI)
    (auto simp: clear_run_def length_put_bytes nth_put_bytes mod_64_cases)

lemma clear_run_wrapped:
  assumes "length bs = 64" and "0 \<le> e" and "e < 64" and "int i \<le> e"
  shows "put_bytes 0 (replicate i zero_block) (put_bytes (nat e) (replicate (nat (64 - e)) zero_block) bs)
    = clear_run bs e (nat (64 - e) + i)"
  using assms
  by (intro nth_equalityI)
    (auto simp: clear_run_def length_put_bytes nth_put_bytes mod_64_cases)

lemma window_clear_run:
  assumes "clean_outside bs e" and "m \<le> 20"
  shows "window (clear_run bs e m) (e + int m) = drop m (window bs e) @ replicate m zero_block"
proof (rule nth_equalityI)
  show "length (window (clear_run bs e m) (e + int m)) =
      length (drop m (window bs e) @ replicate m zero_block)"
    using assms(2) by simp
  fix k
  assume "k < length (window (clear_run bs e m) (e + int m))"
  then have k: "k < 20" by simp
  define j where "j = nat ((e + int m + int k) mod 64)"
  have j: "j < 64"
    unfolding j_def by (simp add: nat_less_iff)
  have "(int j - e) mod 64 = (int m + int k) mod 64"
    by (simp add: j_def mod_diff_left_eq)
  then have off: "(int j - e) mod 64 = int m + int k"
    using k assms(2) by simp
  have "window (clear_run bs e m) (e + int m) ! k = (if int m + int k < int m then zero_block else bs ! j)"
    using k j off by (simp add: nth_window clear_run_def j_def [symmetric])
  also have "\<dots> = (drop m (window bs e) @ replicate m zero_block) ! k"
  proof (cases "m + k < 20")
    case True
    then have "k < 20 - m" by arith
    with True show ?thesis
      by (simp add: nth_append nth_window j_def add.assoc)
  next
    case False
    then have "bs ! j = zero_block"
      using assms(1) j off by (simp add: clean_outside_def)
    moreover have "\<not> k < 20 - m" "k - (20 - m) < m"
      using False k assms(2) by arith+
    ultimately show ?thesis
      using False by (simp add: nth_append)
  qed
  finally show "window (clear_run bs e m) (e + int m) ! k =
      (drop m (window bs e) @ replicate m zero_block) ! k" .
qed

lemma clean_outside_clear_run:
  assumes "clean_outside bs e" and "m \<le> 20"
  shows "clean_outside (clear_run bs e m) (e + int m)"
  unfolding clean_outside_def
proof (intro allI impI)
  fix k :: nat
  assume k: "k < 64" and far: "20 \<le> (int k - (e + int m)) mod 64"
  define d where "d = (int k - e) mod 64"
  have d: "0 \<le> d" "d < 64"
    by (simp_all add: d_def)
  have "(int k - (e + int m)) mod 64 = (d - int m) mod 64"
    by (simp add: d_def mod_diff_left_eq diff_diff_eq)
  with far d have "d < int m \<or> 20 \<le> d"
    using assms(2) by (simp add: mod_64_cases split: if_splits)
  then show "clear_run bs e m ! k = zero_block"
    using k assms(1) by (auto simp: clear_run_def d_def clean_outside_def)
qed

lemma clean_outside_mod [simp]: "clean_outside bs (e mod 64) = clean_outside bs e"
  by (simp add: clean_outside_def mod_diff_right_eq)

lemma window_mod [simp]: "window bs (e mod 64) = window bs e"
  by (simp add: window_def mod_add_left_eq)

lemma blocks_ok_clear_run: "blocks_ok bs \<Longrightarrow> blocks_ok (clear_run bs e m)"
  by (auto simp: blocks_ok_def clear_run_def)

lemma window_straight:
  assumes "length bs = 64" and "0 \<le> e" and "e \<le> 44"
  shows "get_bytes (nat e) 20 bs = window bs e"
  using assms by (intro nth_equalityI) (auto simp: get_bytes_def nth_window nat_add_distrib)

lemma window_wrapped:
  assumes "length bs = 64" and "44 < e" and "e < 64"
  shows "drop (nat e) bs @ take (nat (e - 44)) bs = window bs e"
proof (rule nth_equalityI)
  show "length (drop (nat e) bs @ take (nat (e - 44)) bs) = length (window bs e)"
    using assms by auto
  fix k
  assume "k < length (drop (nat e) bs @ take (nat (e - 44)) bs)"
  then have k: "k < 20"
    using assms by auto
  show "(drop (nat e) bs @ take (nat (e - 44)) bs) ! k = window bs e ! k"
  proof (cases "k < nat (64 - e)")
    case True
    then have "k < 64 - nat e"
      using assms(2,3) by (simp add: nat_diff_distrib)
    with assms k True show ?thesis
      by (simp add: nth_append nth_window nat_add_distrib mod_64_cases)
  next
    case False
    then have ge: "64 \<le> e + int k"
      by arith
    with assms k have "(e + int k) mod 64 = e + int k - 64"
      by (simp add: mod_64_cases)
    then have "nat ((e + int k) mod 64) = k - nat (64 - e)"
      using assms(3) ge by arith
    moreover have "length (drop (nat e) bs) = nat (64 - e)"
      using assms by auto
    moreover have "k - nat (64 - e) < nat (e - 44)"
      using k ge assms(2,3) by arith
    ultimately show ?thesis
      using False k assms(1) by (simp add: nth_append nth_window)
  qed
qed

section \<open>The code simulates the abstract receiver\<close>

definition run_of :: "server_state \<Rightarrow> byte list list" where
  "run_of s = takeWhile filled (window (recvbuf s) (lfr s + 1))"

definition acceptable :: "int \<Rightarrow> int" where
  "acceptable i = (if i \<le> 43 then i + 20 else i - 44)"

definition advanced :: "server_state \<Rightarrow> int \<Rightarrow> server_state" where
  "advanced s i = s\<lparr>recvbuf := clear_run (recvbuf s) (lfr s + 1) (length (run_of s)),
     lfr := i, laf := acceptable i\<rparr>"

lemma length_run_of: "length (run_of s) \<le> 20"
  using length_takeWhile_le [of filled "window (recvbuf s) (lfr s + 1)"] by (simp add: run_of_def)

lemma clear_run_0 [simp]: "length bs = 64 \<Longrightarrow> clear_run bs e 0 = bs"
  by (intro nth_equalityI) (auto simp: clear_run_def)

lemma recv_invD:
  assumes "recv_inv s"
  shows "length (recvbuf s) = 64" "-1 \<le> lfr s" "lfr s \<le> 63" "laf s = acceptable (lfr s)"
    "clean_outside (recvbuf s) (lfr s + 1)" "blocks_ok (recvbuf s)"
  using assms by (auto simp: recv_inv_def blocks_ok_def acceptable_def)

lemma advance_straight_run:
  assumes inv: "recv_inv s" and i: "lfr s \<le> 43"
  shows "advance_straight all_sent n s =
    Inr (advanced s (lfr s + int (length (run_of s))), map (\<lambda>b. To_ftps (take n b)) (run_of s))"
proof -
  note s = recv_invD [OF inv]
  define e m where "e = lfr s + 1" and "m = length (run_of s)"
  have e: "0 \<le> e" "e \<le> 44"
    using s i by (auto simp: e_def)
  have m: "m \<le> 20"
    using length_run_of by (simp add: m_def)
  have laf: "laf s = e + 19"
    using s(4) i by (simp add: acceptable_def e_def)
  have "deliver all_sent n (recvbuf s) e (laf s) =
      Inr (e + int m, map (\<lambda>b. To_ftps (take n b)) (run_of s))"
    using e s(1) by (simp add: deliver_run laf Let_def window_straight m_def run_of_def e_def)
  moreover have "m \<noteq> 0 \<Longrightarrow> zero_blocks (recvbuf s) e (e + int m) =
      Inr (clear_run (recvbuf s) e m)"
    using e m s(1) by (simp add: zero_blocks_def clear_run_straight)
  ultimately show ?thesis
    using e m s(1,4)
    by (cases "m = 0")
      (auto simp: advance_straight_def advanced_def Let_def acceptable_def e_def m_def [symmetric])
qed

lemma advance_wrapped_run:
  assumes inv: "recv_inv s" and i: "44 \<le> lfr s" "lfr s \<noteq> 63"
  shows "advance_wrapped all_sent n s =
    Inr (advanced s ((lfr s + 1 + int (length (run_of s))) mod 64 - 1),
      map (\<lambda>b. To_ftps (take n b)) (run_of s))"
proof -
  note s = recv_invD [OF inv]
  define bs e where "bs = recvbuf s" and "e = lfr s + 1"
  have e: "44 < e" "e < 64"
    using s i by (auto simp: e_def)
  have laf: "laf s = e - 45"
    using s(4) i by (simp add: acceptable_def e_def)
  have len: "length bs = 64"
    using s(1) by (simp add: bs_def)
  define xs ys where "xs = drop (nat e) bs" and "ys = take (nat (e - 44)) bs"
  have win: "window bs e = xs @ ys"
    using window_wrapped [OF len e] by (simp add: xs_def ys_def)
  have lxs: "length xs = nat (64 - e)"
    using e len by (simp add: xs_def nat_diff_distrib)
  have d1: "deliver all_sent n bs e 63 =
      (let run = takeWhile filled xs in Inr (e + int (length run), map (\<lambda>b. To_ftps (take n b)) run))"
    using e len by (simp add: deliver_run get_bytes_def xs_def nat_diff_distrib)
  show ?thesis
  proof (cases "\<forall>b \<in> set xs. filled b")
    case False
    then have run: "run_of s = takeWhile filled xs"
      unfolding run_of_def bs_def [symmetric] e_def [symmetric] win
      by (auto simp: takeWhile_append)
    define m where "m = length (run_of s)"
    have "takeWhile filled xs \<noteq> xs"
      using False by (simp add: takeWhile_eq_all_conv)
    then have "m < length xs"
      unfolding m_def run using takeWhile_eq_take [of filled xs] by (metis not_less take_all)
    then have m: "e + int m < 64"
      using lxs e by linarith
    have mod: "(e + int m) mod 64 = e + int m"
      using m e by simp
    have "m \<noteq> 0 \<Longrightarrow> zero_blocks bs e (e + int m) = Inr (clear_run bs e m)"
      using e m len by (simp add: zero_blocks_def clear_run_straight)
    moreover have "deliver all_sent n bs e 63 = Inr (e + int m, map (\<lambda>b. To_ftps (take n b)) (run_of s))"
      by (simp add: d1 run m_def Let_def)
    ultimately show ?thesis
      using e m len mod laf
      by (cases "m = 0")
        (auto simp: advance_wrapped_def advanced_def Let_def acceptable_def e_def bs_def
          m_def [symmetric])
  next
    case True
    define run2 k where "run2 = takeWhile filled ys" and "k = length run2"
    have run: "run_of s = xs @ run2"
      unfolding run_of_def bs_def [symmetric] e_def [symmetric] win run2_def
      using True by (auto simp: takeWhile_append)
    have k: "int k \<le> e - 44"
      using length_takeWhile_le [of filled ys] len e by (simp add: k_def run2_def ys_def)
    define cs where "cs = put_bytes (nat e) (replicate (nat (64 - e)) zero_block) bs"
    have lcs: "length cs = 64"
      using e len by (simp add: cs_def length_put_bytes)
    have z1: "zero_blocks bs e 64 = Inr cs"
      using e len by (simp add: zero_blocks_def cs_def)
    have "get_bytes 0 (nat (e - 44)) cs = ys"
      using e len by (simp add: cs_def get_put_disjoint) (simp add: get_bytes_def ys_def)
    then have d2: "deliver all_sent n cs 0 (laf s) = Inr (int k, map (\<lambda>b. To_ftps (take n b)) run2)"
      using e lcs by (simp add: deliver_run laf Let_def k_def run2_def)
    have clear: "put_bytes 0 (replicate k zero_block) cs = clear_run bs e (nat (64 - e) + k)"
      unfolding cs_def using clear_run_wrapped [OF len, of e k] e k by simp
    have z2: "(if int k \<noteq> 0 then zero_blocks cs 0 (int k) else Inr cs) =
        Inr (clear_run bs e (nat (64 - e) + k))"
      using lcs k e clear by (auto simp: zero_blocks_def put_bytes_def)
    have mod: "(e + int (length (run_of s))) mod 64 = int k"
      using k e lxs by (simp add: run k_def [symmetric])
    have "deliver all_sent n bs e 63 = Inr (64, map (\<lambda>b. To_ftps (take n b)) xs)"
      using True e lxs by (simp add: d1 takeWhile_eq_all_conv [THEN iffD2])
    then show ?thesis
      using z1 d2 z2 mod e k lxs
      by (auto simp: advance_wrapped_def advanced_def Let_def acceptable_def e_def bs_def run
          k_def [symmetric])
  qed
qed

lemma in_window_iff:
  assumes "recv_inv s" and "0 \<le> seqNum" and "seqNum < 64"
  shows "in_window (lfr s) (laf s) seqNum \<longleftrightarrow> (seqNum - (lfr s + 1)) mod 64 < 20"
  using assms recv_invD(2,3,4) [OF assms(1)]
  by (auto simp: in_window_def acceptable_def mod_64_cases)

text \<open>Advancing in general: the stalled state \<open>lfr = 63\<close> is the only exception.\<close>

definition advance ::
  "nat \<Rightarrow> server_state \<Rightarrow> fault + (server_state \<times> datagram list)"
where
  "advance n s =
    (if laf s > lfr s then advance_straight all_sent n s
     else if laf s < lfr s then advance_wrapped all_sent n s
     else Inr (s, []))"

lemma advance_run:
  assumes inv: "recv_inv s" and "lfr s \<noteq> 63"
  shows "\<exists>i. advance n s = Inr (advanced s i, map (\<lambda>b. To_ftps (take n b)) (run_of s)) \<and>
    -1 \<le> i \<and> i \<le> 63 \<and> (i + 1) mod 64 = (lfr s + 1 + int (length (run_of s))) mod 64"
proof (cases "lfr s \<le> 43")
  case True
  moreover have "lfr s < laf s"
    using recv_invD(4) [OF inv] True by (simp add: acceptable_def)
  ultimately show ?thesis
    using advance_straight_run [OF inv True, of n] length_run_of [of s] recv_invD(2) [OF inv] True
    by (intro exI [of _ "lfr s + int (length (run_of s))"]) (simp add: advance_def ac_simps)
next
  case False
  moreover have "laf s < lfr s"
    using recv_invD(4) [OF inv] False by (simp add: acceptable_def)
  ultimately show ?thesis
    using advance_wrapped_run [OF inv, of n] assms(2)
    by (intro exI [of _ "(lfr s + 1 + int (length (run_of s))) mod 64 - 1"])
      (auto simp: advance_def)
qed

lemma recv_inv_advanced:
  assumes inv: "recv_inv s" and i: "-1 \<le> i" "i \<le> 63"
    and eq: "(i + 1) mod 64 = (lfr s + 1 + int (length (run_of s))) mod 64"
  shows "recv_inv (advanced s i)"
    and "abs_recv (advanced s i) =
      \<lparr>expected = (lfr s + 1 + int (length (run_of s))) mod 64,
       slots = drop (length (run_of s)) (window (recvbuf s) (lfr s + 1))
         @ replicate (length (run_of s)) zero_block\<rparr>"
proof -
  note s = recv_invD [OF inv]
  let ?bs = "clear_run (recvbuf s) (lfr s + 1) (length (run_of s))"
  have "clean_outside ?bs (lfr s + 1 + int (length (run_of s)))"
    using s(5) length_run_of by (rule clean_outside_clear_run)
  then have "clean_outside ?bs (i + 1)"
    using eq clean_outside_mod by metis
  then show "recv_inv (advanced s i)"
    using s i by (simp add: recv_inv_def advanced_def acceptable_def blocks_ok_clear_run)
  have "window ?bs (i + 1) = window ?bs (lfr s + 1 + int (length (run_of s)))"
    using eq window_mod by metis
  then show "abs_recv (advanced s i) =
      \<lparr>expected = (lfr s + 1 + int (length (run_of s))) mod 64,
       slots = drop (length (run_of s)) (window (recvbuf s) (lfr s + 1))
         @ replicate (length (run_of s)) zero_block\<rparr>"
    using window_clear_run [OF s(5) length_run_of] eq by (simp add: abs_recv_def advanced_def)
qed

text \<open>Storing a block in the window.\<close>

lemma window_update:
  assumes "length bs = 64" and "0 \<le> q" and "q < 64" and "(q - e) mod 64 < 20"
  shows "window (bs[nat q := b]) e = (window bs e)[nat ((q - e) mod 64) := b]"
proof (rule nth_equalityI)
  show "length (window (bs[nat q := b]) e) = length ((window bs e)[nat ((q - e) mod 64) := b])"
    by simp
  fix k
  assume "k < length (window (bs[nat q := b]) e)"
  then have k: "k < 20" by simp
  have "nat q = nat ((e + int k) mod 64) \<longleftrightarrow> q = (e + int k) mod 64"
    using assms(2) by (auto simp: nat_eq_iff)
  also have "\<dots> \<longleftrightarrow> (q - e) mod 64 = int k"
  proof
    assume "q = (e + int k) mod 64"
    then have "(q - e) mod 64 = int k mod 64"
      by (simp add: mod_diff_left_eq)
    with k show "(q - e) mod 64 = int k" by simp
  next
    assume "(q - e) mod 64 = int k"
    then have "(e + int k) mod 64 = (e + (q - e)) mod 64"
      by (metis mod_add_right_eq)
    with assms(2,3) show "q = (e + int k) mod 64" by simp
  qed
  finally have "nat q = nat ((e + int k) mod 64) \<longleftrightarrow> nat ((q - e) mod 64) = k"
    by auto
  with k assms(1) show "window (bs[nat q := b]) e ! k = (window bs e)[nat ((q - e) mod 64) := b] ! k"
    using assms(2,3) by (auto simp: nth_window nth_list_update)
qed

lemma slot_in_window:
  assumes "0 \<le> q" and "q < 64" and "(q - e) mod 64 < 20"
  shows "window bs e ! nat ((q - e) mod 64) = bs ! nat q"
proof -
  have "(e + (q - e) mod 64) mod 64 = q"
    using assms(1,2) by (simp add: mod_add_right_eq)
  then show ?thesis
    using assms by (simp add: nth_window nat_less_iff)
qed

lemma recv_inv_store:
  assumes inv: "recv_inv s" and q: "0 \<le> q" "q < 64" "(q - (lfr s + 1)) mod 64 < 20"
    and b: "length b = BUFFSIZE"
  shows "recv_inv (s\<lparr>recvbuf := (recvbuf s)[nat q := b]\<rparr>)"
proof -
  have "clean_outside ((recvbuf s)[nat q := b]) (lfr s + 1)"
    unfolding clean_outside_def
  proof (intro allI impI)
    fix k :: nat
    assume k: "k < 64" and far: "20 \<le> (int k - (lfr s + 1)) mod 64"
    with q have "k \<noteq> nat q"
      by auto
    with k far show "(recvbuf s)[nat q := b] ! k = zero_block"
      using recv_invD(1,5) [OF inv] by (simp add: clean_outside_def)
  qed
  moreover have "blocks_ok ((recvbuf s)[nat q := b])"
    using recv_invD(6) [OF inv] b set_update_subset_insert [of "recvbuf s" "nat q" b]
    by (auto simp: blocks_ok_def)
  ultimately show ?thesis
    using inv by (simp add: recv_inv_def)
qed

text \<open>The block that a packet of \<open>len\<close> bytes leaves in an empty slot.\<close>

definition stored_block :: "byte list \<Rightarrow> nat \<Rightarrow> byte list" where
  "stored_block buf len = put_bytes 0 (packet_body buf len) zero_block"

lemma accept_packet_simulates:
  assumes inv: "recv_inv s" and stall: "lfr s \<noteq> 63"
    and q: "0 \<le> q" "q < 64"
    and len: "header_size \<le> len" "len \<le> packet_size" "length buf = packet_size"
  shows "\<exists>s' out. accept_packet all_sent s q buf len = Inr (s', out) \<and> recv_inv s' \<and> ack s' = ack s \<and>
    spec_accept (abs_recv s) q (stored_block buf len) (len - header_size) = (abs_recv s', out)"
proof -
  note s = recv_invD [OF inv]
  define e where "e = lfr s + 1"
  have off: "(q - expected (abs_recv s)) mod 64 = (q - e) mod 64"
    by (simp add: abs_recv_def e_def mod_diff_right_eq)
  have win: "in_window (lfr s) (laf s) q \<longleftrightarrow> (q - e) mod 64 < 20"
    using in_window_iff [OF inv q] by (simp add: e_def)
  have slots: "slots (abs_recv s) = window (recvbuf s) e"
    by (simp add: abs_recv_def e_def)
  show ?thesis
  proof (cases "(q - e) mod 64 < 20 \<and> checkEmpty (recvbuf s ! nat q)")
    case False
    then show ?thesis
      using q s(1) win inv off slots slot_in_window [of q e "recvbuf s"]
      by (auto simp: accept_packet_def spec_accept_def Let_def)
  next
    case True
    define b where "b = stored_block buf len"
    define t where "t = s\<lparr>recvbuf := (recvbuf s)[nat q := b]\<rparr>"
    have lb: "length b = BUFFSIZE"
      using len by (simp add: b_def stored_block_def packet_body_def get_bytes_def length_put_bytes)
    have "recvbuf s ! nat q = zero_block"
      using True s(6) q by (simp add: blocks_ok_def checkEmpty_block)
    then have acc: "accept_packet all_sent s q buf len = advance (len - header_size) t"
      using True q s(1) win len(1)
      by (simp add: accept_packet_def advance_def b_def stored_block_def t_def Let_def)
    have inv_t: "recv_inv t"
      unfolding t_def using inv q True lb by (intro recv_inv_store) (simp_all add: e_def)
    have stall_t: "lfr t \<noteq> 63"
      using stall by (simp add: t_def)
    have wt: "window (recvbuf t) (lfr t + 1) = (window (recvbuf s) e)[nat ((q - e) mod 64) := b]"
      using window_update [OF s(1) q, of e b] True by (simp add: t_def e_def)
    obtain i where i: "advance (len - header_size) t =
        Inr (advanced t i, map (\<lambda>b. To_ftps (take (len - header_size) b)) (run_of t))"
      "-1 \<le> i" "i \<le> 63" "(i + 1) mod 64 = (lfr t + 1 + int (length (run_of t))) mod 64"
      using advance_run [OF inv_t stall_t] by blast
    have "spec_accept (abs_recv s) q b (len - header_size) =
        (abs_recv (advanced t i), map (\<lambda>b. To_ftps (take (len - header_size) b)) (run_of t))"
      using recv_inv_advanced(2) [OF inv_t i(2-4)] True slot_in_window [OF q, of e "recvbuf s"]
      by (simp add: spec_accept_def off slots Let_def run_of_def wt [symmetric])
        (simp add: abs_recv_def t_def mod_add_left_eq)
    then show ?thesis
      using acc i recv_inv_advanced(1) [OF inv_t i(2-4)] by (auto simp: b_def advanced_def t_def)
  qed
qed

end
