(* ===== verification/Delivery.thy ===== *)
theory Delivery
  imports Receiver
begin

text \<open>
  What the server of \<open>project1/tcpd.c\<close> delivers: frames of a stream of blocks arrive in any
  order, repeated or damaged, each no further from the next expected frame than the window
  allows, and the application receives exactly a prefix of the stream. Also the two ways in
  which the code leaves this behaviour: the stalled state and frames acknowledged but lost.
\<close>

section \<open>Blocks handed to the application\<close>

fun ftps_of :: "datagram list \<Rightarrow> byte list list" where
  "ftps_of [] = []"
| "ftps_of (To_ftps b # ds) = b # ftps_of ds"
| "ftps_of (To_troll a # ds) = ftps_of ds"

lemma ftps_of_append [simp]: "ftps_of (xs @ ys) = ftps_of xs @ ftps_of ys"
  by (induction xs rule: ftps_of.induct) simp_all

lemma ftps_of_map [simp]: "ftps_of (map (\<lambda>b. To_ftps (f b)) bs) = map f bs"
  by (induction bs) simp_all

section \<open>A stream of blocks at the abstract receiver\<close>

text \<open>
  A state that has delivered \<open>n\<close> frames of a stream expects frame \<open>n\<close> and holds only blocks
  of the stream.
\<close>

definition stream_inv :: "(nat \<Rightarrow> byte list) \<Rightarrow> receiver_spec \<Rightarrow> nat \<Rightarrow> bool" where
  "stream_inv blk r n \<longleftrightarrow> expected r = int n mod 64 \<and> length (slots r) = 20 \<and>
    slots r ! 0 = zero_block \<and>
    (\<forall>k < 20. slots r ! k = zero_block \<or> slots r ! k = blk (n + k))"

lemma frame_offset:
  assumes "n \<le> j + 44" and "j < n + 20"
  shows "(int j mod 64 - int n mod 64) mod 64 < 20 \<longleftrightarrow> n \<le> j"
    and "n \<le> j \<Longrightarrow> nat ((int j mod 64 - int n mod 64) mod 64) = j - n"
proof -
  have eq: "(int j mod 64 - int n mod 64) mod 64 = (int j - int n) mod 64"
    by (simp add: mod_diff_eq)
  have "(int j - int n) mod 64 = (if n \<le> j then int j - int n else int j - int n + 64)"
    using assms by (simp add: mod_64_cases)
  then show "(int j mod 64 - int n mod 64) mod 64 < 20 \<longleftrightarrow> n \<le> j"
    "n \<le> j \<Longrightarrow> nat ((int j mod 64 - int n mod 64) mod 64) = j - n"
    using assms unfolding eq by auto
qed

lemma spec_accept_stream:
  assumes st: "is_stream blk" and inv: "stream_inv blk r n"
    and j: "n \<le> j + 44" "j < n + 20"
  shows "\<exists>r' n'. spec_accept r (int j mod 64) (blk j) BUFFSIZE = (r', map To_ftps (map blk [n..<n'])) \<and>
    stream_inv blk r' n' \<and> n \<le> n' \<and> (j = n \<longrightarrow> n < n')"
proof (cases "n \<le> j \<and> checkEmpty (slots r ! (j - n))")
  case False
  have "n = j \<Longrightarrow> checkEmpty (slots r ! (j - n))"
    using inv by (simp add: stream_inv_def)
  with False have "j \<noteq> n"
    by auto
  moreover have "spec_accept r (int j mod 64) (blk j) BUFFSIZE = (r, [])"
    using False inv frame_offset [OF j] by (auto simp: spec_accept_def stream_inv_def Let_def)
  ultimately show ?thesis
    using inv by (intro exI [of _ r] exI [of _ n]) simp
next
  case True
  define w where "w = (slots r)[j - n := blk j]"
  define run where "run = takeWhile filled w"
  define m where "m = length run"
  have lw: "length w = 20"
    using inv by (simp add: w_def stream_inv_def)
  have m: "m \<le> 20"
    using length_takeWhile_le [of filled w] lw by (simp add: m_def run_def)
  have w: "w ! k = zero_block \<or> w ! k = blk (n + k)" if "k < 20" for k
    using inv that True j by (cases "k = j - n") (auto simp: w_def stream_inv_def)
  have filled_k: "filled (w ! k)" if "k < m" for k
    using that nth_mem [of k run] set_takeWhileD [of "run ! k" filled w] takeWhile_nth [of k filled w]
    by (auto simp: m_def run_def)
  have run: "run = map blk [n..<n + m]"
  proof (rule nth_equalityI)
    show "length run = length (map blk [n..<n + m])"
      by (simp add: m_def)
    fix k
    assume "k < length run"
    then have k: "k < m" by (simp add: m_def)
    then have "run ! k = w ! k"
      by (simp add: run_def m_def takeWhile_nth)
    also have "\<dots> = blk (n + k)"
      using w [of k] filled_k [OF k] k m by auto
    finally show "run ! k = map blk [n..<n + m] ! k"
      using k by simp
  qed
  have take_id: "take BUFFSIZE b = b" if "b \<in> set run" for b
    using that st unfolding run by (auto simp: is_stream_def)
  define r' where "r' = \<lparr>expected = (expected r + int m) mod 64,
    slots = drop m w @ replicate m zero_block\<rparr>"
  have step: "spec_accept r (int j mod 64) (blk j) BUFFSIZE = (r', map To_ftps (map blk [n..<n + m]))"
  proof -
    have "map (\<lambda>b. To_ftps (take BUFFSIZE b)) run = map To_ftps run"
      using take_id by simp
    then show ?thesis
      using True inv frame_offset [OF j] unfolding run [symmetric]
      by (simp add: spec_accept_def stream_inv_def Let_def w_def [symmetric] run_def [symmetric]
          m_def [symmetric] r'_def)
  qed
  have first: "(drop m w @ replicate m zero_block) ! 0 = zero_block"
  proof (cases "m < 20")
    case True
    then have "\<not> filled (w ! m)"
      using lw nth_length_takeWhile [of filled w] by (simp add: m_def run_def)
    then have "w ! m = zero_block"
      using w [OF True] st by (auto simp: is_stream_def)
    with True lw show ?thesis
      by (simp add: nth_append)
  next
    case False
    with m lw show ?thesis
      by (simp add: nth_append)
  qed
  have rest: "(drop m w @ replicate m zero_block) ! k = zero_block \<or>
      (drop m w @ replicate m zero_block) ! k = blk (n + m + k)" if "k < 20" for k
  proof (cases "k < 20 - m")
    case True
    then have "m + k < 20" by arith
    from w [OF this] True lw show ?thesis
      by (simp add: nth_append add.assoc)
  next
    case False
    then have "k - (20 - m) < m"
      using that m by arith
    with False lw show ?thesis
      by (simp add: nth_append)
  qed
  have "stream_inv blk r' (n + m)"
    using inv first rest lw m by (simp add: stream_inv_def r'_def mod_add_left_eq)
  moreover have "n < n + m" if "j = n"
  proof -
    have "w ! 0 = blk n"
      using that inv by (simp add: w_def stream_inv_def)
    then have "filled (w ! 0)"
      using st by (simp add: is_stream_def)
    then show ?thesis
      using lw unfolding m_def run_def by (cases w) auto
  qed
  ultimately show ?thesis
    using step by (intro exI [of _ r'] exI [of _ "n + m"]) simp
qed

section \<open>Packets of the client at the server\<close>

lemma put_bytes_whole: "length src = length mem \<Longrightarrow> put_bytes 0 src mem = src"
  by (simp add: put_bytes_def)

lemma stored_block_fill:
  "length p = packet_size \<Longrightarrow> length body = BUFFSIZE \<Longrightarrow>
    stored_block (fill_packet p q body now) packet_size = body"
  by (simp add: stored_block_def packet_body_fill put_bytes_whole)

lemma is_int32_index: "0 \<le> q \<Longrightarrow> q < 64 \<Longrightarrow> is_int32 q"
  by (simp add: is_int32_def)

text \<open>The acknowledgement that answers a packet, and the state after sending it.\<close>

definition ack_for :: "server_state \<Rightarrow> byte list \<Rightarrow> byte list" where
  "ack_for s pkt = fill_ack (ack s) (packet_seq pkt) (packet_time pkt)"

lemma server_step_packet:
  assumes "packet_ready p" and "length body = BUFFSIZE" and "0 \<le> q" and "q < 64"
    and pkt: "pkt = fill_packet p q body now"
  shows "server_step all_sent s (Some pkt) =
    bindE (accept_packet all_sent s q pkt packet_size) (\<lambda>(t, out).
      Inr (t\<lparr>ack := clear_ack (ack_for t pkt)\<rparr>, out @ [To_troll (ack_for t pkt)]))"
proof -
  have len: "length pkt = packet_size"
    using assms by (simp add: packet_ready_def)
  have buf: "put_bytes 0 pkt (replicate packet_size 0) = pkt"
    using len by (simp add: put_bytes_whole)
  have "packet_ok pkt" "packet_seq pkt = q"
    using assms by (simp_all add: packet_ok_fill packet_seq_fill is_int32_index)
  then show ?thesis
    using len by (simp add: server_step_def buf Let_def ack_for_def)
qed

definition server_ok :: "server_state \<Rightarrow> bool" where
  "server_ok s \<longleftrightarrow> recv_inv s \<and> length (ack s) = header_size"

lemma length_clear_ack [simp]: "length a = header_size \<Longrightarrow> length (clear_ack a) = header_size"
  by (simp add: clear_ack_def mem_simps)

lemma length_ack_for [simp]: "length (ack s) = header_size \<Longrightarrow> length (ack_for s pkt) = header_size"
  by (simp add: ack_for_def)

lemma recv_ack_irrelevant [simp]:
  "recv_inv (s\<lparr>ack := a\<rparr>) = recv_inv s" "abs_recv (s\<lparr>ack := a\<rparr>) = abs_recv s"
  by (simp_all add: recv_inv_def abs_recv_def)

lemma server_step_spec:
  assumes s: "server_ok s" "lfr s \<noteq> 63" and p: "packet_ready p" "length body = BUFFSIZE"
    and q: "0 \<le> q" "q < 64" and pkt: "pkt = fill_packet p q body now"
  shows "\<exists>s' out. server_step all_sent s (Some pkt) =
      Inr (s', out @ [To_troll (ack_for s pkt)]) \<and> server_ok s' \<and> ack_ready (ack s') \<and>
    spec_accept (abs_recv s) q body BUFFSIZE = (abs_recv s', out)"
proof -
  have len: "length pkt = packet_size"
    using p pkt by (simp add: packet_ready_def)
  have "stored_block pkt packet_size = body"
    using p pkt by (simp add: stored_block_fill packet_ready_def)
  then obtain t out where t: "accept_packet all_sent s q pkt packet_size = Inr (t, out)"
    "recv_inv t" "ack t = ack s" "spec_accept (abs_recv s) q body BUFFSIZE = (abs_recv t, out)"
    using accept_packet_simulates [OF _ s(2) q, of packet_size pkt] s(1) len
    by (auto simp: server_ok_def)
  have "ack_for t pkt = ack_for s pkt"
    by (simp add: ack_for_def t(3))
  then have "server_step all_sent s (Some pkt) =
      Inr (t\<lparr>ack := clear_ack (ack_for s pkt)\<rparr>, out @ [To_troll (ack_for s pkt)])"
    using server_step_packet [OF p q pkt, of s] t(1) by simp
  with t s(1) show ?thesis
    by (intro exI [of _ "t\<lparr>ack := clear_ack (ack_for s pkt)\<rparr>"] exI [of _ out])
      (simp add: server_ok_def ack_ready_clear)
qed

text \<open>Everything the server can see of a stream, up to the point where it stalls.\<close>

inductive arrivals :: "(nat \<Rightarrow> byte list) \<Rightarrow> server_state \<Rightarrow> nat \<Rightarrow> datagram list \<Rightarrow> bool"
  for blk :: "nat \<Rightarrow> byte list"
where
  start: "length a = header_size \<Longrightarrow> arrivals blk (server_init a) 0 []"
| frame: "arrivals blk s n out \<Longrightarrow> lfr s \<noteq> 63 \<Longrightarrow> n \<le> j + 44 \<Longrightarrow> j < n + 20 \<Longrightarrow> packet_ready p \<Longrightarrow>
    server_step all_sent s (Some (fill_packet p (int j mod 64) (blk j) now)) = Inr (s', out') \<Longrightarrow>
    arrivals blk s' (n + length (ftps_of out')) (out @ out')"
| damaged: "arrivals blk s n out \<Longrightarrow>
    \<not> packet_ok (put_bytes 0 (take packet_size d) (replicate packet_size 0)) \<Longrightarrow>
    server_step all_sent s (Some d) = Inr (s', out') \<Longrightarrow>
    arrivals blk s' n (out @ out')"

lemma server_step_damaged:
  assumes "\<not> packet_ok (put_bytes 0 (take packet_size d) (replicate packet_size 0))"
  shows "server_step all_sent s (Some d) = Inr (s\<lparr>ack := clear_ack (ack s)\<rparr>, [])"
  using assms by (simp add: server_step_def Let_def)

lemma stream_inv_init: "stream_inv blk (abs_recv (server_init a)) 0"
proof -
  have "window (replicate 64 zero_block) 0 = replicate 20 zero_block"
    by (rule nth_equalityI) (simp_all add: nth_window nat_less_iff)
  then show ?thesis
    by (simp add: stream_inv_def abs_recv_def server_init_def)
qed

lemma server_step_frame:
  assumes st: "is_stream blk" and s: "server_ok s" "lfr s \<noteq> 63" "stream_inv blk (abs_recv s) n"
    and j: "n \<le> j + 44" "j < n + 20" and p: "packet_ready p"
  shows "\<exists>s' n' a. server_step all_sent s (Some (fill_packet p (int j mod 64) (blk j) now)) =
      Inr (s', map To_ftps (map blk [n..<n']) @ [To_troll a]) \<and>
    server_ok s' \<and> stream_inv blk (abs_recv s') n' \<and> n \<le> n' \<and> (j = n \<longrightarrow> n < n')"
proof -
  define pkt where "pkt = fill_packet p (int j mod 64) (blk j) now"
  have body: "length (blk j) = BUFFSIZE"
    using st by (simp add: is_stream_def)
  obtain s' out where step: "server_step all_sent s (Some pkt) = Inr (s', out @ [To_troll (ack_for s pkt)])"
    "server_ok s'" "spec_accept (abs_recv s) (int j mod 64) (blk j) BUFFSIZE = (abs_recv s', out)"
    using server_step_spec [OF s(1,2) p body _ _ pkt_def] by auto
  obtain r' n' where "spec_accept (abs_recv s) (int j mod 64) (blk j) BUFFSIZE =
      (r', map To_ftps (map blk [n..<n']))" "stream_inv blk r' n'" "n \<le> n'" "j = n \<longrightarrow> n < n'"
    using spec_accept_stream [OF st s(3) j] by blast
  with step show ?thesis
    by (intro exI [of _ s'] exI [of _ n'] exI [of _ "ack_for s pkt"]) (auto simp: pkt_def)
qed

lemma ftps_of_map_To [simp]: "ftps_of (map To_ftps bs) = bs"
  by (induction bs) simp_all

lemma ftps_of_troll [simp]: "ftps_of [To_troll a] = []"
  by simp

lemma arrivals_inv:
  assumes "arrivals blk s n out" and st: "is_stream blk"
  shows "server_ok s \<and> stream_inv blk (abs_recv s) n \<and> ftps_of out = map blk [0..<n]"
  using assms(1)
proof (induction rule: arrivals.induct)
  case (start a)
  then show ?case
    by (simp add: server_ok_def recv_inv_init stream_inv_init) (simp add: server_init_def)
next
  case (frame s n out j p now s' out')
  obtain t n' a where t: "server_step all_sent s (Some (fill_packet p (int j mod 64) (blk j) now)) =
      Inr (t, map To_ftps (map blk [n..<n']) @ [To_troll a])"
    "server_ok t" "stream_inv blk (abs_recv t) n'" "n \<le> n'"
    using server_step_frame [OF st, of s n j p now] frame by blast
  then have eq: "s' = t" "out' = map To_ftps (map blk [n..<n']) @ [To_troll a]"
    using frame.hyps by simp_all
  have "map blk [0..<n'] = map blk [0..<n] @ map blk [n..<n']"
    using t(4) by (metis le0 le_add_diff_inverse map_append upt_add_eq_append)
  then show ?case
    using t frame.IH by (simp add: eq del: map_map)
next
  case (damaged s n out d s' out')
  then have "s' = s\<lparr>ack := clear_ack (ack s)\<rparr>" "out' = []"
    by (simp_all add: server_step_damaged)
  with damaged.IH show ?case
    by (simp add: server_ok_def)
qed

section \<open>The stalled state\<close>

text \<open>
  When the window \<open>44..63\<close> is delivered in one go, \<open>lfr\<close> becomes 63. The test
  \<open>lfr > 63\<close> does not reset it, and the wrapped branch of the next step starts its scan
  behind the last slot and never wraps.
\<close>

lemma advance_stalled:
  assumes "lfr s = 63" and "laf s = 19" and "length (recvbuf s) = 64"
  shows "advance_wrapped sent n s = Inr (s, [])"
  using assms by (simp add: advance_wrapped_def deliver.simps)

lemma accept_packet_stalled:
  assumes inv: "recv_inv s" and stall: "lfr s = 63"
    and acc: "accept_packet sent s q buf len = Inr (s', out)" and len: "len \<le> packet_size"
    and buf: "length buf = packet_size"
  shows "lfr s' = 63 \<and> recv_inv s' \<and> ack s' = ack s \<and> out = []"
proof -
  note s = recv_invD [OF inv]
  have laf: "laf s = 19"
    using s(4) stall by (simp add: acceptable_def)
  show ?thesis
  proof (cases "in_window 63 19 q \<and> 0 \<le> q \<and> q < 64 \<and> checkEmpty (recvbuf s ! nat q) \<and> header_size \<le> len")
    case False
    with acc inv stall laf s(1) show ?thesis
      by (auto simp: accept_packet_def read_block_def write_block_def split: if_splits)
  next
    case True
    define b where "b = put_bytes 0 (packet_body buf len) (recvbuf s ! nat q)"
    have lb: "length b = BUFFSIZE"
    proof -
      have "length (recvbuf s ! nat q) = BUFFSIZE"
        using s(6) True nth_mem [of "nat q" "recvbuf s"] by (auto simp: blocks_ok_def nat_less_iff)
      then show ?thesis
        using len buf by (simp add: b_def length_put_bytes packet_body_def get_bytes_def)
    qed
    have "(q - (lfr s + 1)) mod 64 < 20"
      using in_window_iff [OF inv, of q] True stall laf by simp
    then have "recv_inv (s\<lparr>recvbuf := (recvbuf s)[nat q := b]\<rparr>)"
      using recv_inv_store [OF inv _ _ _ lb, of q] True by simp
    moreover have "accept_packet sent s q buf len = Inr (s\<lparr>recvbuf := (recvbuf s)[nat q := b]\<rparr>, [])"
      using True s(1) stall laf
      by (simp add: accept_packet_def b_def Let_def advance_stalled)
    ultimately show ?thesis
      using acc stall by auto
  qed
qed

lemma server_step_stalled:
  assumes "server_ok s" and "lfr s = 63" and "server_step sent s r = Inr (s', out)"
  shows "server_ok s' \<and> lfr s' = 63 \<and> ftps_of out = []"
proof -
  obtain d where d: "r = Some d"
    using assms(3) by (cases r) (auto simp: server_step_def)
  define len buf where "len = min (length d) packet_size"
    and "buf = put_bytes 0 (take packet_size d) (replicate packet_size 0)"
  have lb: "length buf = packet_size" "len \<le> packet_size"
    by (simp_all add: buf_def len_def length_put_bytes)
  show ?thesis
  proof (cases "packet_ok buf")
    case False
    then have "s' = s\<lparr>ack := clear_ack (ack s)\<rparr>" "out = []"
      using assms(3) by (auto simp: d server_step_def Let_def buf_def)
    with assms(1,2) show ?thesis
      by (simp add: server_ok_def)
  next
    case True
    then obtain t o1 where t: "accept_packet sent s (packet_seq buf) buf len = Inr (t, o1)"
      "s' = t\<lparr>ack := clear_ack (ack_for t buf)\<rparr>" "out = o1 @ [To_troll (ack_for t buf)]"
      using assms(3)
      by (auto simp: d server_step_def Let_def buf_def [symmetric] len_def [symmetric] bindE_eq_Inr
          ack_for_def split: if_splits)
    have "lfr t = 63 \<and> recv_inv t \<and> ack t = ack s \<and> o1 = []"
      using accept_packet_stalled [OF _ assms(2) t(1)] assms(1) lb by (simp add: server_ok_def)
    with t assms(1) show ?thesis
      by (simp add: server_ok_def)
  qed
qed

lemma server_run_stalled:
  "server_ok s \<Longrightarrow> lfr s = 63 \<Longrightarrow> server_run sent s rs = Inr (s', out) \<Longrightarrow>
    lfr s' = 63 \<and> ftps_of out = []"
proof (induction rs arbitrary: s out)
  case Nil
  then show ?case by simp
next
  case (Cons r rs)
  then obtain t o1 o2 where "server_step sent s r = Inr (t, o1)"
    "server_run sent t rs = Inr (s', o2)" "out = o1 @ o2"
    by (auto simp: bindE_eq_Inr)
  with Cons.IH [of t o2] Cons.prems server_step_stalled [of s sent r t o1] show ?case
    by simp
qed

section \<open>Reaching the stalled state\<close>

lemma server_step_straight:
  assumes s: "server_ok s" "lfr s \<le> 43" and q: "lfr s < q" "q \<le> lfr s + 20"
    and slot: "recvbuf s ! nat q = zero_block" and p: "packet_ready p" "length body = BUFFSIZE"
    and pkt: "pkt = fill_packet p q body now" and t: "t = s\<lparr>recvbuf := (recvbuf s)[nat q := body]\<rparr>"
  shows "server_step all_sent s (Some pkt) =
    Inr ((advanced t (lfr s + int (length (run_of t))))\<lparr>ack := clear_ack (ack_for s pkt)\<rparr>,
      map (\<lambda>b. To_ftps (take BUFFSIZE b)) (run_of t) @ [To_troll (ack_for s pkt)])"
proof -
  have inv: "recv_inv s"
    using s(1) by (simp add: server_ok_def)
  note i = recv_invD [OF inv]
  have q64: "0 \<le> q" "q < 64"
    using q s(2) i(2) by auto
  have laf: "laf s = lfr s + 20"
    using i(4) s(2) by (simp add: acceptable_def)
  have off: "(q - (lfr s + 1)) mod 64 < 20"
    using q q64 i(2) s(2) by (simp add: mod_64_cases)
  have body: "put_bytes 0 (packet_body pkt packet_size) zero_block = body"
    using p pkt by (simp add: packet_body_fill packet_ready_def put_bytes_whole)
  have inv_t: "recv_inv t"
    unfolding t using recv_inv_store [OF inv q64 off p(2)] .
  have "accept_packet all_sent s q pkt packet_size = advance_straight all_sent BUFFSIZE t"
    using q q64 i(1) laf slot body by (simp add: accept_packet_def in_window_def Let_def t)
  also have "\<dots> = Inr (advanced t (lfr s + int (length (run_of t))),
      map (\<lambda>b. To_ftps (take BUFFSIZE b)) (run_of t))"
    using advance_straight_run [OF inv_t, of BUFFSIZE] s(2) by (simp add: t)
  finally show ?thesis
    using server_step_packet [OF p q64 pkt, of s] by (simp add: ack_for_def advanced_def t)
qed

definition blank_packet :: "byte list" where
  "blank_packet = replicate packet_size 0"

lemma packet_ready_blank: "packet_ready blank_packet"
  by (simp add: packet_ready_def blank_packet_def get_bytes_def numeral_2_eq_2)

text \<open>The buffer after frames \<open>0..43\<close> in order and then frames \<open>45\<close> up to \<open>44 + m\<close>.\<close>

definition gap_buffer :: "(nat \<Rightarrow> byte list) \<Rightarrow> nat \<Rightarrow> byte list list" where
  "gap_buffer blk m = map (\<lambda>k. if 45 \<le> k \<and> k < 45 + m then blk k else zero_block) [0..<64]"

lemma gap_buffer_0: "gap_buffer blk 0 = replicate 64 zero_block"
  by (intro nth_equalityI) (auto simp: gap_buffer_def)

lemma gap_buffer_Suc:
  "m < 19 \<Longrightarrow> (gap_buffer blk m)[45 + m := blk (45 + m)] = gap_buffer blk (Suc m)"
  by (intro nth_equalityI) (auto simp: gap_buffer_def nth_list_update less_Suc_eq)

lemma run_of_single:
  assumes "filled b" and "i < 64"
  shows "takeWhile filled (window ((replicate 64 zero_block)[i := b]) (int i)) = [b]"
proof -
  have "window ((replicate 64 zero_block)[i := b]) (int i) = b # replicate 19 zero_block"
    using assms
    by (intro nth_equalityI)
      (auto simp: nth_window nth_list_update nth_Cons mod_64_cases nat_less_iff split: nat.splits)
  with assms(1) show ?thesis
    by (simp add: takeWhile_replicate)
qed

lemma clear_run_single:
  "i < 64 \<Longrightarrow> clear_run ((replicate 64 zero_block)[i := b]) (int i) (Suc 0) = replicate 64 zero_block"
  by (intro nth_equalityI) (auto simp: clear_run_def nth_list_update mod_64_cases)

lemma arrivals_in_order:
  assumes st: "is_stream blk" and "n \<le> 44"
  shows "\<exists>s out. arrivals blk s n out \<and> lfr s = int n - 1 \<and> recvbuf s = replicate 64 zero_block"
  using assms(2)
proof (induction n)
  case 0
  have "arrivals blk (server_init (replicate header_size 0)) 0 []"
    by (rule arrivals.start) simp
  then show ?case
    by (intro exI [of _ "server_init (replicate header_size 0)"] exI [of _ "[]"])
      (simp add: server_init_def)
next
  case (Suc n)
  then obtain s out where s: "arrivals blk s n out" "lfr s = int n - 1"
    "recvbuf s = replicate 64 zero_block"
    by auto
  define pkt where "pkt = fill_packet blank_packet (int n) (blk n) \<lparr>tv_sec = 0, tv_usec = 0\<rparr>"
  define t where "t = s\<lparr>recvbuf := (recvbuf s)[nat (int n) := blk n]\<rparr>"
  have b: "length (blk n) = BUFFSIZE" "filled (blk n)"
    using st by (simp_all add: is_stream_def)
  have ok: "server_ok s"
    using arrivals_inv [OF s(1) st] by simp
  have run: "run_of t = [blk n]"
    using run_of_single [OF b(2), of n] Suc.prems s(2,3) by (simp add: run_of_def t_def)
  have adv: "recvbuf (advanced t (int n)) = replicate 64 zero_block" "lfr (advanced t (int n)) = int n"
    using clear_run_single [of n "blk n"] Suc.prems s(2,3) run
    by (simp_all add: advanced_def t_def)
  have step: "server_step all_sent s (Some pkt) =
      Inr ((advanced t (int n))\<lparr>ack := clear_ack (ack_for s pkt)\<rparr>,
        [To_ftps (take BUFFSIZE (blk n)), To_troll (ack_for s pkt)])"
    using server_step_straight [OF ok _ _ _ _ packet_ready_blank b(1) pkt_def t_def] Suc.prems s(2,3) run
    by simp
  have "arrivals blk ((advanced t (int n))\<lparr>ack := clear_ack (ack_for s pkt)\<rparr>)
      (n + length (ftps_of [To_ftps (take BUFFSIZE (blk n)), To_troll (ack_for s pkt)]))
      (out @ [To_ftps (take BUFFSIZE (blk n)), To_troll (ack_for s pkt)])"
    using step Suc.prems s(2)
    by (intro arrivals.frame [OF s(1) _ _ _ packet_ready_blank, of n]) (simp_all add: pkt_def)
  then show ?case
    using adv
    by (intro exI [of _ "(advanced t (int n))\<lparr>ack := clear_ack (ack_for s pkt)\<rparr>"]
        exI [of _ "out @ [To_ftps (take BUFFSIZE (blk n)), To_troll (ack_for s pkt)]"]) simp
qed

lemma run_of_gap: "run_of (s\<lparr>recvbuf := gap_buffer blk m, lfr := 43, laf := l, ack := a\<rparr>) = []"
proof -
  have "checkEmpty (window (gap_buffer blk m) 44 ! 0)"
    by (simp add: nth_window gap_buffer_def)
  then show ?thesis
    by (cases "window (gap_buffer blk m) 44") (simp_all add: run_of_def)
qed

lemma arrivals_gap:
  assumes st: "is_stream blk" and "m \<le> 19"
  shows "\<exists>s out. arrivals blk s 44 out \<and> lfr s = 43 \<and> recvbuf s = gap_buffer blk m"
  using assms(2)
proof (induction m)
  case 0
  show ?case
    using arrivals_in_order [OF st, of 44] by (auto simp: gap_buffer_0)
next
  case (Suc m)
  then obtain s out where s: "arrivals blk s 44 out" "lfr s = 43" "recvbuf s = gap_buffer blk m"
    by auto
  define q where "q = 45 + m"
  define pkt where "pkt = fill_packet blank_packet (int q) (blk q) \<lparr>tv_sec = 0, tv_usec = 0\<rparr>"
  define t where "t = s\<lparr>recvbuf := (recvbuf s)[nat (int q) := blk q]\<rparr>"
  define u where "u = (advanced t 43)\<lparr>ack := clear_ack (ack_for s pkt)\<rparr>"
  have b: "length (blk q) = BUFFSIZE"
    using st by (simp add: is_stream_def)
  have ok: "server_ok s"
    using arrivals_inv [OF s(1) st] by simp
  have t: "recvbuf t = gap_buffer blk (Suc m)" "lfr t = 43"
    using Suc.prems s gap_buffer_Suc [where m = m and blk = blk] by (simp_all add: t_def q_def nat_add_distrib)
  have run: "run_of t = []"
    using run_of_gap [where s = t and blk = blk and m = "Suc m" and l = "laf t" and a = "ack t"] t by (simp add: run_of_def)
  have u: "recvbuf u = gap_buffer blk (Suc m)" "lfr u = 43"
    using t run by (simp_all add: u_def advanced_def gap_buffer_def)
  have slot: "recvbuf s ! nat (int q) = zero_block"
    using Suc.prems s(3) by (simp add: gap_buffer_def q_def nat_add_distrib)
  have step: "server_step all_sent s (Some pkt) = Inr (u, [To_troll (ack_for s pkt)])"
    using server_step_straight [OF ok _ _ _ slot packet_ready_blank b pkt_def t_def] Suc.prems s(2) run
    by (simp add: u_def q_def)
  have "arrivals blk u (44 + length (ftps_of [To_troll (ack_for s pkt)])) (out @ [To_troll (ack_for s pkt)])"
    using step Suc.prems s(2)
    by (intro arrivals.frame [OF s(1) _ _ _ packet_ready_blank, of q]) (simp_all add: pkt_def q_def)
  with u show ?case
    by (intro exI [of _ u] exI [of _ "out @ [To_troll (ack_for s pkt)]"]) simp
qed

lemma arrivals_stall:
  assumes st: "is_stream blk"
  shows "\<exists>s out. arrivals blk s 64 out \<and> lfr s = 63"
proof -
  obtain s out where s: "arrivals blk s 44 out" "lfr s = 43" "recvbuf s = gap_buffer blk 19"
    using arrivals_gap [OF st, of 19] by auto
  define pkt where "pkt = fill_packet blank_packet 44 (blk 44) \<lparr>tv_sec = 0, tv_usec = 0\<rparr>"
  define t where "t = s\<lparr>recvbuf := (recvbuf s)[nat 44 := blk 44]\<rparr>"
  define u where "u = (advanced t 63)\<lparr>ack := clear_ack (ack_for s pkt)\<rparr>"
  have b: "length (blk j) = BUFFSIZE" "filled (blk j)" for j
    using st by (simp_all add: is_stream_def)
  have ok: "server_ok s"
    using arrivals_inv [OF s(1) st] by simp
  have "recvbuf t ! nat ((44 + int k) mod 64) = blk (44 + k)" if "k \<in> set [0..<20]" for k
    using that s(3) by (auto simp: t_def gap_buffer_def nth_list_update nat_add_distrib)
  then have "window (recvbuf t) 44 = map (\<lambda>k. blk (44 + k)) [0..<20]"
    unfolding window_def by (rule map_cong [OF refl])
  then have run: "run_of t = map (\<lambda>k. blk (44 + k)) [0..<20]"
    using b s(2) by (simp add: run_of_def t_def takeWhile_eq_all_conv [THEN iffD2] del: upt_conv_Cons)
  have slot: "recvbuf s ! nat 44 = zero_block"
    using s(3) by (simp add: gap_buffer_def)
  define o1 where "o1 = map (\<lambda>b. To_ftps (take BUFFSIZE b)) (run_of t) @ [To_troll (ack_for s pkt)]"
  have step: "server_step all_sent s (Some pkt) = Inr (u, o1)"
    using server_step_straight [OF ok _ _ _ slot packet_ready_blank b(1) pkt_def t_def] s(2) run
    by (simp add: u_def o1_def)
  have "arrivals blk u (44 + length (ftps_of o1)) (out @ o1)"
    using step s(2)
    by (intro arrivals.frame [OF s(1) _ _ _ packet_ready_blank, of 44]) (simp_all add: pkt_def)
  moreover have "length (ftps_of o1) = 20" "lfr u = 63"
    using run by (simp_all add: o1_def u_def advanced_def del: map_map)
  ultimately show ?thesis
    by auto
qed

section \<open>Acknowledged but not kept\<close>

lemma accept_packet_outside:
  "\<not> in_window (lfr s) (laf s) q \<Longrightarrow> accept_packet sent s q buf len = Inr (s, [])"
  by (simp add: accept_packet_def)

lemma server_step_outside:
  assumes p: "packet_ready p" "length body = BUFFSIZE" and q: "0 \<le> q" "q < 64"
    and out: "\<not> in_window (lfr s) (laf s) q" and pkt: "pkt = fill_packet p q body now"
  shows "server_step all_sent s (Some pkt) =
    Inr (s\<lparr>ack := clear_ack (ack_for s pkt)\<rparr>, [To_troll (ack_for s pkt)])"
  using server_step_packet [OF p q pkt, of s] out by (simp add: accept_packet_outside)

lemma server_step_zero_block:
  assumes s: "server_ok s" "lfr s \<noteq> 63" and p: "packet_ready p"
    and q: "0 \<le> q" "q < 64" and r: "slots (abs_recv s) ! 0 = zero_block"
    and pkt: "pkt = fill_packet p q zero_block now"
  shows "\<exists>s'. server_step all_sent s (Some pkt) = Inr (s', [To_troll (ack_for s pkt)]) \<and>
    abs_recv s' = abs_recv s"
proof -
  let ?w = "slots (abs_recv s)"
  obtain s' out where step: "server_step all_sent s (Some pkt) = Inr (s', out @ [To_troll (ack_for s pkt)])"
    "spec_accept (abs_recv s) q zero_block BUFFSIZE = (abs_recv s', out)"
    using server_step_spec [OF s p _ q pkt] by auto
  have lw: "length ?w = 20"
    by (simp add: abs_recv_def)
  have same: "?w[k := zero_block] = ?w" if "k < 20" "checkEmpty (?w ! k)" for k
  proof -
    have "length (?w ! k) = BUFFSIZE"
    proof -
      have "nat ((lfr s + 1 + int k) mod 64) < length (recvbuf s)"
        using s(1) recv_invD(1) by (simp add: server_ok_def nat_less_iff)
      then have "recvbuf s ! nat ((lfr s + 1 + int k) mod 64) \<in> set (recvbuf s)"
        by (rule nth_mem)
      then show ?thesis
        using s(1) recv_invD(6) that by (auto simp: abs_recv_def nth_window server_ok_def blocks_ok_def)
    qed
    then have "?w ! k = zero_block"
      using that by (simp add: checkEmpty_block)
    then show ?thesis
      by (metis list_update_id)
  qed
  have front: "takeWhile filled ?w = []"
    using r lw by (cases ?w) auto
  have "spec_accept (abs_recv s) q zero_block BUFFSIZE = (abs_recv s, [])"
  proof (cases "(q - expected (abs_recv s)) mod 64 < 20 \<and>
      checkEmpty (?w ! nat ((q - expected (abs_recv s)) mod 64))")
    case True
    then have "?w[nat ((q - expected (abs_recv s)) mod 64) := zero_block] = ?w"
      by (intro same) auto
    with True front show ?thesis
      by (simp add: spec_accept_def Let_def) (simp add: abs_recv_def)
  next
    case False
    then show ?thesis
      by (auto simp: spec_accept_def Let_def)
  qed
  with step show ?thesis
    by auto
qed

section \<open>Index safety\<close>

lemma accept_packet_total:
  assumes inv: "recv_inv s" and q: "0 \<le> q" "q < 64"
    and len: "header_size \<le> len" "len \<le> packet_size" "length buf = packet_size"
  shows "\<exists>s' out. accept_packet all_sent s q buf len = Inr (s', out) \<and> recv_inv s' \<and> ack s' = ack s"
proof (cases "lfr s = 63")
  case False
  then show ?thesis
    using accept_packet_simulates [OF inv _ q len] by blast
next
  case True
  have "laf s = 19"
    using recv_invD(4) [OF inv] True by (simp add: acceptable_def)
  then have "\<exists>r. accept_packet all_sent s q buf len = Inr r"
    using True q len(1) recv_invD(1) [OF inv]
    by (simp add: accept_packet_def advance_stalled Let_def)
  then obtain s' out where r: "accept_packet all_sent s q buf len = Inr (s', out)"
    by auto
  from accept_packet_stalled [OF inv True r len(2,3)] r show ?thesis
    by blast
qed

section \<open>Properties\<close>

text \<open>
  C6: The server implements the abstract receiver. For every packet that the client can
  have filled, in every state but the stalled one (\<open>lfr\<close> is 63), one iteration of the loop in
  which all datagrams can be sent behaves as \<open>spec_accept\<close> on the abstraction of the state: the
  same blocks go to the application, followed by one acknowledgement, and the invariant is
  kept. In the stalled state, which can be reached, the server delivers nothing any more.
\<close>

theorem server_refines_spec:
  assumes "server_ok s" and "lfr s \<noteq> 63" and "packet_ready p" and "length body = BUFFSIZE"
    and "0 \<le> q" and "q < 64" and "pkt = fill_packet p q body now"
  shows "\<exists>s' out. server_step all_sent s (Some pkt) = Inr (s', out @ [To_troll (ack_for s pkt)]) \<and>
    server_ok s' \<and> ack_ready (ack s') \<and> spec_accept (abs_recv s) q body BUFFSIZE = (abs_recv s', out)"
  using server_step_spec [OF assms] .

theorem server_refines_spec_witness:
  "\<exists>s' out. server_step all_sent (server_init (replicate header_size 0))
      (Some (fill_packet blank_packet 3 (replicate BUFFSIZE 1) \<lparr>tv_sec = 1, tv_usec = 0\<rparr>)) =
      Inr (s', out @ [To_troll (ack_for (server_init (replicate header_size 0))
        (fill_packet blank_packet 3 (replicate BUFFSIZE 1) \<lparr>tv_sec = 1, tv_usec = 0\<rparr>))]) \<and>
    server_ok s' \<and> ack_ready (ack s') \<and>
    spec_accept (abs_recv (server_init (replicate header_size 0))) 3 (replicate BUFFSIZE 1) BUFFSIZE =
      (abs_recv s', out)"
  by (rule server_refines_spec)
    (simp_all add: server_ok_def recv_inv_init packet_ready_blank, simp_all add: server_init_def)

text \<open>
  C1: Exactly once and in order. Let the frames of a stream arrive in any order and any
  number of times, each within the window of the server, with damaged packets in between:
  as long as the server has not stalled, what the application has received are the blocks
  of the stream from the first on, none missing, none twice, none out of order.
\<close>

theorem in_order_delivery:
  assumes "arrivals blk s n out" and "is_stream blk"
  shows "ftps_of out = map blk [0..<n]"
  using arrivals_inv [OF assms] by simp

theorem in_order_delivery_witness:
  "\<exists>s out. arrivals (\<lambda>_. replicate BUFFSIZE 1) s 64 out \<and>
    ftps_of out = map (\<lambda>_. replicate BUFFSIZE 1) [0..<64]"
proof -
  have st: "is_stream (\<lambda>_. replicate BUFFSIZE 1)"
    by (simp add: is_stream_def checkEmpty_iff replicate_eq_replicate)
  obtain s out where "arrivals (\<lambda>_. replicate BUFFSIZE 1) s 64 out"
    using arrivals_stall [OF st] by blast
  with in_order_delivery [OF this st] show ?thesis
    by blast
qed

text \<open>
  Progress. When the frame that the server expects next arrives, in a state that is not
  stalled, at least this frame is delivered in the same iteration.
\<close>

theorem expected_frame_delivered:
  assumes "is_stream blk" and "server_ok s" and "lfr s \<noteq> 63" and "stream_inv blk (abs_recv s) n"
    and "packet_ready p"
  shows "\<exists>s' n' a. server_step all_sent s (Some (fill_packet p (int n mod 64) (blk n) now)) =
      Inr (s', map To_ftps (map blk [n..<n']) @ [To_troll a]) \<and> n < n' \<and>
    stream_inv blk (abs_recv s') n'"
  using server_step_frame [OF assms(1-4), of n p now] assms(5) by auto

theorem expected_frame_delivered_witness:
  "\<exists>s' n' a. server_step all_sent (server_init (replicate header_size 0))
      (Some (fill_packet blank_packet (int 0 mod 64) (replicate BUFFSIZE 1) \<lparr>tv_sec = 0, tv_usec = 0\<rparr>)) =
      Inr (s', map To_ftps (map (\<lambda>_. replicate BUFFSIZE 1) [0..<n']) @ [To_troll a]) \<and> 0 < n' \<and>
    stream_inv (\<lambda>_. replicate BUFFSIZE 1) (abs_recv s') n'"
proof -
  have st: "is_stream (\<lambda>_. replicate BUFFSIZE 1)"
    by (simp add: is_stream_def checkEmpty_iff replicate_eq_replicate)
  have ok: "server_ok (server_init (replicate header_size 0))"
    by (simp add: server_ok_def recv_inv_init) (simp add: server_init_def)
  have l: "lfr (server_init (replicate header_size 0)) \<noteq> 63"
    by (simp add: server_init_def)
  show ?thesis
    by (rule expected_frame_delivered [OF st ok l stream_inv_init packet_ready_blank])
qed

text \<open>
  The stalled state is final. Once \<open>lfr\<close> is 63, whatever datagrams arrive and
  whichever calls of \<open>sendto\<close> succeed, \<open>lfr\<close> stays 63 and no block is delivered to the
  application any more.
\<close>

theorem stalled_forever:
  assumes "server_ok s" and "lfr s = 63" and "server_run sent s rs = Inr (s', out)"
  shows "lfr s' = 63 \<and> ftps_of out = []"
  using server_run_stalled [OF assms] .

theorem stalled_forever_witness:
  "\<exists>s s' out. lfr s = 63 \<and> server_run all_sent s [Some (fill_packet blank_packet 0 (replicate BUFFSIZE 1)
      \<lparr>tv_sec = 0, tv_usec = 0\<rparr>)] = Inr (s', out) \<and> lfr s' = 63 \<and> ftps_of out = []"
proof -
  let ?pkt = "fill_packet blank_packet 0 (replicate BUFFSIZE 1) \<lparr>tv_sec = 0, tv_usec = 0\<rparr>"
  have st: "is_stream (\<lambda>_. replicate BUFFSIZE 1)"
    by (simp add: is_stream_def checkEmpty_iff replicate_eq_replicate)
  obtain s out where "arrivals (\<lambda>_. replicate BUFFSIZE 1) s 64 out" "lfr s = 63"
    using arrivals_stall [OF st] by blast
  then have s: "server_ok s" "lfr s = 63"
    using arrivals_inv [OF _ st] by blast+
  have len: "length ?pkt = packet_size"
    using packet_ready_blank by (simp add: packet_ready_def)
  obtain t o1 where "accept_packet all_sent s 0 ?pkt packet_size = Inr (t, o1)"
    using accept_packet_total [of s 0 packet_size ?pkt] s(1) len by (auto simp: server_ok_def)
  then obtain s' out where run: "server_run all_sent s [Some ?pkt] = Inr (s', out)"
    using server_step_packet [OF packet_ready_blank, of "replicate BUFFSIZE 1" 0 ?pkt "\<lparr>tv_sec = 0, tv_usec = 0\<rparr>" s]
    by simp
  with stalled_forever [OF s run] s(2) show ?thesis
    by blast
qed

text \<open>
  C22: The stall is reachable in an ordinary transfer: with frames 0 to 43 in order, then
  45 to 63 and last the missing frame 44, the server delivers all 64 blocks and stalls.
\<close>

theorem stall_reachable:
  assumes "is_stream blk"
  shows "\<exists>s out. arrivals blk s 64 out \<and> lfr s = 63"
  using arrivals_stall [OF assms] .

theorem stall_reachable_witness:
  "\<exists>s out. arrivals (\<lambda>_. replicate BUFFSIZE 1) s 64 out \<and> lfr s = 63"
  by (rule stall_reachable) (simp add: is_stream_def checkEmpty_iff replicate_eq_replicate)

text \<open>
  A frame outside the window is thrown away and acknowledged all the same: the buffer
  and the window do not change, and the acknowledgement carries the number of the frame.
\<close>

theorem outside_window_acknowledged:
  assumes "packet_ready p" and "length body = BUFFSIZE" and "0 \<le> q" and "q < 64"
    and "\<not> in_window (lfr s) (laf s) q" and "ack_ready (ack s)"
    and "pkt = fill_packet p q body now"
  shows "\<exists>a. server_step all_sent s (Some pkt) = Inr (s\<lparr>ack := clear_ack a\<rparr>, [To_troll a]) \<and>
    ack_ok a \<and> ack_number a = q"
proof -
  have "packet_seq pkt = q"
    using assms(1-4,7) by (simp add: packet_seq_fill is_int32_index)
  then have "ack_ok (ack_for s pkt)" "ack_number (ack_for s pkt) = q"
    using ack_fill [OF assms(6)] assms(3,4) by (simp_all add: ack_for_def is_int32_index)
  with server_step_outside [OF assms(1-5,7)] show ?thesis
    by blast
qed

theorem outside_window_acknowledged_witness:
  "\<exists>a. server_step all_sent (server_init (replicate header_size 0))
      (Some (fill_packet blank_packet 20 (replicate BUFFSIZE 1) \<lparr>tv_sec = 0, tv_usec = 0\<rparr>)) =
      Inr ((server_init (replicate header_size 0))\<lparr>ack := clear_ack a\<rparr>, [To_troll a]) \<and>
    ack_ok a \<and> ack_number a = 20"
  by (rule outside_window_acknowledged [OF packet_ready_blank])
    (simp_all add: server_init_def in_window_def ack_ready_def get_bytes_def numeral_2_eq_2)

text \<open>
  A block that consists of zero bytes is taken for an empty slot: its frame is
  acknowledged, but the abstract receiver is left as it was, so the frame is never delivered
  and the window never moves past it.
\<close>

theorem zero_block_lost:
  assumes "server_ok s" and "lfr s \<noteq> 63" and "packet_ready p" and "0 \<le> q" and "q < 64"
    and "slots (abs_recv s) ! 0 = zero_block" and "pkt = fill_packet p q zero_block now"
  shows "\<exists>s'. server_step all_sent s (Some pkt) = Inr (s', [To_troll (ack_for s pkt)]) \<and>
    abs_recv s' = abs_recv s"
  using server_step_zero_block [OF assms] .

theorem zero_block_lost_witness:
  "\<exists>s'. server_step all_sent (server_init (replicate header_size 0))
      (Some (fill_packet blank_packet 0 zero_block \<lparr>tv_sec = 0, tv_usec = 0\<rparr>)) =
      Inr (s', [To_troll (ack_for (server_init (replicate header_size 0))
        (fill_packet blank_packet 0 zero_block \<lparr>tv_sec = 0, tv_usec = 0\<rparr>))]) \<and>
    abs_recv s' = abs_recv (server_init (replicate header_size 0))"
  by (rule zero_block_lost)
    (simp_all add: server_ok_def recv_inv_init packet_ready_blank stream_inv_init
      [where blk = "\<lambda>_. []", unfolded stream_inv_def, THEN conjunct2, THEN conjunct2, THEN conjunct1],
     simp_all add: server_init_def)

text \<open>
  C21: Every access to the receive buffer is in range, in the stalled state too, for every
  datagram that carries at least a header: either its checksum is wrong, or its number is a
  slot number, and then the iteration ends normally with the invariant kept.
\<close>

theorem server_step_in_bounds:
  fixes d :: "byte list"
  defines "buf \<equiv> put_bytes 0 (take packet_size d) (replicate packet_size 0)"
  assumes "server_ok s" and "header_size \<le> length d"
    and "packet_ok buf \<Longrightarrow> 0 \<le> packet_seq buf \<and> packet_seq buf < 64"
  shows "\<exists>s' out. server_step all_sent s (Some d) = Inr (s', out) \<and> server_ok s'"
proof (cases "packet_ok buf")
  case False
  with assms(2) show ?thesis
    by (simp add: server_step_damaged buf_def server_ok_def)
next
  case True
  have len: "length buf = packet_size"
    by (simp add: buf_def length_put_bytes)
  obtain t out where t: "accept_packet all_sent s (packet_seq buf) buf (min (length d) packet_size) = Inr (t, out)"
    "recv_inv t" "ack t = ack s"
    using accept_packet_total [of s "packet_seq buf" "min (length d) packet_size" buf]
      assms(2,3) assms(4) [OF True] len by (auto simp: server_ok_def)
  with True assms(2) show ?thesis
    by (simp add: server_step_def buf_def [symmetric] Let_def server_ok_def)
qed

theorem server_step_in_bounds_witness:
  "\<exists>s' out. server_step all_sent (server_init (replicate header_size 0)) (Some (replicate 100 0)) = Inr (s', out) \<and>
    server_ok s'"
proof (rule server_step_in_bounds)
  show "server_ok (server_init (replicate header_size 0))"
    by (simp add: server_ok_def recv_inv_init) (simp add: server_init_def)
  have "packet_message (put_bytes 0 (take packet_size (replicate 100 0)) (replicate packet_size 0)) =
      (replicate 1040 0 :: byte list)"
    by (intro nth_equalityI)
      (auto simp: packet_message_def get_bytes_def length_put_bytes nth_put_bytes)
  then show "0 \<le> packet_seq (put_bytes 0 (take packet_size (replicate 100 0)) (replicate packet_size 0)) \<and>
      packet_seq (put_bytes 0 (take packet_size (replicate 100 0)) (replicate packet_size 0)) < 64"
    by (simp add: packet_seq_def int_of_bytes_def get_bytes_def numeral_eq_Suc)
qed simp

text \<open>
  The window test does not bound the sequence number above while the window wraps: a
  packet with a correct checksum and a number of 64 or more is taken for a frame in the
  window, and storing it writes behind the receive buffer.
\<close>

theorem wrapped_window_overrun:
  assumes "recv_inv s" and "44 \<le> lfr s" and "64 \<le> q"
  shows "accept_packet sent s q buf len = Inl OutOfBounds"
  using recv_invD [OF assms(1)] assms(2,3)
  by (simp add: accept_packet_def in_window_def acceptable_def read_block_def)

theorem wrapped_window_overrun_witness:
  "accept_packet all_sent \<lparr>recvbuf = replicate 64 zero_block, lfr = 50, laf = 6, ack = []\<rparr> 64 [] 0 =
    Inl OutOfBounds"
  by (rule wrapped_window_overrun) (simp_all add: recv_inv_def blocks_ok_def clean_outside_def)

end
