(* ===== verification/Rtt.thy ===== *)
theory Rtt
  imports CBase
begin

text \<open>
  The retransmission timeout of \<open>project1/tcpd.c\<close>: \<open>struct tcp_sock\<close>, \<open>init\<close>, \<open>after\<close>,
  \<open>__tcp_set_rto\<close> and \<open>tcp_rtt_estimator\<close>. The fields are 32-bit unsigned words; the
  local \<open>m\<close> is a 64-bit signed \<open>long\<close>, always between \<open>-2^32\<close> and \<open>2^32\<close>, and an integer
  here. A sum stored into a field is truncated to 32 bits. The lemmas bound the fields,
  so that nothing wraps for samples below \<open>2^29\<close> microseconds, bound the timeout, and
  show how the smoothed time follows the samples.
\<close>

section \<open>The code\<close>

abbreviation TCP_RTO_MIN :: u32 where "TCP_RTO_MIN \<equiv> 2000"

record tcp_sock =
  srtt :: u32
  mdev :: u32
  mdev_max :: u32
  rttvar :: u32
  rtt_seq :: u32
  snd_una :: u32
  snd_nxt :: u32

definition init :: tcp_sock where
  "init = \<lparr>srtt = 0, mdev = 0, mdev_max = 0, rttvar = 0, rtt_seq = 0, snd_una = 0, snd_nxt = 0\<rparr>"

definition after :: "u32 \<Rightarrow> u32 \<Rightarrow> bool" where
  "after seq1 seq2 \<longleftrightarrow> seq1 - seq2 > 0"

definition tcp_set_rto :: "tcp_sock \<Rightarrow> u32" where
  "tcp_set_rto tp = drop_bit 3 (srtt tp) + rttvar tp"

text \<open>The gain of the deviation: a drop of the round-trip time moves it eight times slower.\<close>

definition mdev_change :: "int \<Rightarrow> u32 \<Rightarrow> int" where
  "mdev_change m dev =
    (if m < 0 then
       let m = - m - uint (drop_bit 2 dev)
       in if m > 0 then drop_bit 3 m else m
     else m - uint (drop_bit 2 dev))"

definition tcp_rtt_estimator :: "tcp_sock \<Rightarrow> u32 \<Rightarrow> tcp_sock" where
  "tcp_rtt_estimator tp mrtt =
    (let m = (if uint mrtt = 0 then 1 else uint mrtt) in
     if srtt tp \<noteq> 0 then
       let m = m - uint (drop_bit 3 (srtt tp));
           tp = tp\<lparr>srtt := word_of_int (uint (srtt tp) + m)\<rparr>;
           tp = tp\<lparr>mdev := word_of_int (uint (mdev tp) + mdev_change m (mdev tp))\<rparr>;
           tp = (if mdev tp > mdev_max tp then
                   let tp = tp\<lparr>mdev_max := mdev tp\<rparr>
                   in if mdev_max tp > rttvar tp then tp\<lparr>rttvar := mdev_max tp\<rparr> else tp
                 else tp)
       in if after (snd_una tp) (rtt_seq tp) then
            let tp = (if mdev_max tp < rttvar tp
                      then tp\<lparr>rttvar := rttvar tp - drop_bit 2 (rttvar tp - mdev_max tp)\<rparr>
                      else tp)
            in tp\<lparr>mdev_max := TCP_RTO_MIN\<rparr>
          else tp
     else
       let tp = tp\<lparr>srtt := word_of_int (push_bit 3 m)\<rparr>;
           tp = tp\<lparr>mdev := word_of_int (push_bit 1 m)\<rparr>;
           tp = tp\<lparr>rttvar := max (mdev tp) TCP_RTO_MIN\<rparr>
       in tp\<lparr>mdev_max := rttvar tp\<rparr>)"

text \<open>A sequence of samples, as the driver feeds them, one per transmission.\<close>

definition estimate_all :: "tcp_sock \<Rightarrow> u32 list \<Rightarrow> tcp_sock" where
  "estimate_all tp samples = foldl tcp_rtt_estimator tp samples"

section \<open>What the branches compute\<close>

text \<open>The unsigned difference is positive whenever the numbers differ.\<close>

lemma after_iff: "after seq1 seq2 \<longleftrightarrow> seq1 \<noteq> seq2"
  by (simp add: after_def word_neq_0_conv [symmetric])

text \<open>The sample as the estimator uses it.\<close>

definition sample :: "u32 \<Rightarrow> int" where
  "sample mrtt = max 1 (uint mrtt)"

lemma sample_eq: "(if uint mrtt = 0 then 1 else uint mrtt) = sample mrtt"
proof -
  have "uint mrtt = 0 \<or> 1 \<le> uint mrtt"
    using uint_ge_0 [of mrtt] by arith
  then show ?thesis
    by (auto simp: sample_def)
qed

lemma sample_pos: "1 \<le> sample mrtt"
  by (simp add: sample_def)

text \<open>The frame of the estimator: the sequence numbers are never written.\<close>

lemma estimator_frame [simp]:
  "rtt_seq (tcp_rtt_estimator tp r) = rtt_seq tp"
  "snd_una (tcp_rtt_estimator tp r) = snd_una tp"
  "snd_nxt (tcp_rtt_estimator tp r) = snd_nxt tp"
  by (simp_all add: tcp_rtt_estimator_def Let_def)

text \<open>The invariant: after a first sample, with all samples at most \<open>M\<close>.\<close>

definition rtt_inv :: "int \<Rightarrow> tcp_sock \<Rightarrow> bool" where
  "rtt_inv M tp \<longleftrightarrow>
    1 \<le> uint (srtt tp) \<and> uint (srtt tp) \<le> 8 * M \<and> uint (mdev tp) \<le> 4 * M \<and>
    2000 \<le> uint (mdev_max tp) \<and> mdev_max tp \<le> rttvar tp \<and> uint (rttvar tp) \<le> max 2000 (4 * M)"

lemma uint_u32_of_int: "0 \<le> x \<Longrightarrow> x < 2 ^ 32 \<Longrightarrow> uint (word_of_int x :: u32) = x"
  by (simp add: uint_word_of_int)

lemma mdev_change_bounds:
  assumes "\<bar>m\<bar> \<le> M" and "uint dev \<le> 4 * M"
  shows "0 \<le> uint dev + mdev_change m dev" and "uint dev + mdev_change m dev \<le> 4 * M"
proof -
  have d: "0 \<le> uint dev" "0 \<le> uint dev div 4" "uint dev div 4 \<le> uint dev"
    "uint dev - uint dev div 4 \<le> 3 * M"
    using assms(2) uint_ge_0 [of dev] by arith+
  have q: "0 \<le> x div 8" "x div 8 \<le> x" if "0 < x" for x :: int
    using that by auto
  have change: "mdev_change m dev =
      (if m < 0 then (if 0 < - m - uint dev div 4 then (- m - uint dev div 4) div 8
                      else - m - uint dev div 4)
       else m - uint dev div 4)"
    unfolding mdev_change_def uint_drop_bit_u32 Let_def by (simp add: drop_bit_eq_div)
  show "0 \<le> uint dev + mdev_change m dev"
    unfolding change using d q(1) [of "- m - uint dev div 4"] by auto
  show "uint dev + mdev_change m dev \<le> 4 * M"
    unfolding change using d q(2) [of "- m - uint dev div 4"] assms(1) by auto
qed

text \<open>The values of the fields after a further sample, while nothing has wrapped.\<close>

lemma estimator_next:
  assumes inv: "rtt_inv M tp" and r: "sample r \<le> M" and M: "M < 2 ^ 29"
    and seq: "snd_una tp = rtt_seq tp"
  defines "m \<equiv> sample r - uint (srtt tp) div 8"
  shows estimator_srtt: "uint (srtt (tcp_rtt_estimator tp r)) = uint (srtt tp) + m"
    and estimator_mdev: "uint (mdev (tcp_rtt_estimator tp r)) = uint (mdev tp) + mdev_change m (mdev tp)"
    and estimator_mdev_max: "mdev_max (tcp_rtt_estimator tp r) =
      max (mdev_max tp) (mdev (tcp_rtt_estimator tp r))"
    and estimator_rttvar: "rttvar (tcp_rtt_estimator tp r) =
      max (rttvar tp) (mdev_max (tcp_rtt_estimator tp r))"
    and estimator_mdev_bound: "uint (mdev (tcp_rtt_estimator tp r)) \<le> 4 * M"
    and estimator_srtt_bounds: "1 \<le> uint (srtt tp) + m" "uint (srtt tp) + m \<le> 8 * M"
proof -
  have s: "1 \<le> uint (srtt tp)" "uint (srtt tp) \<le> 8 * M" "uint (mdev tp) \<le> 4 * M"
    "mdev_max tp \<le> rttvar tp"
    using inv by (auto simp: rtt_inv_def)
  have nz: "srtt tp \<noteq> 0"
    using s(1) by auto
  have q: "0 \<le> uint (srtt tp) div 8" "uint (srtt tp) div 8 \<le> M"
    "uint (srtt tp) - uint (srtt tp) div 8 \<le> 7 * M" "uint (srtt tp) div 8 \<le> uint (srtt tp)"
    using s by auto
  show b: "1 \<le> uint (srtt tp) + m" "uint (srtt tp) + m \<le> 8 * M"
    using q sample_pos [of r] r by (auto simp: m_def)
  have "\<bar>m\<bar> \<le> M"
    using q sample_pos [of r] r by (auto simp: m_def)
  note d = mdev_change_bounds [OF this s(3)]
  have m: "sample r - uint (drop_bit 3 (srtt tp)) = m"
    by (simp add: m_def uint_drop_bit_u32)
  have s1: "uint (word_of_int (uint (srtt tp) + m) :: u32) = uint (srtt tp) + m"
    using b M by (intro uint_u32_of_int) auto
  have d1: "uint (word_of_int (uint (mdev tp) + mdev_change m (mdev tp)) :: u32) =
      uint (mdev tp) + mdev_change m (mdev tp)"
    using d M by (intro uint_u32_of_int) auto
  show "uint (srtt (tcp_rtt_estimator tp r)) = uint (srtt tp) + m"
    using nz s1 by (simp add: tcp_rtt_estimator_def sample_eq Let_def m after_iff seq)
  show dev: "uint (mdev (tcp_rtt_estimator tp r)) = uint (mdev tp) + mdev_change m (mdev tp)"
    using nz d1 by (simp add: tcp_rtt_estimator_def sample_eq Let_def m after_iff seq)
  show "mdev_max (tcp_rtt_estimator tp r) = max (mdev_max tp) (mdev (tcp_rtt_estimator tp r))"
    using nz by (auto simp: tcp_rtt_estimator_def sample_eq Let_def m after_iff seq max_def not_less)
  show "rttvar (tcp_rtt_estimator tp r) = max (rttvar tp) (mdev_max (tcp_rtt_estimator tp r))"
    using nz s(4)
    by (auto simp: tcp_rtt_estimator_def sample_eq Let_def m after_iff seq max_def not_less)
  show "uint (mdev (tcp_rtt_estimator tp r)) \<le> 4 * M"
    using d dev by simp
qed

section \<open>The invariant over a sequence of samples\<close>

lemma uint_max_u32: "uint (max a b :: u32) = max (uint a) (uint b)"
  by (simp add: max_def word_le_def)

lemma u32_le_uint: "(a :: u32) \<le> b \<longleftrightarrow> uint a \<le> uint b"
  by (rule word_le_def)

lemma rtt_inv_next:
  assumes inv: "rtt_inv M tp" and r: "sample r \<le> M" and M: "M < 2 ^ 29"
    and seq: "snd_una tp = rtt_seq tp"
  shows "rtt_inv M (tcp_rtt_estimator tp r)"
proof -
  note e = estimator_next [OF assms]
  have "2000 \<le> uint (mdev_max tp)" "uint (mdev_max tp) \<le> uint (rttvar tp)"
    "uint (rttvar tp) \<le> max 2000 (4 * M)"
    using inv by (auto simp: rtt_inv_def u32_le_uint)
  moreover have "uint (mdev_max (tcp_rtt_estimator tp r)) =
      max (uint (mdev_max tp)) (uint (mdev (tcp_rtt_estimator tp r)))"
    "uint (rttvar (tcp_rtt_estimator tp r)) =
      max (uint (rttvar tp)) (uint (mdev_max (tcp_rtt_estimator tp r)))"
    by (simp_all only: e(3,4) uint_max_u32)
  ultimately show ?thesis
    unfolding rtt_inv_def u32_le_uint using e(1,5,6,7) by (intro conjI; arith)
qed

text \<open>The first sample.\<close>

lemma estimator_first:
  assumes z: "srtt tp = 0" and r: "sample r < 2 ^ 29"
  shows "uint (srtt (tcp_rtt_estimator tp r)) = 8 * sample r"
    and "uint (mdev (tcp_rtt_estimator tp r)) = 2 * sample r"
    and "uint (rttvar (tcp_rtt_estimator tp r)) = max (2 * sample r) 2000"
    and "mdev_max (tcp_rtt_estimator tp r) = rttvar (tcp_rtt_estimator tp r)"
proof -
  have s: "push_bit 3 (sample r) = 8 * sample r" "push_bit 1 (sample r) = 2 * sample r"
    by (simp_all add: push_bit_eq_mult)
  have u: "uint (word_of_int (8 * sample r) :: u32) = 8 * sample r"
    "uint (word_of_int (2 * sample r) :: u32) = 2 * sample r"
    using r sample_pos [of r] by (intro uint_u32_of_int; simp)+
  show "uint (srtt (tcp_rtt_estimator tp r)) = 8 * sample r"
    using z u(1) by (simp add: tcp_rtt_estimator_def sample_eq Let_def s mult.commute)
  show dev: "uint (mdev (tcp_rtt_estimator tp r)) = 2 * sample r"
    using z u(2) by (simp add: tcp_rtt_estimator_def sample_eq Let_def s mult.commute)
  have "rttvar (tcp_rtt_estimator tp r) = max (mdev (tcp_rtt_estimator tp r)) 2000"
    using z by (simp add: tcp_rtt_estimator_def sample_eq Let_def)
  then show "uint (rttvar (tcp_rtt_estimator tp r)) = max (2 * sample r) 2000"
    by (simp add: uint_max_u32 dev)
  show "mdev_max (tcp_rtt_estimator tp r) = rttvar (tcp_rtt_estimator tp r)"
    using z by (simp add: tcp_rtt_estimator_def sample_eq Let_def)
qed

lemma rtt_inv_first:
  assumes "srtt tp = 0" and "sample r \<le> M" and "M < 2 ^ 29"
  shows "rtt_inv M (tcp_rtt_estimator tp r)"
  using estimator_first [OF assms(1), of r] sample_pos [of r] assms(2,3)
  by (auto simp: rtt_inv_def max_def)

lemma estimate_all_frame [simp]:
  "rtt_seq (estimate_all tp rs) = rtt_seq tp" "snd_una (estimate_all tp rs) = snd_una tp"
  by (induction rs arbitrary: tp) (simp_all add: estimate_all_def)

lemma rtt_inv_all:
  "rtt_inv M tp \<Longrightarrow> snd_una tp = rtt_seq tp \<Longrightarrow> (\<forall>r \<in> set rs. sample r \<le> M) \<Longrightarrow> M < 2 ^ 29 \<Longrightarrow>
    rtt_inv M (estimate_all tp rs)"
  by (induction rs arbitrary: tp) (simp_all add: estimate_all_def rtt_inv_next)

text \<open>From the initial state on, every later state has seen a first sample.\<close>

definition samples_ok :: "int \<Rightarrow> u32 list \<Rightarrow> bool" where
  "samples_ok M rs \<longleftrightarrow> 1 \<le> M \<and> M < 2 ^ 29 \<and> list_all (\<lambda>r. uint r \<le> M) rs"

lemma samples_okD: "samples_ok M rs \<Longrightarrow> (\<forall>r \<in> set rs. sample r \<le> M) \<and> M < 2 ^ 29"
  by (auto simp: samples_ok_def sample_def list_all_iff)

lemma rtt_inv_from_init:
  assumes "samples_ok M rs" and "rs \<noteq> []"
  shows "rtt_inv M (estimate_all init rs)"
proof (cases rs)
  case Nil
  with assms(2) show ?thesis by simp
next
  case (Cons r rest)
  have "rtt_inv M (tcp_rtt_estimator init r)"
    using samples_okD [OF assms(1)] Cons by (intro rtt_inv_first) (simp_all add: init_def)
  then have "rtt_inv M (estimate_all (tcp_rtt_estimator init r) rest)"
    using samples_okD [OF assms(1)] Cons by (intro rtt_inv_all) (simp_all add: init_def)
  then show ?thesis
    by (simp add: Cons estimate_all_def)
qed

lemma set_rto_value:
  assumes "rtt_inv M tp" and "M < 2 ^ 29"
  shows "uint (tcp_set_rto tp) = uint (srtt tp) div 8 + uint (rttvar tp)"
proof -
  have b: "0 \<le> uint (srtt tp) div 8" "uint (srtt tp) div 8 \<le> M" "uint (rttvar tp) \<le> max 2000 (4 * M)"
    using assms by (auto simp: rtt_inv_def)
  have "uint (drop_bit 3 (srtt tp)) + uint (rttvar tp) < 2 ^ LENGTH(32)"
    unfolding uint_drop_bit_u32 using b assms(2) by auto
  then have "uint (drop_bit 3 (srtt tp) + rttvar tp) = uint (drop_bit 3 (srtt tp)) + uint (rttvar tp)"
    by (rule uint_add_lem [THEN iffD1])
  then show ?thesis
    by (simp only: tcp_set_rto_def uint_drop_bit_u32) simp
qed

lemma eighth_shrinks:
  fixes a b t :: int
  assumes "8 * a = 7 * b + t" and "0 \<le> t" and "t \<le> 7"
  shows "8 * \<bar>a\<bar> \<le> 7 * \<bar>b\<bar> + 7"
  using assms by (auto simp: abs_if)

section \<open>Properties\<close>

text \<open>
  C20: The retransmission timeout stays in range. After any nonempty sequence of samples of
  at most \<open>M\<close> microseconds (\<open>M < 2^29\<close>), starting from \<open>init\<close>, the timeout is at least
  \<open>TCP_RTO_MIN\<close> and at most \<open>M\<close> plus the larger of \<open>TCP_RTO_MIN\<close> and \<open>4 * M\<close>: no
  sum has wrapped around 32 bits.
\<close>

theorem rto_bounds:
  assumes "samples_ok M rs" and "rs \<noteq> []"
  shows "2000 \<le> uint (tcp_set_rto (estimate_all init rs)) \<and>
    uint (tcp_set_rto (estimate_all init rs)) \<le> M + max 2000 (4 * M)"
proof -
  define tp where "tp = estimate_all init rs"
  have inv: "rtt_inv M tp"
    unfolding tp_def using assms by (rule rtt_inv_from_init)
  have "M < 2 ^ 29"
    using samples_okD [OF assms(1)] by simp
  from set_rto_value [OF inv this] inv show ?thesis
    unfolding tp_def [symmetric] by (auto simp: rtt_inv_def u32_le_uint)
qed

theorem rto_bounds_witness:
  "2000 \<le> uint (tcp_set_rto (estimate_all init [0, 5000, 300])) \<and>
    uint (tcp_set_rto (estimate_all init [0, 5000, 300])) \<le> 25000"
  using rto_bounds [of 5000 "[0, 5000, 300]"] by (simp add: samples_ok_def)

text \<open>
  The first sample sets the timeout to the sample plus twice the sample, but the
  second part at least \<open>TCP_RTO_MIN\<close>: three times the round-trip time, as the comment in
  the code says, from 1000 microseconds on.
\<close>

theorem first_rto:
  assumes "uint r < 2 ^ 29"
  shows "uint (tcp_set_rto (tcp_rtt_estimator init r)) =
    max 1 (uint r) + max (2 * max 1 (uint r)) 2000"
proof -
  have s: "sample r = max 1 (uint r)" "sample r < 2 ^ 29"
    using assms by (simp_all add: sample_def)
  have z: "srtt init = 0"
    by (simp add: init_def)
  have inv: "rtt_inv (sample r) (tcp_rtt_estimator init r)"
    using s z by (intro rtt_inv_first) simp_all
  show ?thesis
    using set_rto_value [OF inv s(2)] estimator_first [OF z s(2)] s(1) by simp
qed

theorem first_rto_witness: "uint (tcp_set_rto (tcp_rtt_estimator init 40000)) = 120000"
  using first_rto [of 40000] by simp

text \<open>
  The smoothed time follows the samples: with the scaled estimate \<open>srtt\<close> and a
  sample \<open>r\<close>, the distance of \<open>srtt\<close> from \<open>8 * r\<close> shrinks to at most seven eighths,
  up to the rounding of the shift.
\<close>

theorem srtt_contracts:
  assumes "samples_ok M (r # rs)" and "rs \<noteq> []"
  defines "tp \<equiv> estimate_all init rs"
  shows "8 * \<bar>uint (srtt (tcp_rtt_estimator tp r)) - 8 * max 1 (uint r)\<bar> \<le>
    7 * \<bar>uint (srtt tp) - 8 * max 1 (uint r)\<bar> + 7"
proof -
  have ok: "samples_ok M rs" "sample r \<le> M" "M < 2 ^ 29"
    using assms(1) samples_okD [OF assms(1)] by (auto simp: samples_ok_def)
  have inv: "rtt_inv M tp"
    unfolding tp_def using ok(1) assms(2) by (rule rtt_inv_from_init)
  have "uint (srtt (tcp_rtt_estimator tp r)) = uint (srtt tp) + (sample r - uint (srtt tp) div 8)"
    by (rule estimator_srtt [OF inv ok(2,3)]) (simp add: tp_def init_def)
  moreover have "8 * (x + (s - q) - 8 * s) = 7 * (x - 8 * s) + t" if "8 * q + t = x" for x s q t :: int
    unfolding that [symmetric] by (simp add: algebra_simps)
  moreover from this [OF mult_div_mod_eq]
  have "8 * (x + (s - x div 8) - 8 * s) = 7 * (x - 8 * s) + x mod 8" for x s :: int .
  ultimately have "8 * (uint (srtt (tcp_rtt_estimator tp r)) - 8 * sample r) =
      7 * (uint (srtt tp) - 8 * sample r) + uint (srtt tp) mod 8"
    by (simp only:)
  moreover have "0 \<le> uint (srtt tp) mod 8" "uint (srtt tp) mod 8 \<le> 7"
    using pos_mod_bound [of 8 "uint (srtt tp)"] by simp_all
  ultimately show ?thesis
    unfolding sample_def [symmetric] by (rule eighth_shrinks)
qed

theorem srtt_contracts_witness:
  "8 * \<bar>uint (srtt (tcp_rtt_estimator (estimate_all init [100]) 900)) - 7200\<bar> \<le>
    7 * \<bar>uint (srtt (estimate_all init [100])) - 7200\<bar> + 7"
  using srtt_contracts [of 900 900 "[100]"] by (simp add: samples_ok_def)

text \<open>
  The driver never updates \<open>snd_una\<close> and \<open>rtt_seq\<close>, so the branch that lets the
  deviation decay after a round trip is never taken: from one sample to the next
  \<open>rttvar\<close> never decreases, and neither does \<open>mdev_max\<close>.
\<close>

theorem rttvar_never_decays:
  assumes "samples_ok M (rs @ [r])" and "rs \<noteq> []"
  shows "rttvar (estimate_all init rs) \<le> rttvar (estimate_all init (rs @ [r])) \<and>
    mdev_max (estimate_all init rs) \<le> mdev_max (estimate_all init (rs @ [r]))"
proof -
  have ok: "samples_ok M rs" "sample r \<le> M" "M < 2 ^ 29"
    using assms(1) samples_okD [OF assms(1)] by (auto simp: samples_ok_def)
  have inv: "rtt_inv M (estimate_all init rs)"
    using ok(1) assms(2) by (rule rtt_inv_from_init)
  have seq: "snd_una (estimate_all init rs) = rtt_seq (estimate_all init rs)"
    by (simp add: init_def)
  have "estimate_all init (rs @ [r]) = tcp_rtt_estimator (estimate_all init rs) r"
    by (simp add: estimate_all_def)
  then show ?thesis
    using estimator_mdev_max [OF inv ok(2,3) seq] estimator_rttvar [OF inv ok(2,3) seq] by simp
qed

theorem rttvar_never_decays_witness:
  "rttvar (estimate_all init [90000]) \<le> rttvar (estimate_all init [90000, 10]) \<and>
    mdev_max (estimate_all init [90000]) \<le> mdev_max (estimate_all init [90000, 10])"
  using rttvar_never_decays [of 90000 "[90000]" 10] by (simp add: samples_ok_def)

end
