(* ===== verification/Messages.thy ===== *)
theory Messages
  imports CBase
begin

text \<open>
  The messages between the driver and the timer process of \<open>project1/tcpd.c\<close>, 1200 bytes
  each on a pipe: the operation as a string of at most 10 bytes at 0, the frame number as an
  \<open>int\<close> at 10, the bytes of the interval, a \<open>double\<close>, at 14. \<open>starttimer\<close>, \<open>canceltimer\<close>
  and \<open>stop_timing\<close> write them to the timer, \<open>update_time_list\<close> writes a resend request
  back to the driver; the timer and the driver decode what they read.
\<close>

section \<open>The code\<close>

abbreviation BUFFER_SIZE :: nat where "BUFFER_SIZE \<equiv> 1200"
abbreviation INFO_SIZE :: nat where "INFO_SIZE \<equiv> 1000"
abbreviation OPT_SIZE :: nat where "OPT_SIZE \<equiv> 10"
abbreviation ID_SIZE :: nat where "ID_SIZE \<equiv> 4"

text \<open>\<open>char a[n] = "..."\<close>\<close>

definition char_array :: "nat \<Rightarrow> string \<Rightarrow> byte list" where
  "char_array n str = bytes_of_string str @ replicate (n - length str) 0"

definition starttimer :: "byte list \<Rightarrow> int \<Rightarrow> byte list" where
  "starttimer time_interval ident =
    (let bufout = replicate BUFFER_SIZE 0;
         bufout = put_bytes 0 (c_strncpy OPT_SIZE (char_array OPT_SIZE ''start'')) bufout;
         bufout = put_bytes OPT_SIZE (int_bytes ident) bufout;
         bufout = put_bytes (OPT_SIZE + ID_SIZE) time_interval bufout
     in put_bytes (OPT_SIZE + ID_SIZE + 8)
          (c_strncpy INFO_SIZE (char_array INFO_SIZE ''This is a test string'')) bufout)"

text \<open>The number is copied with \<open>strncpy\<close>, which stops at its first zero byte.\<close>

definition canceltimer :: "int \<Rightarrow> byte list" where
  "canceltimer ident =
    (let bufout = replicate BUFFER_SIZE 0;
         bufout = put_bytes 0 (c_strncpy OPT_SIZE (char_array OPT_SIZE ''cancel'')) bufout
     in put_bytes OPT_SIZE (c_strncpy ID_SIZE (int_bytes ident)) bufout)"

text \<open>\<open>bufout\<close> is not initialised here.\<close>

definition stop_timing :: "byte list \<Rightarrow> byte list" where
  "stop_timing bufout = put_bytes 0 (c_strncpy OPT_SIZE (char_array OPT_SIZE ''stop'')) bufout"

definition resend_message :: "int \<Rightarrow> byte list" where
  "resend_message ident =
    (let bufout = replicate BUFFER_SIZE 0;
         bufout = put_bytes 0 (c_strncpy OPT_SIZE (char_array OPT_SIZE ''resend'')) bufout
     in put_bytes OPT_SIZE (int_bytes ident) bufout)"

text \<open>The fields of a message, and the comparison with \<open>strcmp\<close>.\<close>

definition operation_is :: "string \<Rightarrow> byte list \<Rightarrow> bool" where
  "operation_is op buf \<longleftrightarrow> c_string (c_strncpy OPT_SIZE buf) = bytes_of_string op"

definition message_id :: "byte list \<Rightarrow> int" where
  "message_id buf = int_of_bytes (get_bytes OPT_SIZE 4 buf)"

definition message_interval :: "byte list \<Rightarrow> byte list" where
  "message_interval buf = get_bytes (OPT_SIZE + ID_SIZE) 8 buf"

section \<open>Reading the fields back\<close>

lemma take_takeWhile: "take n (takeWhile P xs) = takeWhile P (take n xs)"
  by (induction xs arbitrary: n) (auto simp: take_Cons split: nat.split)

text \<open>An operation name without zero bytes that fits the field is recovered.\<close>

definition op_name :: "string \<Rightarrow> bool" where
  "op_name op \<longleftrightarrow> 0 \<notin> set (bytes_of_string op) \<and> length op < OPT_SIZE"

lemma c_strncpy_array:
  assumes "op_name op"
  shows "c_strncpy OPT_SIZE (char_array OPT_SIZE op) = char_array OPT_SIZE op"
proof -
  have "c_string (char_array OPT_SIZE op) = bytes_of_string op"
    using assms by (simp add: op_name_def char_array_def c_string_replicate_zero)
  with assms show ?thesis
    by (simp add: c_strncpy_def Let_def char_array_def op_name_def bytes_of_string_def)
qed

lemma operation_is_array:
  assumes "op_name op" and "length buf = BUFFER_SIZE" and "get_bytes 0 OPT_SIZE buf = char_array OPT_SIZE op"
  shows "operation_is op' buf \<longleftrightarrow> bytes_of_string op' = bytes_of_string op"
proof -
  have z: "c_string (char_array OPT_SIZE op) = bytes_of_string op"
    using assms(1) by (simp add: op_name_def char_array_def c_string_replicate_zero)
  have "take OPT_SIZE (c_string buf) = c_string (take OPT_SIZE buf)"
    unfolding c_string_def by (rule take_takeWhile)
  with z assms(3) have "take OPT_SIZE (c_string buf) = bytes_of_string op"
    by (simp add: get_bytes_def)
  then have "c_strncpy OPT_SIZE buf = bytes_of_string op @ replicate (OPT_SIZE - length op) 0"
    by (simp add: c_strncpy_def Let_def bytes_of_string_def)
  with assms(1) show ?thesis
    by (auto simp: operation_is_def op_name_def c_string_replicate_zero)
qed

section \<open>The timer's decoding\<close>

datatype timer_request =
    Stop
  | Start int "byte list"
  | Cancel int
  | Ignored

definition decode_request :: "byte list \<Rightarrow> timer_request" where
  "decode_request buf =
    (if operation_is ''stop'' buf then Stop
     else if operation_is ''start'' buf then Start (message_id buf) (message_interval buf)
     else if operation_is ''cancel'' buf then Cancel (message_id buf)
     else Ignored)"

lemma op_names: "op_name ''stop''" "op_name ''start''" "op_name ''cancel''" "op_name ''resend''"
  by (simp_all add: op_name_def bytes_of_string_def)

lemma length_char_array [mem_simps]: "length str \<le> n \<Longrightarrow> length (char_array n str) = n"
  by (simp add: char_array_def bytes_of_string_def)

lemma start_fields:
  assumes "length t = 8"
  shows "length (starttimer t ident) = BUFFER_SIZE"
    "get_bytes 0 OPT_SIZE (starttimer t ident) = char_array OPT_SIZE ''start''"
    "get_bytes OPT_SIZE 4 (starttimer t ident) = int_bytes ident"
    "get_bytes (OPT_SIZE + ID_SIZE) 8 (starttimer t ident) = t"
  using assms by (simp_all add: starttimer_def Let_def mem_simps c_strncpy_array op_names)

lemma cancel_fields:
  "length (canceltimer ident) = BUFFER_SIZE"
  "get_bytes 0 OPT_SIZE (canceltimer ident) = char_array OPT_SIZE ''cancel''"
  "get_bytes OPT_SIZE 4 (canceltimer ident) = c_strncpy ID_SIZE (int_bytes ident)"
  by (simp_all add: canceltimer_def Let_def mem_simps c_strncpy_array op_names)

lemma stop_fields:
  assumes "length g = BUFFER_SIZE"
  shows "length (stop_timing g) = BUFFER_SIZE"
    "get_bytes 0 OPT_SIZE (stop_timing g) = char_array OPT_SIZE ''stop''"
  using assms by (simp_all add: stop_timing_def mem_simps c_strncpy_array op_names)

lemma resend_fields:
  "length (resend_message ident) = BUFFER_SIZE"
  "get_bytes 0 OPT_SIZE (resend_message ident) = char_array OPT_SIZE ''resend''"
  "get_bytes OPT_SIZE 4 (resend_message ident) = int_bytes ident"
  by (simp_all add: resend_message_def Let_def mem_simps c_strncpy_array op_names)

lemmas operation_simps =
  operation_is_array [OF op_names(1) stop_fields]
  operation_is_array [OF op_names(2) start_fields(1,2)]
  operation_is_array [OF op_names(3) cancel_fields(1,2)]
  operation_is_array [OF op_names(4) resend_fields(1,2)]

lemma decode_starttimer:
  assumes "length t = 8" and "is_int32 ident"
  shows "decode_request (starttimer t ident) = Start ident t"
  using assms
  by (simp add: decode_request_def operation_simps bytes_of_string_def message_id_def
      message_interval_def start_fields start_fields(4) [simplified] int_of_bytes_int_bytes)

lemma decode_canceltimer:
  "decode_request (canceltimer ident) = Cancel (int_of_bytes (c_strncpy ID_SIZE (int_bytes ident)))"
  by (simp add: decode_request_def operation_simps bytes_of_string_def message_id_def cancel_fields)

lemma decode_stop: "length g = BUFFER_SIZE \<Longrightarrow> decode_request (stop_timing g) = Stop"
  by (simp add: decode_request_def operation_simps)

lemma resend_request:
  "operation_is ''resend'' (resend_message ident)"
  "is_int32 ident \<Longrightarrow> message_id (resend_message ident) = ident"
  by (simp_all add: operation_simps message_id_def resend_fields int_of_bytes_int_bytes)

text \<open>The number that survives \<open>strncpy\<close>: exact below 256, zero if the low byte is zero.\<close>

lemma le_bytes_u32: "le_bytes 4 (w :: u32) =
    [ucast w, ucast (drop_bit 8 w), ucast (drop_bit 16 w), ucast (drop_bit 24 w)]"
  by (simp add: numeral_eq_Suc)

lemma byte_of_zero_high:
  assumes "0 \<le> x" and "x < 256" and "8 \<le> k"
  shows "drop_bit k (word_of_int x :: u32) = 0"
proof -
  have u: "uint (word_of_int x :: u32) = x"
    using assms by (simp add: uint_word_of_int_eq take_bit_int_eq_self)
  have "x < 2 ^ k"
    using assms(2) power_increasing [OF assms(3), of "2 :: int"] by simp
  then have "x div 2 ^ k = 0"
    using assms(1) by simp
  then show ?thesis
    by (intro word_uint_eqI) (simp add: uint_drop_bit_u32 u)
qed

lemma strncpy_small:
  assumes "0 \<le> x" and "x < 256"
  shows "c_strncpy ID_SIZE (int_bytes x) = int_bytes x"
proof -
  have "ucast (drop_bit k (word_of_int x :: u32)) = (0 :: byte)" if "8 \<le> k" for k
    using byte_of_zero_high [OF assms that] by simp
  then have "int_bytes x = [ucast (word_of_int x :: u32), 0, 0, 0]"
    by (simp add: int_bytes_def le_bytes_u32)
  then show ?thesis
    by (simp add: c_strncpy_def c_string_def Let_def numeral_eq_Suc)
qed

lemma strncpy_low_byte_zero:
  assumes "ucast (word_of_int x :: u32) = (0 :: byte)"
  shows "c_strncpy ID_SIZE (int_bytes x) = int_bytes 0"
  using assms by (simp add: int_bytes_def le_bytes_u32 c_strncpy_def c_string_def Let_def numeral_eq_Suc)

section \<open>The protocol of the two pipes\<close>

text \<open>
  What driver and timer need of their messages: a request to start or to cancel says so with
  its number and interval, and the number of a request to send again can be read.
\<close>

definition request_effect :: "timer_request \<Rightarrow> int set \<Rightarrow> int set" where
  "request_effect r D = (case r of Start i t \<Rightarrow> insert i D | Cancel i \<Rightarrow> D - {i} | _ \<Rightarrow> D)"

locale timer_protocol =
  fixes number_wf :: "int \<Rightarrow> bool"
    and interval_wf :: "byte list \<Rightarrow> bool"
    and start_msg :: "byte list \<Rightarrow> int \<Rightarrow> 'm"
    and cancel_msg :: "int \<Rightarrow> 'm"
    and resend_msg :: "int \<Rightarrow> 'r"
    and decode :: "'m \<Rightarrow> timer_request"
    and asked :: "'r \<Rightarrow> int"
  assumes decode_start: "number_wf n \<Longrightarrow> interval_wf t \<Longrightarrow> decode (start_msg t n) = Start n t"
    and decode_cancel: "number_wf n \<Longrightarrow> decode (cancel_msg n) = Cancel n"
    and asked_resend: "number_wf n \<Longrightarrow> asked (resend_msg n) = n"
begin

lemma resend_inj: "number_wf j \<Longrightarrow> number_wf k \<Longrightarrow> resend_msg j = resend_msg k \<Longrightarrow> j = k"
  using asked_resend by metis

lemma start_runs: "number_wf n \<Longrightarrow> interval_wf t \<Longrightarrow> request_effect (decode (start_msg t n)) D = insert n D"
  by (simp add: decode_start request_effect_def)

lemma cancel_stops: "number_wf n \<Longrightarrow> request_effect (decode (cancel_msg n)) D = D - {n}"
  by (simp add: decode_cancel request_effect_def)

text \<open>Whether a timer runs in the end depends only on whether it runs at the start.\<close>

lemma request_other: "n \<in> request_effect r X \<Longrightarrow> n \<in> request_effect r Y \<or> n \<in> X - Y"
  by (cases r) (auto simp: request_effect_def)

lemma requests_other:
  "n \<in> fold (\<lambda>m. request_effect (decode m)) q X \<Longrightarrow>
    n \<in> fold (\<lambda>m. request_effect (decode m)) q Y \<or> n \<in> X - Y"
proof (induction q arbitrary: X Y)
  case (Cons m q)
  then have "n \<in> fold (\<lambda>m. request_effect (decode m)) q (request_effect (decode m) Y) \<or>
      n \<in> request_effect (decode m) X - request_effect (decode m) Y"
    by simp
  then show ?case
    using request_other [of n "decode m" X Y] by auto
qed simp

end

text \<open>Every frame number is below 256, where \<open>strncpy\<close> does no harm.\<close>

interpretation pipe: timer_protocol "\<lambda>n. 0 \<le> n \<and> n < 256" "\<lambda>t. length t = 8"
  starttimer canceltimer resend_message decode_request message_id
  by unfold_locales
    (simp_all add: decode_starttimer decode_canceltimer strncpy_small int_of_bytes_int_bytes resend_request is_int32_def)

section \<open>Properties\<close>

text \<open>
  C28: What the driver and the timer write to each other: the requests to start a timer and to
  stop, and the request to send a frame again, are decoded as they were meant, for every
  number. \<open>canceltimer\<close> copies the number with \<open>strncpy\<close>, so that what arrives is the number
  up to its first zero byte: it is the right one from 0 to 255, in particular for every frame,
  while a number whose low byte is zero cancels the timer of frame 0.
\<close>

theorem messages_roundtrip:
  assumes "is_int32 ident" and "length time_interval = 8" and "length bufout = BUFFER_SIZE"
  shows "decode_request (starttimer time_interval ident) = Start ident time_interval \<and>
    decode_request (stop_timing bufout) = Stop \<and>
    operation_is ''resend'' (resend_message ident) \<and> message_id (resend_message ident) = ident \<and>
    decode_request (canceltimer ident) = Cancel (int_of_bytes (c_strncpy ID_SIZE (int_bytes ident))) \<and>
    (0 \<le> ident \<and> ident < 256 \<longrightarrow> decode_request (canceltimer ident) = Cancel ident) \<and>
    (ucast (word_of_int ident :: u32) = (0 :: byte) \<longrightarrow> decode_request (canceltimer ident) = Cancel 0)"
  using assms
  by (simp add: decode_starttimer decode_stop resend_request decode_canceltimer strncpy_small
      strncpy_low_byte_zero int_of_bytes_int_bytes is_int32_def)

theorem messages_roundtrip_witness:
  "decode_request (starttimer [0, 0, 0, 0, 0, 0, 0xF0, 0x3F] 63) = Start 63 [0, 0, 0, 0, 0, 0, 0xF0, 0x3F] \<and>
    decode_request (stop_timing (replicate BUFFER_SIZE 7)) = Stop \<and>
    operation_is ''resend'' (resend_message 63) \<and> message_id (resend_message 63) = 63 \<and>
    decode_request (canceltimer 63) = Cancel 63 \<and> decode_request (canceltimer 0x1200) = Cancel 0"
proof -
  have l: "length [0, 0, 0, 0, 0, 0, 0xF0, 0x3F :: byte] = 8" "length (replicate BUFFER_SIZE 7 :: byte list) = BUFFER_SIZE"
    by simp_all
  have "is_int32 63" "is_int32 0x1200"
    by (simp_all add: is_int32_def)
  from messages_roundtrip [OF this(1) l] messages_roundtrip [OF this(2) l] show ?thesis
    by (auto simp only:) simp_all
qed

end
