(* ===== verification/Sender.thy ===== *)
theory Sender
  imports Receiver Rtt Messages
begin

text \<open>
  The sending side of \<open>project1/tcpd.c\<close>: the driver process of \<open>client\<close>. The buffer
  \<open>sendbuf\<close> has 64 blocks; \<open>lar\<close> is the last acknowledgement received, \<open>lfs\<close> the last frame
  sent, \<open>bufpos\<close> the block to be filled next. One iteration of the driver's loop,
  \<open>driver_step\<close>, serves a resend request of the timer, a block from the application and an
  acknowledgement, whichever are ready, and then sends one frame if the window allows. What
  the driver sends to the network and writes to the timer is its output; what it sent
  before an \<open>exit\<close> is not recorded.
\<close>

lemma bindE_cong [fundef_cong]:
  "m = m' \<Longrightarrow> (\<And>x. m' = Inr x \<Longrightarrow> f x = f' x) \<Longrightarrow> bindE m f = bindE m' f'"
  by (cases m') simp_all

section \<open>The code\<close>

datatype driver_out =
    Packet_out "byte list"    \<comment> \<open>a packet for the troll\<close>
  | Start_timer u32 int       \<comment> \<open>\<open>starttimer\<close>: the timeout in microseconds and the frame\<close>
  | Cancel_timer int          \<comment> \<open>\<open>canceltimer\<close>: the frame\<close>

record driver_state =
  sendbuf :: "byte list list"
  lar :: int
  lfs :: int
  bufpos :: int
  packet :: "byte list"
  bufin :: "byte list"
  tp :: tcp_sock
  rtt :: u32
  rto :: u32

text \<open>
  The block of a frame to be sent again, at the offset \<open>seq * BUFFSIZE\<close>, which is computed
  in 32-bit unsigned arithmetic because \<open>seq\<close> is.
\<close>

definition read_sendbuf :: "byte list list \<Rightarrow> int \<Rightarrow> fault + byte list" where
  "read_sendbuf bs seq =
    (let off = unat ((word_of_int seq :: u32) * 1000)
     in if off + BUFFSIZE \<le> BUFFSIZE * length bs then Inr (get_bytes off BUFFSIZE (concat bs))
        else Inl OutOfBounds)"

text \<open>
  The transmission of a frame, which the resending and the sending branch share: a new
  timeout from the last round-trip time, the packet, and a timer for it.
\<close>

definition transmit ::
  "(byte list \<Rightarrow> bool) \<Rightarrow> timeval \<Rightarrow> int \<Rightarrow> byte list \<Rightarrow> driver_state \<Rightarrow>
    fault + (driver_state \<times> driver_out list)"
where
  "transmit sent now seq body s =
    (let pkt = fill_packet (packet s) seq body now;
         tp' = tcp_rtt_estimator (tp s) (rtt s);
         rto' = tcp_set_rto tp'
     in if sent pkt then
          Inr (s\<lparr>packet := pkt, tp := tp', rto := rto'\<rparr>, [Packet_out pkt, Start_timer rto' seq])
        else Inl (Exit 1))"

text \<open>A message of the timer, read into \<open>bufin\<close>.\<close>

definition resend_step ::
  "(byte list \<Rightarrow> bool) \<Rightarrow> timeval \<Rightarrow> byte list \<Rightarrow> driver_state \<Rightarrow> fault + (driver_state \<times> driver_out list)"
where
  "resend_step sent now msg s =
    (let s = s\<lparr>bufin := put_bytes 0 (take BUFFER_SIZE msg) (bufin s)\<rparr>;
         resend_id = message_id (bufin s)
     in if operation_is ''resend'' (bufin s) then bindE (read_sendbuf (sendbuf s) resend_id) (\<lambda>body.
               bindE (transmit sent now resend_id body s) (\<lambda>(s, out).
                 Inr (s\<lparr>packet := clear_packet (packet s)\<rparr>, out)))
        else Inr (s, []))"

text \<open>A block from the application is taken if the block at \<open>bufpos\<close> is outside the window.\<close>

definition can_store :: "driver_state \<Rightarrow> bool" where
  "can_store s \<longleftrightarrow>
    (lfs s \<ge> lar s \<and> (bufpos s > lfs s \<or> bufpos s \<le> lar s)) \<or>
    (lfs s < lar s \<and> bufpos s \<le> lar s \<and> bufpos s > lfs s)"

definition ftpc_step :: "byte list option \<Rightarrow> driver_state \<Rightarrow> fault + driver_state" where
  "ftpc_step received s =
    (if can_store s then
       (case received of
          None \<Rightarrow> Inl (Exit 1)
        | Some d \<Rightarrow>
            bindE (read_block (sendbuf s) (bufpos s)) (\<lambda>old.
              bindE (write_block (sendbuf s) (bufpos s) (put_bytes 0 (take BUFFSIZE d) old)) (\<lambda>bs.
                let bufpos' = bufpos s + 1;
                    bufpos' = (if bufpos' = SEND_RECV_BUF_SIZE then 0 else bufpos')
                in Inr (s\<lparr>sendbuf := bs, bufpos := bufpos'\<rparr>))))
     else Inr s)"

text \<open>
  The search for the first block that is not acknowledged yet. The condition of its loop is
  written \<open>i<=(lfs>=lar)?lfs:SEND_RECV_BUF_SIZE-1\<close>, which C reads as
  \<open>(i<=(lfs>=lar)) ? lfs : SEND_RECV_BUF_SIZE-1\<close>: \<open>i\<close> is compared with a truth value, and
  the number that is selected is the condition.
\<close>

definition scan_condition :: "int \<Rightarrow> int \<Rightarrow> int \<Rightarrow> bool" where
  "scan_condition ar fs i \<longleftrightarrow>
    (if i \<le> (if fs \<ge> ar then 1 else 0) then fs else SEND_RECV_BUF_SIZE - 1) \<noteq> 0"

function ack_scan :: "byte list list \<Rightarrow> int \<Rightarrow> int \<Rightarrow> int \<Rightarrow> fault + int" where
  "ack_scan bs ar fs i =
    (if scan_condition ar fs i then
       bindE (read_block bs i) (\<lambda>b. if checkEmpty b then ack_scan bs ar fs (i + 1) else Inr i)
     else Inr i)"
  by pat_completeness auto
termination
  by (relation "measure (\<lambda>(bs, ar, fs, i). nat (int (length bs) - i))")
    (auto simp: read_block_def split: if_splits)

declare ack_scan.simps [simp del]

text \<open>The search from the start of the buffer, after the first one has reached its end.\<close>

function wrap_scan :: "byte list list \<Rightarrow> int \<Rightarrow> int \<Rightarrow> fault + int" where
  "wrap_scan bs fs i =
    (if i \<le> fs then
       bindE (read_block bs i) (\<lambda>b. if checkEmpty b then wrap_scan bs fs (i + 1) else Inr i)
     else Inr i)"
  by pat_completeness auto
termination
  by (relation "measure (\<lambda>(bs, fs, i). nat (fs + 1 - i))") auto

declare wrap_scan.simps [simp del]

definition update_lar :: "driver_state \<Rightarrow> fault + driver_state" where
  "update_lar s =
    bindE (ack_scan (sendbuf s) (lar s) (lfs s) (lar s + 1)) (\<lambda>i.
      let s = s\<lparr>lar := i - 1\<rparr>
      in if i = SEND_RECV_BUF_SIZE then
           bindE (wrap_scan (sendbuf s) (lfs s) 0) (\<lambda>i.
             Inr (if i \<noteq> 0 then s\<lparr>lar := i - 1\<rparr> else s))
         else Inr s)"

text \<open>An acknowledgement: its block is zeroed wherever \<open>ack\<close> points.\<close>

definition ack_step ::
  "timeval \<Rightarrow> byte list option \<Rightarrow> driver_state \<Rightarrow> fault + (driver_state \<times> driver_out list)"
where
  "ack_step recv_time received s =
    (case received of
       None \<Rightarrow> Inl (Exit 1)
     | Some d \<Rightarrow>
         if length d < header_size then Inl (Exit 1)
         else
           let ackbuf = take header_size d
           in if ack_ok ackbuf then
                let ack = ack_number ackbuf;
                    s = s\<lparr>rtt := calculate_rtt recv_time (ack_time ackbuf)\<rparr>
                in bindE (write_block (sendbuf s) ack zero_block) (\<lambda>bs.
                     bindE (update_lar (s\<lparr>sendbuf := bs\<rparr>)) (\<lambda>s. Inr (s, [Cancel_timer ack])))
              else Inr (s, []))"

definition can_send :: "driver_state \<Rightarrow> bool" where
  "can_send s \<longleftrightarrow>
    (lfs s \<ge> lar s \<and> lfs s - lar s < WINDOW \<and> (lfs s + 1 < bufpos s \<or> bufpos s \<le> lar s)) \<or>
    (lfs s < lar s \<and> 63 - lar s + lfs s < WINDOW \<and> lfs s + 1 < bufpos s)"

definition send_next ::
  "(byte list \<Rightarrow> bool) \<Rightarrow> timeval \<Rightarrow> driver_state \<Rightarrow> fault + (driver_state \<times> driver_out list)"
where
  "send_next sent now s =
    (if can_send s then
       bindE (read_block (sendbuf s) (lfs s + 1)) (\<lambda>body.
         bindE (transmit sent now (lfs s + 1) body s) (\<lambda>(s, out).
           let lfs' = lfs s + 1;
               lfs' = (if lfs' = SEND_RECV_BUF_SIZE - 1 then -1 else lfs')
           in Inr (s\<lparr>lfs := lfs'\<rparr>, out)))
     else Inr (s, []))"

text \<open>
  What one iteration finds: the result of \<open>select\<close>, the descriptors that are ready with what
  the read returns (\<open>None\<close> inside is a failing \<open>recvfrom\<close>), the clock in each branch, and
  the calls of \<open>sendto\<close> that succeed.
\<close>

record driver_input =
  selected :: bool
  from_timer :: "byte list option"
  from_ftpc :: "byte list option option"
  from_troll :: "byte list option option"
  clock_resend :: timeval
  clock_ack :: timeval
  clock_send :: timeval
  sending :: "byte list \<Rightarrow> bool"

definition driver_step :: "driver_input \<Rightarrow> driver_state \<Rightarrow> fault + (driver_state \<times> driver_out list)" where
  "driver_step i s =
    (if \<not> selected i then Inl (Exit 1)
     else
       bindE (case from_timer i of None \<Rightarrow> Inr (s, [])
              | Some msg \<Rightarrow> resend_step (sending i) (clock_resend i) msg s) (\<lambda>(s, out1).
       bindE (case from_ftpc i of None \<Rightarrow> Inr s | Some r \<Rightarrow> ftpc_step r s) (\<lambda>s.
       bindE (case from_troll i of None \<Rightarrow> Inr (s, []) | Some r \<Rightarrow> ack_step (clock_ack i) r s) (\<lambda>(s, out2).
       bindE (send_next (sending i) (clock_send i) s) (\<lambda>(s, out3).
         Inr (s\<lparr>packet := clear_packet (packet s)\<rparr>, out1 @ out2 @ out3))))))"

text \<open>
  The state before the loop. The buffers are not initialised: \<open>sendbuf\<close>, \<open>bufin\<close> and the
  header of the packet are arguments; its check field and its body are zeroed.
\<close>

definition driver_init :: "byte list list \<Rightarrow> byte list \<Rightarrow> byte list \<Rightarrow> driver_state" where
  "driver_init bs p b =
    \<lparr>sendbuf = bs, lar = -1, lfs = -1, bufpos = 0,
     packet = zero_bytes 56 BUFFSIZE (zero_bytes 32 2 p), bufin = b,
     tp = init, rtt = 0, rto = TCP_RTO_MIN\<rparr>"

fun driver_run :: "driver_input list \<Rightarrow> driver_state \<Rightarrow> fault + (driver_state \<times> driver_out list)" where
  "driver_run [] s = Inr (s, [])"
| "driver_run (i # rest) s =
    bindE (driver_step i s) (\<lambda>(s, out).
      bindE (driver_run rest s) (\<lambda>(s, out'). Inr (s, out @ out')))"

section \<open>The search for the window\<close>

lemma scan_condition_iff: "scan_condition ar fs i \<longleftrightarrow> fs \<noteq> 0 \<or> i > (if fs \<ge> ar then 1 else 0)"
  by (simp add: scan_condition_def)

text \<open>
  Where the search ends: at the first filled block, except that with \<open>lfs = 0\<close> it ends at
  once while \<open>i\<close> is not above the truth value it is compared with.
\<close>

lemma ack_scan_sound:
  assumes "ack_scan bs ar fs i = Inr j"
  shows "i \<le> j \<and> (\<forall>k. i \<le> k \<and> k < j \<longrightarrow> checkEmpty (bs ! nat k)) \<and>
    (if scan_condition ar fs j then 0 \<le> j \<and> j < int (length bs) \<and> filled (bs ! nat j) else True)"
  using assms
proof (induction bs ar fs i rule: ack_scan.induct)
  case (1 bs ar fs i)
  show ?case
  proof (cases "scan_condition ar fs i")
    case False
    with "1.prems" have "j = i"
      by (simp add: ack_scan.simps [of bs ar fs i])
    with False show ?thesis by auto
  next
    case True
    then obtain b where b: "read_block bs i = Inr b"
      "(if checkEmpty b then ack_scan bs ar fs (i + 1) else Inr i) = Inr j"
      using "1.prems" by (auto simp: ack_scan.simps [of bs ar fs i] bindE_eq_Inr)
    then have nth: "0 \<le> i" "i < int (length bs)" "b = bs ! nat i"
      by (auto simp: read_block_def split: if_splits)
    show ?thesis
    proof (cases "checkEmpty b")
      case False
      with b nth show ?thesis by auto
    next
      case True
      with "1.IH" [OF \<open>scan_condition ar fs i\<close> b(1)] b(2)
      have IH: "i + 1 \<le> j" "\<forall>k. i + 1 \<le> k \<and> k < j \<longrightarrow> checkEmpty (bs ! nat k)"
        "if scan_condition ar fs j then 0 \<le> j \<and> j < int (length bs) \<and> filled (bs ! nat j) else True"
        by simp_all
      have "checkEmpty (bs ! nat k)" if "i \<le> k" "k < j" for k
        using that IH(2) True nth(3) by (cases "k = i") auto
      with IH show ?thesis by auto
    qed
  qed
qed

text \<open>If a filled block lies ahead and \<open>lfs\<close> is not 0, the search finds the first one.\<close>

lemma ack_scan_finds:
  assumes "fs \<noteq> 0" and "0 \<le> i" and "i \<le> j" and "j < int (length bs)"
    and "\<forall>k. i \<le> k \<and> k < j \<longrightarrow> checkEmpty (bs ! nat k)" and "filled (bs ! nat j)"
  shows "ack_scan bs ar fs i = Inr j"
  using assms
proof (induction bs ar fs i rule: ack_scan.induct)
  case (1 bs ar fs i)
  have c: "scan_condition ar fs i" and rd: "read_block bs i = Inr (bs ! nat i)"
    using "1.prems" by (simp_all add: scan_condition_iff)
  have step: "ack_scan bs ar fs i = (if checkEmpty (bs ! nat i) then ack_scan bs ar fs (i + 1) else Inr i)"
    using c rd by (simp add: ack_scan.simps [of bs ar fs i])
  show ?case
  proof (cases "i = j")
    case True
    with "1.prems"(6) step show ?thesis
      by simp
  next
    case False
    then have "checkEmpty (bs ! nat i)"
      using "1.prems" by simp
    with "1.IH" [OF c rd this] "1.prems" False step show ?thesis
      by simp
  qed
qed

text \<open>If no filled block lies ahead, it runs past the end of the buffer.\<close>

lemma ack_scan_overrun:
  assumes "fs \<noteq> 0 \<or> 1 < i" and "0 \<le> i" and "\<forall>k. i \<le> k \<and> k < int (length bs) \<longrightarrow> checkEmpty (bs ! nat k)"
  shows "ack_scan bs ar fs i = Inl OutOfBounds"
  using assms
proof (induction bs ar fs i rule: ack_scan.induct)
  case (1 bs ar fs i)
  have c: "scan_condition ar fs i"
    using "1.prems"(1) by (auto simp: scan_condition_iff)
  show ?case
  proof (cases "i < int (length bs)")
    case False
    with c show ?thesis
      by (simp add: ack_scan.simps [of bs ar fs i] read_block_def)
  next
    case True
    then have rd: "read_block bs i = Inr (bs ! nat i)" "checkEmpty (bs ! nat i)"
      using "1.prems" by simp_all
    have "fs \<noteq> 0 \<or> 1 < i + 1"
      using "1.prems"(1) by auto
    from "1.IH" [OF c rd this] "1.prems" have "ack_scan bs ar fs (i + 1) = Inl OutOfBounds"
      by simp
    with rd c show ?thesis
      by (simp add: ack_scan.simps [of bs ar fs i])
  qed
qed

lemma update_lar_sound:
  assumes "update_lar s = Inr s'" and "length (sendbuf s) = 64" and "-1 \<le> lar s" and "lar s \<le> 62"
  shows "\<exists>r. s' = s\<lparr>lar := r\<rparr> \<and> lar s \<le> r \<and> r \<le> 62 \<and>
    (\<forall>k. lar s < k \<and> k \<le> r \<longrightarrow> checkEmpty (sendbuf s ! nat k)) \<and>
    (lfs s \<noteq> 0 \<longrightarrow> filled (sendbuf s ! nat (r + 1)))"
proof -
  obtain j where j: "ack_scan (sendbuf s) (lar s) (lfs s) (lar s + 1) = Inr j"
    using assms(1) by (auto simp: update_lar_def bindE_eq_Inr)
  note sound = ack_scan_sound [OF j]
  have "j \<noteq> 64"
    using sound assms(2) by (auto simp: scan_condition_iff split: if_splits)
  then have s': "s' = s\<lparr>lar := j - 1\<rparr>"
    using assms(1) j by (simp add: update_lar_def)
  have "j \<le> 63"
    using sound assms(2) by (auto simp: scan_condition_iff split: if_splits)
  moreover have "filled (sendbuf s ! nat j)" if "lfs s \<noteq> 0"
    using sound that by (auto simp: scan_condition_iff)
  ultimately show ?thesis
    using sound s' by (intro exI [of _ "j - 1"]) auto
qed

section \<open>Reading blocks out of the flat buffer\<close>

lemma length_concat_blocks: "(\<forall>b \<in> set bs. length b = n) \<Longrightarrow> length (concat bs) = n * length bs"
  by (induction bs) auto

lemma drop_concat_blocks:
  "(\<forall>b \<in> set bs. length b = n) \<Longrightarrow> drop (n * k) (concat bs) = concat (drop k bs)"
proof (induction bs arbitrary: k)
  case Nil
  then show ?case by simp
next
  case (Cons b bs)
  then show ?case
    by (cases k) (simp_all add: drop_append)
qed

lemma get_concat_block:
  assumes "\<forall>b \<in> set bs. length b = n" and "k < length bs"
  shows "get_bytes (n * k) n (concat bs) = bs ! k"
proof -
  have "drop k bs = bs ! k # drop (Suc k) bs"
    using assms(2) by (rule Cons_nth_drop_Suc [symmetric])
  with assms show ?thesis
    by (simp add: get_bytes_def drop_concat_blocks)
qed

lemma read_sendbuf_index:
  assumes "blocks_ok bs" and "0 \<le> q" and "q < 64"
  shows "read_sendbuf bs q = Inr (bs ! nat q)"
proof -
  have "uint (word_of_int q :: u32) = q"
    using assms(2,3) by (simp add: uint_word_of_int_eq take_bit_int_eq_self)
  then have "unat (word_of_int q :: u32) = nat q"
    by (simp add: unat_eq_nat_uint del: uint_word_of_int)
  then have "unat ((word_of_int q :: u32) * 1000) = nat q * 1000"
    using assms(2,3) by (subst unat_mult_lem [THEN iffD1]) auto
  then show ?thesis
    using assms get_concat_block [of bs BUFFSIZE "nat q"]
    by (auto simp: read_sendbuf_def blocks_ok_def mult.commute Let_def)
qed

lemma read_sendbuf_length:
  assumes "blocks_ok bs" and "read_sendbuf bs q = Inr b"
  shows "length b = BUFFSIZE"
  using assms length_concat_blocks [of bs BUFFSIZE]
  by (auto simp: read_sendbuf_def blocks_ok_def Let_def length_get_bytes split: if_splits)

section \<open>The invariant of the driver\<close>

definition driver_inv :: "driver_state \<Rightarrow> bool" where
  "driver_inv s \<longleftrightarrow> blocks_ok (sendbuf s) \<and> -1 \<le> lar s \<and> lar s \<le> 62 \<and> -1 \<le> lfs s \<and> lfs s \<le> 62 \<and>
    0 \<le> bufpos s \<and> bufpos s \<le> 63 \<and> packet_ready (packet s) \<and> length (bufin s) = BUFFER_SIZE"

lemma driver_invD:
  assumes "driver_inv s"
  shows "blocks_ok (sendbuf s)" "length (sendbuf s) = 64" "-1 \<le> lar s" "lar s \<le> 62"
    "-1 \<le> lfs s" "lfs s \<le> 62" "0 \<le> bufpos s" "bufpos s \<le> 63" "packet_ready (packet s)"
    "length (packet s) = packet_size" "length (bufin s) = BUFFER_SIZE"
  using assms by (simp_all add: driver_inv_def blocks_ok_def packet_ready_def)

lemma packet_ready_init:
  "length p = packet_size \<Longrightarrow> packet_ready (zero_bytes 56 BUFFSIZE (zero_bytes 32 2 p))"
  by (simp add: packet_ready_def mem_simps)
    (simp add: zero_bytes_def mem_simps numeral_2_eq_2)

lemma driver_inv_init:
  "blocks_ok bs \<Longrightarrow> length p = packet_size \<Longrightarrow> length b = BUFFER_SIZE \<Longrightarrow> driver_inv (driver_init bs p b)"
  by (simp add: driver_inv_def driver_init_def packet_ready_init)

lemma blocks_ok_update: "blocks_ok bs \<Longrightarrow> length b = BUFFSIZE \<Longrightarrow> blocks_ok (bs[k := b])"
  unfolding blocks_ok_def using set_update_subset_insert by fastforce

lemma blocks_ok_nth: "blocks_ok bs \<Longrightarrow> 0 \<le> i \<Longrightarrow> i < 64 \<Longrightarrow> length (bs ! nat i) = BUFFSIZE"
  by (simp add: blocks_ok_def)

text \<open>What each branch of the loop changes, and that it keeps the invariant.\<close>

lemma transmit_result:
  "transmit sent now seq body s = Inr (s', out) \<longleftrightarrow>
    sent (fill_packet (packet s) seq body now) \<and>
    s' = s\<lparr>packet := fill_packet (packet s) seq body now, tp := tcp_rtt_estimator (tp s) (rtt s),
      rto := tcp_set_rto (tcp_rtt_estimator (tp s) (rtt s))\<rparr> \<and>
    out = [Packet_out (fill_packet (packet s) seq body now),
      Start_timer (tcp_set_rto (tcp_rtt_estimator (tp s) (rtt s))) seq]"
  by (auto simp: transmit_def Let_def)

lemma resend_step_frame:
  assumes "driver_inv s" and "resend_step sent now msg s = Inr (s', out)"
  shows "driver_inv s' \<and> sendbuf s' = sendbuf s \<and> lar s' = lar s \<and> lfs s' = lfs s \<and> bufpos s' = bufpos s"
proof -
  note s = driver_invD [OF assms(1)]
  define t where "t = s\<lparr>bufin := put_bytes 0 (take BUFFER_SIZE msg) (bufin s)\<rparr>"
  have t: "driver_inv t"
    using assms(1) s(11) by (simp add: driver_inv_def t_def length_put_bytes)
  show ?thesis
  proof (cases "s' = t")
    case True
    with t show ?thesis by (simp add: t_def)
  next
    case False
    then obtain q body u where u: "read_sendbuf (sendbuf s) q = Inr body"
      "transmit sent now q body t = Inr (u, out)" "s' = u\<lparr>packet := clear_packet (packet u)\<rparr>"
      using assms(2) by (auto simp: resend_step_def Let_def t_def [symmetric] bindE_eq_Inr split: if_splits)
        (auto simp: t_def)
    have "length (packet u) = packet_size"
      using u(2) s(10) read_sendbuf_length [OF s(1) u(1)] by (auto simp: transmit_result t_def)
    with u t show ?thesis
      by (auto simp: driver_inv_def transmit_result packet_ready_clear t_def)
  qed
qed

lemma ftpc_step_frame:
  assumes "driver_inv s" and "ftpc_step r s = Inr s'"
  shows "driver_inv s' \<and> lar s' = lar s \<and> lfs s' = lfs s \<and> packet s' = packet s"
proof (cases "can_store s")
  case False
  with assms show ?thesis by (auto simp: ftpc_step_def)
next
  case True
  note s = driver_invD [OF assms(1)]
  have b: "read_block (sendbuf s) (bufpos s) = Inr (sendbuf s ! nat (bufpos s))"
    "write_block (sendbuf s) (bufpos s) b = Inr ((sendbuf s)[nat (bufpos s) := b])" for b
    using s by simp_all
  obtain d where "r = Some d"
    using assms(2) True by (cases r) (simp_all add: ftpc_step_def)
  then have s': "s' = s\<lparr>sendbuf := (sendbuf s)[nat (bufpos s) := put_bytes 0 (take BUFFSIZE d) (sendbuf s ! nat (bufpos s))],
      bufpos := (if bufpos s + 1 = 64 then 0 else bufpos s + 1)\<rparr>"
    using assms(2) True b by (simp add: ftpc_step_def Let_def)
  have "length (put_bytes 0 (take BUFFSIZE d) (sendbuf s ! nat (bufpos s))) = BUFFSIZE"
    using s blocks_ok_nth [of "sendbuf s" "bufpos s"] by (simp add: length_put_bytes)
  with s assms(1) show ?thesis
    unfolding s' by (auto simp: driver_inv_def blocks_ok_update)
qed

lemma ack_step_result:
  assumes "ack_step t r s = Inr (s', out)"
  shows "s' = s \<and> out = [] \<or>
    (\<exists>d bs. r = Some d \<and> ack_ok (take header_size d) \<and>
      write_block (sendbuf s) (ack_number (take header_size d)) zero_block = Inr bs \<and>
      update_lar (s\<lparr>rtt := calculate_rtt t (ack_time (take header_size d)), sendbuf := bs\<rparr>) = Inr s' \<and>
      out = [Cancel_timer (ack_number (take header_size d))])"
  using assms by (auto simp: ack_step_def Let_def bindE_eq_Inr split: option.splits if_splits)

lemma ack_step_frame:
  assumes "driver_inv s" and "ack_step t r s = Inr (s', out)"
  shows "driver_inv s' \<and> lar s \<le> lar s' \<and> lfs s' = lfs s \<and> bufpos s' = bufpos s \<and> packet s' = packet s"
  using ack_step_result [OF assms(2)]
proof
  assume "s' = s \<and> out = []"
  with assms(1) show ?thesis by simp
next
  assume "\<exists>d bs. r = Some d \<and> ack_ok (take header_size d) \<and>
      write_block (sendbuf s) (ack_number (take header_size d)) zero_block = Inr bs \<and>
      update_lar (s\<lparr>rtt := calculate_rtt t (ack_time (take header_size d)), sendbuf := bs\<rparr>) = Inr s' \<and>
      out = [Cancel_timer (ack_number (take header_size d))]"
  then obtain rt q bs where q: "write_block (sendbuf s) q zero_block = Inr bs"
    "update_lar (s\<lparr>rtt := rt, sendbuf := bs\<rparr>) = Inr s'"
    by blast
  note s = driver_invD [OF assms(1)]
  have bs: "blocks_ok bs"
    using q(1) s(1) by (auto simp: write_block_def blocks_ok_update split: if_splits)
  then have "length (sendbuf (s\<lparr>rtt := rt, sendbuf := bs\<rparr>)) = 64"
    by (simp add: blocks_ok_def)
  from update_lar_sound [OF q(2) this] s(3,4)
  obtain l where l: "s' = s\<lparr>rtt := rt, sendbuf := bs, lar := l\<rparr>" "lar s \<le> l" "l \<le> 62"
    by auto
  have "driver_inv (s\<lparr>rtt := rt, sendbuf := bs, lar := l\<rparr>)"
    using assms(1) bs l(2,3) by (simp add: driver_inv_def)
  with l show ?thesis by simp
qed

text \<open>The number after a frame sent, in the variable \<open>lfs\<close>: \<open>-1\<close> after frame 63.\<close>

definition next_lfs :: "int \<Rightarrow> int" where
  "next_lfs f = (if f = 62 then -1 else f + 1)"

lemma send_next_result:
  assumes "driver_inv s" and "send_next sent now s = Inr (s', out)"
  shows "if can_send s
    then \<exists>u. transmit sent now (lfs s + 1) (sendbuf s ! nat (lfs s + 1)) s = Inr (u, out) \<and>
      s' = u\<lparr>lfs := next_lfs (lfs s)\<rparr>
    else s' = s \<and> out = []"
proof (cases "can_send s")
  case False
  with assms(2) show ?thesis by (simp add: send_next_def)
next
  case True
  note s = driver_invD [OF assms(1)]
  have "read_block (sendbuf s) (lfs s + 1) = Inr (sendbuf s ! nat (lfs s + 1))"
    using s by simp
  with assms(2) True obtain u where u:
    "transmit sent now (lfs s + 1) (sendbuf s ! nat (lfs s + 1)) s = Inr (u, out)"
    "s' = u\<lparr>lfs := (if lfs u + 1 = 63 then -1 else lfs u + 1)\<rparr>"
    by (auto simp: send_next_def bindE_eq_Inr Let_def)
  have "lfs u = lfs s"
    using u(1) by (simp add: transmit_result)
  then have "(if lfs u + 1 = 63 then -1 else lfs u + 1) = next_lfs (lfs s)"
    by (simp add: next_lfs_def)
  with True u show ?thesis by auto
qed

lemma send_next_frame:
  assumes "driver_inv s" and "send_next sent now s = Inr (s', out)"
  shows "driver_inv (s'\<lparr>packet := clear_packet (packet s')\<rparr>) \<and> sendbuf s' = sendbuf s \<and>
    lar s' = lar s \<and> bufpos s' = bufpos s \<and>
    (if can_send s then lfs s' = next_lfs (lfs s) else lfs s' = lfs s)"
proof -
  note s = driver_invD [OF assms(1)]
  have b: "length (sendbuf s ! nat (lfs s + 1)) = BUFFSIZE"
    using s by (intro blocks_ok_nth) simp_all
  have clear: "packet_ready (clear_packet (fill_packet (packet s) q body now))" if "length body = BUFFSIZE" for q body
    using that s(10) by (intro packet_ready_clear) simp
  show ?thesis
    using send_next_result [OF assms] assms(1) s clear [OF b]
    by (auto simp: transmit_result driver_inv_def next_lfs_def packet_ready_clear split: if_splits)
qed

text \<open>The four branches of an iteration, one after the other.\<close>

lemma driver_step_split:
  assumes "driver_step i s = Inr (s', out)"
  obtains s1 out1 s2 u out2 v out3 where
    "(case from_timer i of None \<Rightarrow> Inr (s, [])
      | Some msg \<Rightarrow> resend_step (sending i) (clock_resend i) msg s) = Inr (s1, out1)"
    "(case from_ftpc i of None \<Rightarrow> Inr s1 | Some r \<Rightarrow> ftpc_step r s1) = Inr s2"
    "(case from_troll i of None \<Rightarrow> Inr (s2, []) | Some r \<Rightarrow> ack_step (clock_ack i) r s2) = Inr (u, out2)"
    "send_next (sending i) (clock_send i) u = Inr (v, out3)"
    "s' = v\<lparr>packet := clear_packet (packet v)\<rparr>" "out = out1 @ out2 @ out3"
  using assms by (auto simp: driver_step_def bindE_eq_Inr split: if_splits)

text \<open>
  One iteration: the state \<open>u\<close> is the one that the sending branch sees, after the other
  three.
\<close>

lemma driver_step_frame:
  assumes "driver_inv s" and "driver_step i s = Inr (s', out)"
  shows "\<exists>u. driver_inv u \<and> lar s \<le> lar u \<and> lfs u = lfs s \<and>
    driver_inv s' \<and> lar s' = lar u \<and> bufpos s' = bufpos u \<and> sendbuf s' = sendbuf u \<and>
    lfs s' = (if can_send u then next_lfs (lfs s) else lfs s)"
  using assms(2)
proof (rule driver_step_split)
  fix s1 out1 s2 u out2 v out3
  assume 1: "(case from_timer i of None \<Rightarrow> Inr (s, [])
        | Some msg \<Rightarrow> resend_step (sending i) (clock_resend i) msg s) = Inr (s1, out1)"
    and 2: "(case from_ftpc i of None \<Rightarrow> Inr s1 | Some r \<Rightarrow> ftpc_step r s1) = Inr s2"
    and 3: "(case from_troll i of None \<Rightarrow> Inr (s2, []) | Some r \<Rightarrow> ack_step (clock_ack i) r s2) = Inr (u, out2)"
    and 4: "send_next (sending i) (clock_send i) u = Inr (v, out3)"
    and s': "s' = v\<lparr>packet := clear_packet (packet v)\<rparr>"
  have s1: "driver_inv s1" "lar s1 = lar s" "lfs s1 = lfs s"
    using 1 assms(1) resend_step_frame by (auto split: option.splits)
  have s2: "driver_inv s2" "lar s2 = lar s" "lfs s2 = lfs s"
    using 2 s1 ftpc_step_frame by (auto split: option.splits)
  have u: "driver_inv u" "lar s \<le> lar u" "lfs u = lfs s"
    using 3 s2 ack_step_frame [OF s2(1), of "clock_ack i" _ u out2] by (auto split: option.splits)
  then show ?thesis
    using send_next_frame [OF u(1) 4] s' by (intro exI [of _ u]) auto
qed

section \<open>Counting the frames\<close>

text \<open>
  The runs of the driver, with the number of frames sent for the first time: every such
  frame, and nothing else, changes \<open>lfs\<close>.
\<close>

inductive driver_reach :: "driver_state \<Rightarrow> nat \<Rightarrow> bool" where
  start: "blocks_ok bs \<Longrightarrow> length p = packet_size \<Longrightarrow> length b = BUFFER_SIZE \<Longrightarrow>
    driver_reach (driver_init bs p b) 0"
| step: "driver_reach s n \<Longrightarrow> driver_step i s = Inr (s', out) \<Longrightarrow>
    driver_reach s' (if lfs s' = lfs s then n else Suc n)"

inductive_cases driver_reach_step: "driver_reach s n"

lemma driver_reach_inv: "driver_reach s n \<Longrightarrow> driver_inv s"
  by (induction rule: driver_reach.induct) (auto intro: driver_inv_init dest: driver_step_frame)

text \<open>Where \<open>n\<close> frames leave the window.\<close>

definition frames_inv :: "driver_state \<Rightarrow> nat \<Rightarrow> bool" where
  "frames_inv s n \<longleftrightarrow>
    (if n < 64 then lfs s + 1 = int n else lfs s + 1 = int n - 64 \<and> 43 \<le> lar s \<and> n \<le> 84)"

lemma next_lfs_neq: "next_lfs f \<noteq> f"
  by (simp add: next_lfs_def)

lemma frames_inv_step:
  assumes "frames_inv s n" and "driver_inv s" and "driver_step i s = Inr (s', out)"
  shows "frames_inv s' (if lfs s' = lfs s then n else Suc n)"
proof -
  obtain u where u: "driver_inv u" "lar s \<le> lar u" "lfs u = lfs s" "lar s' = lar u"
    "lfs s' = (if can_send u then next_lfs (lfs s) else lfs s)"
    using driver_step_frame [OF assms(2,3)] by blast
  note b = driver_invD [OF u(1)]
  show ?thesis
  proof (cases "can_send u")
    case False
    with u assms(1) show ?thesis
      by (auto simp: frames_inv_def split: if_splits)
  next
    case True
    then have "lfs s' = next_lfs (lfs s)" "lfs s' \<noteq> lfs s"
      using u(5) by (simp_all add: next_lfs_neq)
    with True u b assms(1) show ?thesis
      by (auto simp: frames_inv_def can_send_def next_lfs_def split: if_splits)
  qed
qed

lemma driver_reach_frames: "driver_reach s n \<Longrightarrow> frames_inv s n"
proof (induction rule: driver_reach.induct)
  case (start bs p b)
  then show ?case by (simp add: frames_inv_def driver_init_def)
next
  case (step s n i s' out)
  then show ?case by (blast intro: frames_inv_step driver_reach_inv)
qed

section \<open>The branches on a good input\<close>

text \<open>An acknowledgement whose checksum is right and whose number is the number of a slot.\<close>

definition good_ack :: "byte list \<Rightarrow> int \<Rightarrow> bool" where
  "good_ack d q \<longleftrightarrow> header_size \<le> length d \<and> ack_ok (take header_size d) \<and>
    ack_number (take header_size d) = q \<and> 0 \<le> q \<and> q < 64"

text \<open>The state in which \<open>lar\<close> is about to be updated.\<close>

definition acknowledged :: "timeval \<Rightarrow> byte list \<Rightarrow> int \<Rightarrow> driver_state \<Rightarrow> driver_state" where
  "acknowledged t d q s =
    s\<lparr>rtt := calculate_rtt t (ack_time (take header_size d)), sendbuf := (sendbuf s)[nat q := zero_block]\<rparr>"

lemma acknowledged_simps [simp]:
  "sendbuf (acknowledged t d q s) = (sendbuf s)[nat q := zero_block]"
  "lar (acknowledged t d q s) = lar s" "lfs (acknowledged t d q s) = lfs s"
  "bufpos (acknowledged t d q s) = bufpos s" "packet (acknowledged t d q s) = packet s"
  "bufin (acknowledged t d q s) = bufin s"
  by (simp_all add: acknowledged_def)

lemma ack_step_good:
  assumes "good_ack d q" and "length (sendbuf s) = 64"
  shows "ack_step t (Some d) s = bindE (update_lar (acknowledged t d q s)) (\<lambda>s. Inr (s, [Cancel_timer q]))"
  using assms by (simp add: ack_step_def good_ack_def acknowledged_def Let_def)

lemma transmit_sent:
  assumes "sent (fill_packet (packet s) seq body now)"
  shows "transmit sent now seq body s =
    Inr (s\<lparr>packet := fill_packet (packet s) seq body now, tp := tcp_rtt_estimator (tp s) (rtt s),
        rto := tcp_set_rto (tcp_rtt_estimator (tp s) (rtt s))\<rparr>,
      [Packet_out (fill_packet (packet s) seq body now),
       Start_timer (tcp_set_rto (tcp_rtt_estimator (tp s) (rtt s))) seq])"
  using assms by (simp add: transmit_def Let_def)

lemma send_next_good:
  assumes "driver_inv s" and "can_send s"
    and "sent (fill_packet (packet s) (lfs s + 1) (sendbuf s ! nat (lfs s + 1)) now)"
  shows "send_next sent now s =
    Inr (s\<lparr>packet := fill_packet (packet s) (lfs s + 1) (sendbuf s ! nat (lfs s + 1)) now,
        tp := tcp_rtt_estimator (tp s) (rtt s), rto := tcp_set_rto (tcp_rtt_estimator (tp s) (rtt s)),
        lfs := next_lfs (lfs s)\<rparr>,
      [Packet_out (fill_packet (packet s) (lfs s + 1) (sendbuf s ! nat (lfs s + 1)) now),
       Start_timer (tcp_set_rto (tcp_rtt_estimator (tp s) (rtt s))) (lfs s + 1)])"
  using driver_invD [OF assms(1)] assms(2,3)
  by (auto simp: send_next_def transmit_sent next_lfs_def Let_def)

lemma resend_step_good:
  assumes "driver_inv s" and "0 \<le> q" and "q < 64"
    and "sent (fill_packet (packet s) q (sendbuf s ! nat q) now)"
  shows "resend_step sent now (resend_message q) s =
    Inr (s\<lparr>bufin := resend_message q, packet := clear_packet (fill_packet (packet s) q (sendbuf s ! nat q) now),
        tp := tcp_rtt_estimator (tp s) (rtt s), rto := tcp_set_rto (tcp_rtt_estimator (tp s) (rtt s))\<rparr>,
      [Packet_out (fill_packet (packet s) q (sendbuf s ! nat q) now),
       Start_timer (tcp_set_rto (tcp_rtt_estimator (tp s) (rtt s))) q])"
proof -
  note s = driver_invD [OF assms(1)]
  have "put_bytes 0 (resend_message q) (bufin s) = resend_message q"
    using s(11) resend_fields(1) [of q] by (simp add: put_bytes_def)
  moreover have "message_id (resend_message q) = q"
    using assms(2,3) by (simp add: resend_request is_int32_def)
  ultimately show ?thesis
    using assms(2-4) s(1) resend_fields(1) [of q]
    by (simp add: resend_step_def Let_def resend_request read_sendbuf_index transmit_sent)
qed

lemma good_ack_fill:
  assumes "ack_ready a" and "0 \<le> q" and "q < 64"
  shows "good_ack (fill_ack a q t) q"
proof -
  have "length (fill_ack a q t) = header_size"
    using assms(1) by (simp add: ack_ready_def)
  with assms ack_fill [OF assms(1)] show ?thesis
    by (simp add: good_ack_def is_int32_def)
qed

text \<open>Concrete states: a driver with given indices, an acknowledgement, a run of one frame.\<close>

definition driver_at :: "byte list list \<Rightarrow> int \<Rightarrow> int \<Rightarrow> int \<Rightarrow> driver_state" where
  "driver_at bs ar fs pos =
    \<lparr>sendbuf = bs, lar = ar, lfs = fs, bufpos = pos, packet = replicate packet_size 0,
     bufin = replicate BUFFER_SIZE 0, tp = init, rtt = 0, rto = TCP_RTO_MIN\<rparr>"

lemma driver_at_simps [simp]:
  "sendbuf (driver_at bs ar fs pos) = bs" "lar (driver_at bs ar fs pos) = ar"
  "lfs (driver_at bs ar fs pos) = fs" "bufpos (driver_at bs ar fs pos) = pos"
  by (simp_all add: driver_at_def)

lemma driver_inv_at:
  "driver_inv (driver_at bs ar fs pos) \<longleftrightarrow>
    blocks_ok bs \<and> -1 \<le> ar \<and> ar \<le> 62 \<and> -1 \<le> fs \<and> fs \<le> 62 \<and> 0 \<le> pos \<and> pos \<le> 63"
  by (auto simp: driver_inv_def driver_at_def packet_ready_def get_bytes_def numeral_2_eq_2)

lemma blocks_ok_replicate: "length b = BUFFSIZE \<Longrightarrow> blocks_ok (replicate 64 b)"
  by (simp add: blocks_ok_def)

definition ones :: "byte list" where
  "ones = replicate BUFFSIZE 1"

lemma ones_simps [simp]: "length ones = BUFFSIZE" "filled ones"
  by (simp_all add: ones_def checkEmpty_iff replicate_eq_replicate)

definition ack_of :: "int \<Rightarrow> byte list" where
  "ack_of q = fill_ack (replicate header_size 0) q \<lparr>tv_sec = 0, tv_usec = 0\<rparr>"

lemma good_ack_of: "0 \<le> q \<Longrightarrow> q < 64 \<Longrightarrow> good_ack (ack_of q) q"
  unfolding ack_of_def
  by (rule good_ack_fill) (simp_all add: ack_ready_def get_bytes_def numeral_2_eq_2)

definition noon :: timeval where
  "noon = \<lparr>tv_sec = 43200, tv_usec = 0\<rparr>"

definition block_arrives :: driver_input where
  "block_arrives = \<lparr>selected = True, from_timer = None, from_ftpc = Some (Some ones), from_troll = None,
    clock_resend = \<lparr>tv_sec = 0, tv_usec = 0\<rparr>, clock_ack = \<lparr>tv_sec = 0, tv_usec = 0\<rparr>,
    clock_send = \<lparr>tv_sec = 0, tv_usec = 0\<rparr>, sending = \<lambda>_. True\<rparr>"

definition empty_driver :: driver_state where
  "empty_driver = driver_init (replicate 64 zero_block) (replicate packet_size 0) (replicate BUFFER_SIZE 0)"

lemma first_block_step:
  "\<exists>s' out. driver_step block_arrives empty_driver = Inr (s', out) \<and> lfs s' = 0 \<and> bufpos s' = 1"
proof -
  have inv: "driver_inv empty_driver"
    unfolding empty_driver_def by (rule driver_inv_init) (simp_all add: blocks_ok_replicate)
  have f: "lfs empty_driver = -1" "lar empty_driver = -1" "bufpos empty_driver = 0"
    "sendbuf empty_driver = replicate 64 zero_block"
    by (simp_all add: empty_driver_def driver_init_def)
  let ?t = "empty_driver\<lparr>sendbuf := (replicate 64 zero_block)[0 := put_bytes 0 ones zero_block], bufpos := 1\<rparr>"
  have t: "ftpc_step (Some ones) empty_driver = Inr ?t"
    by (simp add: ftpc_step_def can_store_def f Let_def)
  have inv': "driver_inv ?t"
    using ftpc_step_frame [OF inv t] by simp
  have c: "can_send ?t"
    by (simp add: can_send_def f)
  show ?thesis
    using send_next_good [OF inv' c, of "\<lambda>_. True" "\<lparr>tv_sec = 0, tv_usec = 0\<rparr>"] t f
    by (simp add: driver_step_def block_arrives_def next_lfs_def)
qed

lemma driver_reach_one: "\<exists>s. driver_reach s 1 \<and> lfs s = 0"
proof -
  have r: "driver_reach empty_driver 0"
    unfolding empty_driver_def by (rule driver_reach.start) (simp_all add: blocks_ok_replicate)
  obtain s' out where step: "driver_step block_arrives empty_driver = Inr (s', out)" "lfs s' = 0"
    using first_block_step by blast
  have "lfs empty_driver = -1"
    by (simp add: empty_driver_def driver_init_def)
  with driver_reach.step [OF r step(1)] step(2) show ?thesis
    by auto
qed

section \<open>Properties\<close>

text \<open>
  C16: The indices stay in range. In every state the driver reaches, whatever the timer, the
  application and the network send, \<open>lar\<close> and \<open>lfs\<close> lie between -1 and 62, \<open>bufpos\<close> is a
  slot, the buffer has 64 blocks of 1000 bytes, and the packet buffer is cleared.
\<close>

theorem driver_indices:
  assumes "driver_reach s n"
  shows "-1 \<le> lar s \<and> lar s \<le> 62 \<and> -1 \<le> lfs s \<and> lfs s \<le> 62 \<and> 0 \<le> bufpos s \<and> bufpos s \<le> 63 \<and>
    blocks_ok (sendbuf s) \<and> packet_ready (packet s)"
  using driver_invD [OF driver_reach_inv [OF assms]] by simp

theorem driver_indices_witness:
  "\<exists>s. driver_reach s 1 \<and> lfs s = 0 \<and> -1 \<le> lar s \<and> lar s \<le> 62 \<and> 0 \<le> bufpos s \<and> bufpos s \<le> 63"
  using driver_reach_one driver_indices by blast

text \<open>
  No transfer gets past 84 frames. The acknowledgement scan never takes \<open>lar\<close> back to
  the start of the buffer, so after the 64 frames of the first round the window closes for
  good at the twentieth frame of the second one.
\<close>

theorem at_most_84_frames:
  assumes "driver_reach s n"
  shows "n \<le> 84"
  using driver_reach_frames [OF assms] by (auto simp: frames_inv_def split: if_splits)

theorem at_most_84_frames_witness: "\<exists>s. driver_reach s 1 \<and> (1 :: nat) \<le> 84"
  using driver_reach_one at_most_84_frames by blast

text \<open>
  An acknowledgement with a right checksum frees the block of its frame, cancels its
  timer, takes the round-trip time, and moves \<open>lar\<close> to just before the first block that is
  still filled, if there is one up to the end of the buffer and \<open>lfs\<close> is not 0.
\<close>

theorem ack_moves_window:
  assumes "driver_inv s" and "lfs s \<noteq> 0" and "good_ack d q" and "lar s < j" and "j < 64"
    and "\<forall>k. lar s < k \<and> k < j \<longrightarrow> checkEmpty ((sendbuf s)[nat q := zero_block] ! nat k)"
    and "filled ((sendbuf s)[nat q := zero_block] ! nat j)"
  shows "ack_step t (Some d) s =
    Inr (s\<lparr>rtt := calculate_rtt t (ack_time (take header_size d)),
        sendbuf := (sendbuf s)[nat q := zero_block], lar := j - 1\<rparr>, [Cancel_timer q])"
proof -
  note s = driver_invD [OF assms(1)]
  have "ack_scan ((sendbuf s)[nat q := zero_block]) (lar s) (lfs s) (lar s + 1) = Inr j"
    using assms(2-7) s by (intro ack_scan_finds) auto
  then show ?thesis
    using assms(5) s(2) by (simp add: ack_step_good [OF assms(3)] update_lar_def acknowledged_def)
qed

theorem ack_moves_window_witness:
  "ack_step noon (Some (ack_of 3)) (driver_at (replicate 64 ones) 2 5 6) =
    Inr ((driver_at (replicate 64 ones) 2 5 6)\<lparr>
        rtt := calculate_rtt noon (ack_time (take header_size (ack_of 3))),
        sendbuf := (replicate 64 ones)[3 := zero_block], lar := 3\<rparr>, [Cancel_timer 3])"
proof -
  have first: "\<forall>k. 2 < k \<and> k < 4 \<longrightarrow> checkEmpty ((replicate 64 ones)[nat 3 := zero_block] ! nat k)"
  proof (intro allI impI)
    fix k :: int
    assume "2 < k \<and> k < 4"
    then have "k = 3" by simp
    then show "checkEmpty ((replicate 64 ones)[nat 3 := zero_block] ! nat k)" by simp
  qed
  show ?thesis
    using ack_moves_window [of "driver_at (replicate 64 ones) 2 5 6" "ack_of 3" 3 4 noon] first
    by (simp add: driver_inv_at blocks_ok_replicate good_ack_of)
qed

text \<open>
  If no block behind \<open>lar\<close> is filled, the search reads past the end of the send buffer,
  because of the missing parentheses in the condition of its loop: this happens as soon as
  everything sent is acknowledged and the rest of the buffer is zero.
\<close>

theorem ack_scan_runs_out:
  assumes "driver_inv s" and "lfs s \<noteq> 0 \<or> 0 < lar s" and "good_ack d q"
    and "\<forall>k. lar s < k \<and> k < 64 \<longrightarrow> checkEmpty ((sendbuf s)[nat q := zero_block] ! nat k)"
  shows "ack_step t (Some d) s = Inl OutOfBounds"
proof -
  note s = driver_invD [OF assms(1)]
  have "ack_scan ((sendbuf s)[nat q := zero_block]) (lar s) (lfs s) (lar s + 1) = Inl OutOfBounds"
    using assms(2-4) s by (intro ack_scan_overrun) auto
  then show ?thesis
    using s(2) by (simp add: ack_step_good [OF assms(3)] update_lar_def acknowledged_def)
qed

theorem ack_scan_runs_out_witness:
  "ack_step noon (Some (ack_of 1)) (driver_at ((replicate 64 zero_block)[1 := ones]) 0 1 2) = Inl OutOfBounds"
proof (rule ack_scan_runs_out)
  show "driver_inv (driver_at ((replicate 64 zero_block)[1 := ones]) 0 1 2)"
    by (simp add: driver_inv_at blocks_ok_update blocks_ok_replicate)
  show "good_ack (ack_of 1) 1"
    by (rule good_ack_of) simp_all
  have "(replicate 64 zero_block)[nat 1 := ones, nat 1 := zero_block] = replicate 64 zero_block"
    by (intro nth_equalityI) (auto simp: nth_list_update)
  then show "\<forall>k. lar (driver_at ((replicate 64 zero_block)[1 := ones]) 0 1 2) < k \<and> k < 64 \<longrightarrow>
      checkEmpty ((sendbuf (driver_at ((replicate 64 zero_block)[1 := ones]) 0 1 2))[nat 1 := zero_block] ! nat k)"
    by (simp add: nat_less_iff)
qed simp

text \<open>
  While only frame 0 has been sent, its acknowledgement does not move the window: the
  loop that looks for the first filled block ends before its first pass.
\<close>

theorem first_ack_ignored:
  assumes "driver_inv s" and "lfs s = 0" and "lar s = -1" and "good_ack d q"
  shows "ack_step t (Some d) s = Inr (acknowledged t d q s, [Cancel_timer q])"
proof -
  have "ack_scan bs (-1) 0 0 = Inr 0" for bs
    by (simp add: ack_scan.simps scan_condition_def)
  moreover have "acknowledged t d q s\<lparr>lar := -1\<rparr> = acknowledged t d q s"
    using assms(3) by (simp add: acknowledged_def)
  ultimately show ?thesis
    using assms driver_invD(2) [OF assms(1)] by (simp add: ack_step_good update_lar_def)
qed

theorem first_ack_ignored_witness:
  "ack_step noon (Some (ack_of 0)) (driver_at (replicate 64 ones) (-1) 0 1) =
    Inr (acknowledged noon (ack_of 0) 0 (driver_at (replicate 64 ones) (-1) 0 1), [Cancel_timer 0])"
  by (rule first_ack_ignored) (simp_all add: driver_inv_at blocks_ok_replicate good_ack_of)

text \<open>
  The frame the driver sends next carries the number after \<open>lfs\<close> and the bytes of its
  block, its checksum is accepted by the receiver, and a timer with the new timeout is
  started for it.
\<close>

theorem next_frame:
  assumes "driver_inv s" and "can_send s" and "timeval_fits now"
  shows "\<exists>s' pkt. send_next (\<lambda>_. True) now s =
      Inr (s', [Packet_out pkt, Start_timer (rto s') (lfs s + 1)]) \<and>
    packet_ok pkt \<and> packet_seq pkt = lfs s + 1 \<and> packet_time pkt = now \<and>
    packet_body pkt packet_size = sendbuf s ! nat (lfs s + 1) \<and>
    lfs s' = next_lfs (lfs s) \<and> sendbuf s' = sendbuf s \<and>
    rto s' = tcp_set_rto (tcp_rtt_estimator (tp s) (rtt s))"
proof -
  note s = driver_invD [OF assms(1)]
  have b: "length (sendbuf s ! nat (lfs s + 1)) = BUFFSIZE" "is_int32 (lfs s + 1)"
    using s by (auto intro!: blocks_ok_nth simp: is_int32_def)
  then show ?thesis
    using s(9,10) assms(3) packet_ok_fill [OF s(9) b(1)]
    by (simp add: send_next_good [OF assms(1,2)] packet_seq_fill packet_body_fill packet_time_fill)
qed

theorem next_frame_witness:
  "\<exists>s' pkt. send_next (\<lambda>_. True) \<lparr>tv_sec = 3, tv_usec = 4\<rparr> (driver_at (replicate 64 ones) 2 5 9) =
      Inr (s', [Packet_out pkt, Start_timer (rto s') 6]) \<and>
    packet_ok pkt \<and> packet_seq pkt = 6 \<and> packet_time pkt = \<lparr>tv_sec = 3, tv_usec = 4\<rparr> \<and>
    packet_body pkt packet_size = ones"
  using next_frame [of "driver_at (replicate 64 ones) 2 5 9" "\<lparr>tv_sec = 3, tv_usec = 4\<rparr>"]
  by (auto simp: driver_inv_at blocks_ok_replicate can_send_def timeval_fits_def is_long_def)

text \<open>
  A resend request of the timer sends the same frame again: its number and the bytes of
  its block as the buffer holds them, with a fresh time stamp, a right checksum and a new
  timer; the buffer and the window stay as they are.
\<close>

theorem resend_same_frame:
  assumes "driver_inv s" and "0 \<le> q" and "q < 64" and "timeval_fits now"
  shows "\<exists>s' pkt. resend_step (\<lambda>_. True) now (resend_message q) s =
      Inr (s', [Packet_out pkt, Start_timer (rto s') q]) \<and>
    packet_ok pkt \<and> packet_seq pkt = q \<and> packet_time pkt = now \<and>
    packet_body pkt packet_size = sendbuf s ! nat q \<and>
    sendbuf s' = sendbuf s \<and> lar s' = lar s \<and> lfs s' = lfs s \<and> bufpos s' = bufpos s"
proof -
  note s = driver_invD [OF assms(1)]
  have b: "length (sendbuf s ! nat q) = BUFFSIZE" "is_int32 q"
    using s assms(2,3) by (auto intro!: blocks_ok_nth simp: is_int32_def)
  then show ?thesis
    using s(9,10) assms(4) packet_ok_fill [OF s(9) b(1)]
    by (simp add: resend_step_good [OF assms(1-3)] packet_seq_fill packet_body_fill packet_time_fill)
qed

theorem resend_same_frame_witness:
  "\<exists>s' pkt. resend_step (\<lambda>_. True) \<lparr>tv_sec = 3, tv_usec = 4\<rparr> (resend_message 4)
      (driver_at (replicate 64 ones) 2 5 9) = Inr (s', [Packet_out pkt, Start_timer (rto s') 4]) \<and>
    packet_ok pkt \<and> packet_seq pkt = 4 \<and> packet_body pkt packet_size = ones"
  using resend_same_frame [of "driver_at (replicate 64 ones) 2 5 9" 4 "\<lparr>tv_sec = 3, tv_usec = 4\<rparr>"]
  by (auto simp: driver_inv_at blocks_ok_replicate timeval_fits_def is_long_def)

text \<open>
  The window: when the driver sends a frame, at most 20 frames are then without an
  acknowledgement while the indices have not wrapped around, but 21 once they have.
\<close>

theorem window_bound:
  assumes "driver_inv s" and "can_send s"
  shows "(lfs s + 1 - lar s) mod 64 \<le> (if lar s \<le> lfs s then WINDOW else WINDOW + 1)"
  using driver_invD [OF assms(1)] assms(2) mod_64_cases [of "lfs s + 1 - lar s"]
  by (auto simp: can_send_def)

theorem window_bound_witness:
  "((5::int) + 1 - 2) mod 64 \<le> WINDOW \<and> can_send (driver_at (replicate 64 ones) 50 6 9) \<and>
    ((6::int) + 1 - 50) mod 64 = WINDOW + 1"
  using window_bound [of "driver_at (replicate 64 ones) 50 6 9"]
    window_bound [of "driver_at (replicate 64 ones) 2 5 9"]
  by (simp add: driver_inv_at blocks_ok_replicate can_send_def)

end
