(* ===== verification/Outgoing.thy ===== *)
theory Outgoing
  imports Sender
begin

text \<open>
  What the driver of \<open>project1/tcpd.c\<close> sends of a stream. \<open>sender_run\<close> is a run of the
  driver with ghost state: \<open>R\<close> blocks of the stream taken from the application, \<open>N\<close> frames
  sent for the first time, \<open>A\<close> the frames acknowledged, and all output. The network may
  lose, repeat and damage acknowledgements, but not keep one until the slot of its frame is
  about to be filled again, and the same holds for the requests of the timer, which may come
  after the acknowledgement. Under these conditions every packet carries its block of the
  stream, or is empty and belongs to an acknowledged frame, and a block stays in the buffer
  until its acknowledgement.
\<close>

section \<open>Runs\<close>

definition slot :: "nat \<Rightarrow> int" where
  "slot k = int k mod 64"

text \<open>
  A request of the timer is for a frame whose slot has not been given to a later block; so
  is an acknowledgement with a right checksum, and \<open>a\<close> is its frame. A late copy of an
  acknowledgement is outside the model: it would zero the block of another frame, see
  \<open>stale_ack_zeroes_block\<close>.
\<close>

definition timer_ok :: "driver_input \<Rightarrow> nat \<Rightarrow> nat \<Rightarrow> bool" where
  "timer_ok i R N \<longleftrightarrow> from_timer i = None \<or>
    (\<exists>k < N. R \<le> k + 64 \<and> from_timer i = Some (resend_message (slot k)))"

text \<open>
  The application sends the datagrams \<open>msg\<close>, of which the last may be short: its slot keeps
  the bytes behind it. Block \<open>blk R\<close> of the stream is what the slot holds afterwards.
\<close>

definition carries :: "byte list \<Rightarrow> byte list \<Rightarrow> bool" where
  "carries b r \<longleftrightarrow> length r = BUFFSIZE \<and> take (length b) r = b"

definition ftpc_ok ::
  "(nat \<Rightarrow> byte list) \<Rightarrow> (nat \<Rightarrow> byte list) \<Rightarrow> driver_input \<Rightarrow> driver_state \<Rightarrow> nat \<Rightarrow> bool" where
  "ftpc_ok msg blk i s R \<longleftrightarrow> from_ftpc i = None \<or>
    (from_ftpc i = Some (Some (msg R)) \<and> length (msg R) \<le> BUFFSIZE \<and>
      (can_store s \<longrightarrow> put_bytes 0 (msg R) (sendbuf s ! nat (bufpos s)) = blk R))"

definition acks_ok :: "driver_input \<Rightarrow> nat \<Rightarrow> nat \<Rightarrow> nat set \<Rightarrow> bool" where
  "acks_ok i R N a \<longleftrightarrow>
    (from_troll i = None \<and> a = {}) \<or>
    (\<exists>d. from_troll i = Some (Some d) \<and> \<not> ack_ok (take header_size d) \<and> a = {}) \<or>
    (\<exists>d k. from_troll i = Some (Some d) \<and> good_ack d (slot k) \<and> k < N \<and> R < k + 64 \<and> a = {k})"

inductive sender_run ::
  "(nat \<Rightarrow> byte list) \<Rightarrow> (nat \<Rightarrow> byte list) \<Rightarrow> driver_state \<Rightarrow> nat \<Rightarrow> nat \<Rightarrow> nat set \<Rightarrow> driver_out list \<Rightarrow> bool"
  for msg blk :: "nat \<Rightarrow> byte list"
where
  start: "blocks_ok bs \<Longrightarrow> length p = packet_size \<Longrightarrow> length b = BUFFER_SIZE \<Longrightarrow>
    sender_run msg blk (driver_init bs p b) 0 0 {} []"
| iteration: "sender_run msg blk s R N A out \<Longrightarrow> timer_ok i R N \<Longrightarrow> ftpc_ok msg blk i s R \<Longrightarrow> acks_ok i R N a \<Longrightarrow>
    driver_step i s = Inr (s', out') \<Longrightarrow>
    sender_run msg blk s' (if bufpos s' = bufpos s then R else Suc R) (if lfs s' = lfs s then N else Suc N)
      (A \<union> a) (out @ out')"

section \<open>The indices against the counts\<close>

text \<open>
  In the first round the indices are the counts; in the second \<open>lfs\<close> and \<open>bufpos\<close> have
  wrapped around. While \<open>lar\<close> has not run ahead of \<open>lfs\<close>, the blocks waiting to be sent are
  at most 45, so that a full buffer is never taken for an empty one.
\<close>

definition phase :: "int \<Rightarrow> int \<Rightarrow> int \<Rightarrow> int \<Rightarrow> bool" where
  "phase l f R N \<longleftrightarrow>
    (if N < 64 then
       f + 1 = N \<and>
       (if R < 64 then l \<le> f \<longrightarrow> 20 \<le> N \<or> R \<le> N + 1
        else l \<le> f \<and> R \<le> l + 65 \<and> R \<le> N + 45 \<and> (R \<le> l + 64 \<longrightarrow> R \<le> N + 44))
     else f + 1 = N - 64 \<and> 43 \<le> l \<and> N \<le> 84 \<and> 64 \<le> R \<and> R \<le> l + 65)"

definition pos :: "int \<Rightarrow> int" where
  "pos R = (if R < 64 then R else R - 64)"

definition store_ok :: "int \<Rightarrow> int \<Rightarrow> int \<Rightarrow> bool" where
  "store_ok l f b \<longleftrightarrow> (f \<ge> l \<and> (b > f \<or> b \<le> l)) \<or> (f < l \<and> b \<le> l \<and> b > f)"

definition send_ok :: "int \<Rightarrow> int \<Rightarrow> int \<Rightarrow> bool" where
  "send_ok l f b \<longleftrightarrow>
    (f \<ge> l \<and> f - l < 20 \<and> (f + 1 < b \<or> b \<le> l)) \<or> (f < l \<and> 63 - l + f < 20 \<and> f + 1 < b)"

lemma can_store_ok: "can_store s \<longleftrightarrow> store_ok (lar s) (lfs s) (bufpos s)"
  by (simp add: can_store_def store_ok_def)

lemma can_send_ok: "can_send s \<longleftrightarrow> send_ok (lar s) (lfs s) (bufpos s)"
  by (simp add: can_send_def send_ok_def)

text \<open>A block is only stored into a slot that is not waiting to be sent.\<close>

lemma phase_store:
  assumes "phase l f R N" and "N \<le> R" and "l \<le> 62" and "-1 \<le> l" and "64 \<le> R" and "store_ok l f (pos R)"
  shows "pos R \<le> l \<and> (l \<le> f \<or> 64 \<le> N)"
  using assms by (auto simp: phase_def pos_def store_ok_def split: if_splits)

lemma phase_step:
  assumes ph: "phase l f R N" and NR: "N \<le> R" "0 \<le> N"
    and store: "R1 = R \<or> R1 = R + 1 \<and> store_ok l f (pos R)"
    and l: "-1 \<le> l" "l \<le> l1" "l1 \<le> 62"
    and waiting: "N < R1 \<Longrightarrow> N < 64 \<Longrightarrow> l \<le> f \<Longrightarrow> l1 \<le> f"
    and send: "N1 = (if send_ok l1 f (pos R1) then N + 1 else N)"
    and f1: "f1 = (if send_ok l1 f (pos R1) then next_lfs f else f)"
  shows "phase l1 f1 R1 N1 \<and> N1 \<le> R1"
proof (cases "N < 64")
  case False
  then have s: "f + 1 = N - 64" "43 \<le> l" "N \<le> 84" "64 \<le> R" "R \<le> l + 65"
    using ph by (simp_all add: phase_def)
  have R1: "64 \<le> R1" "R1 \<le> l1 + 65" "N \<le> R1"
    using s l store NR by (auto simp: store_ok_def pos_def)
  show ?thesis
    using s R1 l False send f1 by (auto simp: phase_def send_ok_def pos_def next_lfs_def)
next
  case True
  then have f: "f + 1 = N" "-1 \<le> f" "f \<le> 62"
    using ph NR by (auto simp: phase_def)
  show ?thesis
  proof (cases "R1 < 64")
    case True
    then have R: "R < 64" "R1 \<le> R + 1" "pos R1 = R1"
      using store by (auto simp: pos_def)
    then have small: "l \<le> f \<longrightarrow> 20 \<le> N \<or> R \<le> N + 1"
      using ph \<open>N < 64\<close> by (simp add: phase_def)
    show ?thesis
    proof (cases "send_ok l1 f R1")
      case False
      then have "phase l1 f R1 N \<longleftrightarrow> (l1 \<le> f \<longrightarrow> 20 \<le> N \<or> R1 \<le> N + 1)"
        using f(1) \<open>N < 64\<close> True by (simp add: phase_def)
      moreover have "20 \<le> N \<or> R1 \<le> N + 1" if "l1 \<le> f"
        using False that f l by (auto simp: send_ok_def)
      ultimately show ?thesis
        using False send f1 R(3) store NR by auto
    next
      case send': True
      then have "N < R1"
        using f l True waiting NR store by (auto simp: send_ok_def)
      then have "N + 1 < 64" "next_lfs f = N"
        using True f by (simp_all add: next_lfs_def)
      moreover have "20 \<le> N + 1 \<or> R1 \<le> N + 2" if "l \<le> f"
        using small that R(2) by auto
      moreover have "l1 < N \<Longrightarrow> l \<le> f"
        using f(1) l(2) by simp
      moreover have "l \<le> f \<or> \<not> l1 \<le> N"
        using send' f l by (auto simp: send_ok_def)
      ultimately show ?thesis
        using send' send f1 R(3) True \<open>N < R1\<close> by (auto simp: phase_def)
    qed
  next
    case False
    have w: "l \<le> f" "l1 \<le> f"
      using ph f NR store l waiting False \<open>N < 64\<close>
      by (auto simp: phase_def store_ok_def pos_def split: if_splits)
    have p: "pos R1 = R1 - 64"
      using False by (simp add: pos_def)
    have b: "R1 \<le> l1 + 65" "R1 \<le> N + 45"
      using ph f store l w False \<open>N < 64\<close>
      by (auto simp: phase_def store_ok_def pos_def split: if_splits)
    have so: "send_ok l1 f (pos R1) \<longleftrightarrow> f - l1 < 20 \<and> R1 \<le> l1 + 64"
      using w b f p by (auto simp: send_ok_def)
    show ?thesis
    proof (cases "send_ok l1 f (pos R1)")
      case no: False
      then have "R1 \<le> N + 44 \<or> l1 + 64 < R1"
        using so b f by auto
      then show ?thesis
        using no w b f send f1 False \<open>N < 64\<close> by (auto simp: phase_def)
    next
      case yes: True
      then have "f - l1 < 20" "R1 \<le> l1 + 64"
        using so by simp_all
      then show ?thesis
        using yes w b f l send f1 False \<open>N < 64\<close> by (auto simp: phase_def next_lfs_def)
    qed
  qed
qed

section \<open>The blocks held\<close>

text \<open>Every block taken and not acknowledged is in its slot.\<close>

definition held :: "(nat \<Rightarrow> byte list) \<Rightarrow> byte list list \<Rightarrow> nat \<Rightarrow> nat set \<Rightarrow> bool" where
  "held blk bs R A \<longleftrightarrow> (\<forall>k < R. k \<notin> A \<longrightarrow> R \<le> k + 64 \<and> bs ! nat (slot k) = blk k)"

text \<open>The slot of an acknowledged frame is empty until it is filled again.\<close>

definition cleared :: "byte list list \<Rightarrow> nat \<Rightarrow> nat set \<Rightarrow> bool" where
  "cleared bs R A \<longleftrightarrow> (\<forall>k \<in> A. R \<le> k + 64 \<longrightarrow> bs ! nat (slot k) = zero_block)"

text \<open>The slots behind the window are empty, from the next slot to be filled on.\<close>

definition freed :: "byte list list \<Rightarrow> int \<Rightarrow> int \<Rightarrow> bool" where
  "freed bs lo hi \<longleftrightarrow> (\<forall>j. lo \<le> j \<and> j \<le> hi \<longrightarrow> bs ! nat j = zero_block)"

text \<open>Where the slots begin that may be filled again.\<close>

definition low :: "nat \<Rightarrow> int" where
  "low R = (if R < 64 then 0 else int R - 64)"

definition out_inv ::
  "(nat \<Rightarrow> byte list) \<Rightarrow> driver_state \<Rightarrow> nat \<Rightarrow> nat \<Rightarrow> nat set \<Rightarrow> bool" where
  "out_inv blk s R N A \<longleftrightarrow> driver_inv s \<and> A \<subseteq> {..<N} \<and> N \<le> R \<and> bufpos s = pos (int R) \<and>
    phase (lar s) (lfs s) (int R) (int N) \<and> held blk (sendbuf s) R A \<and> cleared (sendbuf s) R A \<and>
    (lar s \<le> lfs s \<or> 64 \<le> N \<longrightarrow> freed (sendbuf s) (low R) (lar s))"

lemma slot_bounds [simp]: "0 \<le> slot k" "slot k < 64"
  by (simp_all add: slot_def)

lemma slot_pos: "R < 128 \<Longrightarrow> slot R = pos (int R)"
  by (auto simp: slot_def pos_def mod_64_cases)

lemma slot_eq:
  assumes "slot j = slot k" and "j \<le> k" and "k < j + 64"
  shows "j = k"
proof -
  have "64 dvd int k - int j"
    using assms(1) by (simp add: slot_def mod_eq_dvd_iff [symmetric])
  moreover have "0 \<le> int k - int j" "int k - int j < 64"
    using assms(2,3) by simp_all
  ultimately have "int k - int j = 0"
    by (metis dvd_imp_mod_0 mod_pos_pos_trivial)
  then show ?thesis by simp
qed

lemma slot_distinct: "j \<noteq> k \<Longrightarrow> j < k + 64 \<Longrightarrow> k < j + 64 \<Longrightarrow> nat (slot j) \<noteq> nat (slot k)"
  using slot_eq [of j k] slot_eq [of k j] by (auto simp: nat_eq_iff2 intro: le_cases [of j k])

lemma held_store:
  assumes "held blk bs R A" and "length bs = 64" and "filled (blk (R - 64))"
    and "64 \<le> R \<Longrightarrow> bs ! nat (slot R) = zero_block"
  shows "held blk (bs[nat (slot R) := b]) (Suc R) A \<longleftrightarrow> R \<in> A \<or> b = blk R"
proof -
  have s: "nat (slot R) < length bs"
    using assms(2) by (simp add: nat_less_iff)
  have old: "Suc R \<le> k + 64 \<and> bs[nat (slot R) := b] ! nat (slot k) = blk k" if "k < R" "k \<notin> A" for k
  proof -
    have k: "R \<le> k + 64" "bs ! nat (slot k) = blk k"
      using assms(1) that by (simp_all add: held_def)
    have "R \<noteq> k + 64"
    proof
      assume "R = k + 64"
      then have "slot R = slot k" "blk (R - 64) = blk k" "64 \<le> R"
        by (simp_all add: slot_def)
      with k assms(3,4) show False by simp
    qed
    with k(1) that have "k \<noteq> R" "R < k + 64" "k < R + 64" by simp_all
    with slot_distinct [of R k] k(2) show ?thesis by simp
  qed
  show ?thesis
  proof
    assume "held blk (bs[nat (slot R) := b]) (Suc R) A"
    then show "R \<in> A \<or> b = blk R"
      using s by (auto simp: held_def)
  next
    assume "R \<in> A \<or> b = blk R"
    with old s show "held blk (bs[nat (slot R) := b]) (Suc R) A"
      by (auto simp: held_def less_Suc_eq)
  qed
qed

lemma held_ack:
  assumes "held blk bs R A" and "R \<le> k + 64" and "k < R"
  shows "held blk (bs[nat (slot k) := zero_block]) R (insert k A)"
  unfolding held_def
proof (intro allI impI)
  fix j
  assume j: "j < R" "j \<notin> insert k A"
  then have h: "R \<le> j + 64" "bs ! nat (slot j) = blk j"
    using assms(1) by (simp_all add: held_def)
  have "nat (slot k) \<noteq> nat (slot j)"
    using j h(1) assms(2,3) by (intro slot_distinct) auto
  with h show "R \<le> j + 64 \<and> bs[nat (slot k) := zero_block] ! nat (slot j) = blk j"
    by simp
qed

lemma cleared_store:
  assumes "cleared bs R A" and "A \<subseteq> {..<R}"
  shows "cleared (bs[nat (slot R) := b]) (Suc R) A"
  unfolding cleared_def
proof (intro ballI impI)
  fix k
  assume k: "k \<in> A" "Suc R \<le> k + 64"
  then have "nat (slot R) \<noteq> nat (slot k)"
    using assms(2) by (intro slot_distinct) auto
  with k assms(1) show "bs[nat (slot R) := b] ! nat (slot k) = zero_block"
    by (simp add: cleared_def)
qed

lemma cleared_ack:
  "cleared bs R A \<Longrightarrow> nat (slot k) < length bs \<Longrightarrow> cleared (bs[nat (slot k) := zero_block]) R (insert k A)"
  by (auto simp: cleared_def nth_list_update)

lemma freed_mono: "freed bs lo hi \<Longrightarrow> lo \<le> lo' \<Longrightarrow> hi' \<le> hi \<Longrightarrow> freed bs lo' hi'"
  by (auto simp: freed_def)

lemma freed_zero: "freed bs lo hi \<Longrightarrow> freed (bs[k := zero_block]) lo hi"
  by (cases "k < length bs") (auto simp: freed_def nth_list_update list_update_beyond)

lemma freed_other: "freed bs lo hi \<Longrightarrow> 0 \<le> lo \<Longrightarrow> (\<And>j. lo \<le> j \<Longrightarrow> j \<le> hi \<Longrightarrow> nat j \<noteq> k) \<Longrightarrow> freed (bs[k := b]) lo hi"
  unfolding freed_def by (metis nth_list_update_neq)

section \<open>The branches of an iteration\<close>

text \<open>The frames that a list of outputs sends.\<close>

definition packet_of :: "(nat \<Rightarrow> byte list) \<Rightarrow> nat \<Rightarrow> byte list \<Rightarrow> bool" where
  "packet_of blk k pkt \<longleftrightarrow> (\<exists>p now. packet_ready p \<and> pkt = fill_packet p (slot k) (blk k) now)"

text \<open>A packet without a block, for a frame that has been acknowledged.\<close>

definition empty_packet :: "nat \<Rightarrow> byte list \<Rightarrow> bool" where
  "empty_packet k pkt \<longleftrightarrow> packet_of (\<lambda>_. zero_block) k pkt"

definition carried :: "(nat \<Rightarrow> byte list) \<Rightarrow> nat set \<Rightarrow> nat \<Rightarrow> byte list \<Rightarrow> bool" where
  "carried blk A k pkt \<longleftrightarrow> packet_of blk k pkt \<or> k \<in> A \<and> empty_packet k pkt"

lemma carried_mono: "carried blk A k pkt \<Longrightarrow> A \<subseteq> B \<Longrightarrow> carried blk B k pkt"
  by (auto simp: carried_def)

lemma resend_result:
  assumes "driver_inv s" and "0 \<le> q" and "q < 64"
    and "resend_step sent now (resend_message q) s = Inr (s', out)"
  shows "\<exists>r. out = [Packet_out (fill_packet (packet s) q (sendbuf s ! nat q) now), Start_timer r q]"
proof (cases "sent (fill_packet (packet s) q (sendbuf s ! nat q) now)")
  case True
  with assms show ?thesis by (auto simp: resend_step_good)
next
  case False
  have "put_bytes 0 (resend_message q) (bufin s) = resend_message q"
    using driver_invD(11) [OF assms(1)] resend_fields(1) [of q] by (simp add: put_bytes_def)
  moreover have "message_id (resend_message q) = q"
    using assms(2,3) by (simp add: resend_request is_int32_def)
  ultimately show ?thesis
    using assms False driver_invD(1) [OF assms(1)] resend_fields(1) [of q]
    by (simp add: resend_step_def Let_def resend_request read_sendbuf_index transmit_def)
qed

lemma timer_branch:
  assumes inv: "driver_inv s" and ok: "timer_ok i R N"
    and held: "held blk (sendbuf s) R A" "cleared (sendbuf s) R A" and N: "N \<le> R"
    and step: "(case from_timer i of None \<Rightarrow> Inr (s, [])
      | Some msg \<Rightarrow> resend_step (sending i) (clock_resend i) msg s) = Inr (s', out)"
  shows "\<forall>pkt. Packet_out pkt \<in> set out \<longrightarrow> (\<exists>k < N. carried blk A k pkt)"
  using ok unfolding timer_ok_def
proof
  assume "from_timer i = None"
  with step show ?thesis by simp
next
  assume "\<exists>k < N. R \<le> k + 64 \<and> from_timer i = Some (resend_message (slot k))"
  then obtain k where k: "k < N" "R \<le> k + 64" "from_timer i = Some (resend_message (slot k))" by blast
  then have "resend_step (sending i) (clock_resend i) (resend_message (slot k)) s = Inr (s', out)"
    using step by simp
  from resend_result [OF inv slot_bounds this]
  obtain r where out: "out = [Packet_out (fill_packet (packet s) (slot k) (sendbuf s ! nat (slot k)) (clock_resend i)),
      Start_timer r (slot k)]"
    by blast
  have "sendbuf s ! nat (slot k) = (if k \<in> A then zero_block else blk k)"
    using held k N by (simp add: held_def cleared_def)
  then have "carried blk A k (fill_packet (packet s) (slot k) (sendbuf s ! nat (slot k)) (clock_resend i))"
    using driver_invD(9) [OF inv] by (auto simp: carried_def empty_packet_def packet_of_def)
  with out k(1) show ?thesis by auto
qed

lemma ftpc_result:
  assumes "driver_inv s" and "length d \<le> BUFFSIZE" and "ftpc_step (Some d) s = Inr s'"
  shows "s' = (if can_store s then s\<lparr>sendbuf := (sendbuf s)[nat (bufpos s) := put_bytes 0 d (sendbuf s ! nat (bufpos s))],
      bufpos := (if bufpos s = 63 then 0 else bufpos s + 1)\<rparr> else s)"
  using driver_invD [OF assms(1)] assms(2,3) by (auto simp: ftpc_step_def Let_def)

lemma carries_put:
  assumes "length m \<le> BUFFSIZE" and "length old = BUFFSIZE"
  shows "carries m (put_bytes 0 m old)"
  using assms by (simp add: carries_def put_bytes_def)

lemma ftpc_branch:
  assumes inv: "out_inv blk s R N A" and st: "is_stream blk" and ok: "ftpc_ok msg blk i s R"
    and step: "(case from_ftpc i of None \<Rightarrow> Inr s | Some r \<Rightarrow> ftpc_step r s) = Inr s'"
  shows "\<exists>R'. R' = (if bufpos s' = bufpos s then R else Suc R) \<and>
    (R' = R \<or> R' = Suc R \<and> store_ok (lar s) (lfs s) (pos (int R))) \<and>
    bufpos s' = pos (int R') \<and> held blk (sendbuf s') R' A \<and> cleared (sendbuf s') R' A \<and>
    (lar s \<le> lfs s \<or> 64 \<le> N \<longrightarrow> freed (sendbuf s') (low R') (lar s)) \<and>
    (R' = Suc R \<longrightarrow> carries (msg R) (blk R))"
proof (cases "s' = s")
  case True
  with inv show ?thesis by (auto simp: out_inv_def)
next
  case False
  have s: "driver_inv s" "bufpos s = pos (int R)" "phase (lar s) (lfs s) (int R) (int N)" "N \<le> R"
    "held blk (sendbuf s) R A" "A \<subseteq> {..<N}" "cleared (sendbuf s) R A"
    "lar s \<le> lfs s \<or> 64 \<le> N \<longrightarrow> freed (sendbuf s) (low R) (lar s)"
    using inv by (simp_all add: out_inv_def)
  note b = driver_invD [OF s(1)]
  have m: "from_ftpc i = Some (Some (msg R))" "length (msg R) \<le> BUFFSIZE"
    "can_store s \<longrightarrow> put_bytes 0 (msg R) (sendbuf s ! nat (bufpos s)) = blk R"
    using ok step False by (auto simp: ftpc_ok_def)
  then have s': "can_store s" "s' = s\<lparr>sendbuf := (sendbuf s)[nat (bufpos s) := blk R],
      bufpos := (if bufpos s = 63 then 0 else bufpos s + 1)\<rparr>"
    using step ftpc_result [OF s(1) m(2), of s'] False by (auto split: if_splits)
  have "length (sendbuf s ! nat (bufpos s)) = BUFFSIZE"
    using blocks_ok_nth [OF b(1,7)] b(8) by simp
  then have carried: "carries (msg R) (blk R)"
    using carries_put [OF m(2)] m(3) s'(1) by metis
  have store: "store_ok (lar s) (lfs s) (pos (int R))"
    using s'(1) s(2) by (simp add: can_store_ok)
  have R: "int R - 64 \<le> lar s" "lar s \<le> lfs s \<or> 64 \<le> N" if "64 \<le> R"
    using phase_store [OF s(3) _ b(4,3) _ store] s(4) that by (auto simp: pos_def)
  then have slot_R: "slot R = bufpos s"
    using s(2) b(4) by (cases "R < 64") (auto simp: slot_pos)
  have next_pos: "(if bufpos s = 63 then 0 else bufpos s + 1) = pos (int (Suc R))"
    using s(2) b(8) R(1) b(4) by (auto simp: pos_def split: if_splits)
  have zero: "sendbuf s ! nat (slot R) = zero_block \<and> int R - 64 \<le> lar s" if "64 \<le> R"
    using R [OF that] s(8) that by (auto simp: freed_def low_def pos_def slot_R s(2))
  have "R \<notin> A"
    using s(4,6) by auto
  then have "held blk ((sendbuf s)[nat (slot R) := blk R]) (Suc R) A"
    using held_store [OF s(5) b(2), of "blk R"] st zero by (simp add: is_stream_def)
  moreover have "freed ((sendbuf s)[nat (slot R) := blk R]) (low (Suc R)) (lar s)"
    if "lar s \<le> lfs s \<or> 64 \<le> N"
  proof (rule freed_other)
    show "freed (sendbuf s) (low (Suc R)) (lar s)"
      using s(8) that by (rule_tac freed_mono) (auto simp: low_def)
    show "0 \<le> low (Suc R)"
      by (simp add: low_def)
    show "nat j \<noteq> nat (slot R)" if "low (Suc R) \<le> j" "j \<le> lar s" for j
      using that \<open>lar s \<le> lfs s \<or> 64 \<le> N\<close> s(3,4) b(4)
      by (auto simp: slot_R s(2) low_def pos_def phase_def split: if_splits)
  qed
  moreover have "cleared ((sendbuf s)[nat (slot R) := blk R]) (Suc R) A"
    by (rule cleared_store [OF s(7)]) (use s(4,6) in auto)
  moreover have "bufpos s' \<noteq> bufpos s"
    using s'(2) by auto
  ultimately show ?thesis
    using s'(2) store next_pos slot_R carried by (intro exI [of _ "Suc R"]) simp
qed

lemma ack_result:
  assumes inv: "driver_inv s" and ok: "acks_ok i R N a"
    and step: "(case from_troll i of None \<Rightarrow> Inr (s, []) | Some r \<Rightarrow> ack_step (clock_ack i) r s) = Inr (u, out)"
  shows "(a = {} \<and> u = s \<or>
      (\<exists>k. a = {k} \<and> k < N \<and> R < k + 64 \<and> sendbuf u = (sendbuf s)[nat (slot k) := zero_block])) \<and>
    lar s \<le> lar u \<and> freed (sendbuf u) (lar s + 1) (lar u) \<and> lfs u = lfs s \<and> bufpos u = bufpos s \<and>
    (\<forall>pkt. Packet_out pkt \<notin> set out)"
proof -
  consider (none) "a = {}" "u = s" "out = []"
    | (ack) d k where "from_troll i = Some (Some d)" "good_ack d (slot k)" "k < N" "R < k + 64" "a = {k}"
    using ok step by (auto simp: acks_ok_def ack_step_def good_ack_def Let_def split: if_splits)
  then show ?thesis
  proof cases
    case none
    then show ?thesis by (auto simp: freed_def)
  next
    case ack
    note s = driver_invD [OF inv]
    let ?t = "acknowledged (clock_ack i) d (slot k) s"
    have up: "update_lar ?t = Inr u" "out = [Cancel_timer (slot k)]"
      using step ack(1) ack_step_good [OF ack(2) s(2)] by (auto simp: bindE_eq_Inr)
    then obtain l where l: "u = ?t\<lparr>lar := l\<rparr>" "lar s \<le> l"
      "\<forall>j. lar s < j \<and> j \<le> l \<longrightarrow> checkEmpty (sendbuf ?t ! nat j)" "l \<le> 62"
      using update_lar_sound [OF up(1)] s by auto
    have "blocks_ok (sendbuf ?t)"
      using s(1) by (simp add: blocks_ok_update)
    then have "freed (sendbuf ?t) (lar s + 1) l"
      using l(3,4) s(3) by (auto simp: freed_def checkEmpty_block [OF blocks_ok_nth])
    with l(1,2) ack(3-5) up(2) show ?thesis by simp
  qed
qed

lemma freed_join:
  assumes "freed bs lo l" and "freed bs (l + 1) h"
  shows "freed bs lo h"
  unfolding freed_def
proof (intro allI impI)
  fix j
  assume "lo \<le> j \<and> j \<le> h"
  with assms show "bs ! nat j = zero_block"
    by (cases "j \<le> l") (simp_all add: freed_def)
qed

text \<open>
  The search stops at the first block that waits to be sent, so in the first round \<open>lar\<close>
  does not run past \<open>lfs\<close> while one does.
\<close>

lemma waiting_block:
  assumes "held blk bs R A" and "is_stream blk" and "N < R" and "N \<notin> A" and "N < 64"
    and "freed bs (l + 1) l1" and "l + 1 \<le> int N"
  shows "l1 < int N"
proof (rule ccontr)
  assume "\<not> l1 < int N"
  then have "l + 1 \<le> int N \<and> int N \<le> l1"
    using assms(7) by simp
  with assms(6) have "bs ! nat (int N) = zero_block"
    unfolding freed_def by blast
  moreover have "bs ! nat (slot N) = blk N"
    using assms(1,3,4) by (simp add: held_def)
  moreover have "slot N = int N"
    using assms(5) by (simp add: slot_def)
  ultimately have "blk N = zero_block" by simp
  with assms(2) show False
    by (metis checkEmpty_zero_block is_stream_def)
qed

lemma ack_branch:
  assumes inv: "driver_inv s" and ok: "acks_ok i R N a"
    and step: "(case from_troll i of None \<Rightarrow> Inr (s, []) | Some r \<Rightarrow> ack_step (clock_ack i) r s) = Inr (u, out)"
    and st: "is_stream blk" and A: "A \<subseteq> {..<N}" and R': "R' = R \<or> R' = Suc R" and N: "N \<le> R"
    and held: "held blk (sendbuf s) R' A" "cleared (sendbuf s) R' A"
    and free: "lar s \<le> lfs s \<or> 64 \<le> N \<longrightarrow> freed (sendbuf s) (low R') (lar s)"
  shows "held blk (sendbuf u) R' (A \<union> a) \<and> cleared (sendbuf u) R' (A \<union> a) \<and> A \<union> a \<subseteq> {..<N} \<and> lar s \<le> lar u \<and>
    (lar u \<le> lfs s \<or> 64 \<le> N \<longrightarrow> freed (sendbuf u) (low R') (lar u)) \<and>
    (N < R' \<longrightarrow> N < 64 \<longrightarrow> lar s < int N \<longrightarrow> lar u < int N) \<and>
    lfs u = lfs s \<and> bufpos u = bufpos s \<and> (\<forall>pkt. Packet_out pkt \<notin> set out)"
proof -
  note r = ack_result [OF inv ok step]
  have l: "lar s \<le> lar u" "freed (sendbuf u) (lar s + 1) (lar u)"
    and frame: "lfs u = lfs s" "bufpos u = bufpos s" "\<forall>pkt. Packet_out pkt \<notin> set out"
    using r by blast+
  have both: "held blk (sendbuf u) R' (A \<union> a) \<and> cleared (sendbuf u) R' (A \<union> a) \<and> A \<union> a \<subseteq> {..<N} \<and>
      (lar s \<le> lfs s \<or> 64 \<le> N \<longrightarrow> freed (sendbuf u) (low R') (lar s))"
  proof (cases "a = {} \<and> u = s")
    case True
    with held A free show ?thesis by simp
  next
    case False
    then obtain k where k: "a = {k}" "k < N" "R < k + 64" "sendbuf u = (sendbuf s)[nat (slot k) := zero_block]"
      using r by blast
    have "held blk (sendbuf u) R' (insert k A)"
      unfolding k(4) using held k R' N by (intro held_ack) auto
    moreover have "cleared (sendbuf u) R' (insert k A)"
      unfolding k(4) using held(2) driver_invD(2) [OF inv] by (intro cleared_ack) (simp_all add: nat_less_iff)
    ultimately show ?thesis
      using k A free by (auto simp: freed_zero)
  qed
  have "lar u < int N" if "N < R'" "N < 64" "lar s < int N"
  proof (rule waiting_block)
    show "held blk (sendbuf u) R' (A \<union> a)" and "N \<notin> A \<union> a"
      using both by auto
  qed (use st that l in auto)
  moreover have "freed (sendbuf u) (low R') (lar u)" if "lar u \<le> lfs s \<or> 64 \<le> N"
  proof (rule freed_join)
    show "freed (sendbuf u) (low R') (lar s)"
      using both that l(1) by (meson order_trans)
  qed (rule l(2))
  ultimately show ?thesis
    using both l(1) frame by blast
qed

lemma send_branch:
  assumes inv: "driver_inv s" and held: "held blk (sendbuf s) R A"
    and N: "N < R" "N \<notin> A" and l: "lfs s + 1 = slot N" and can: "can_send s"
    and step: "send_next sent now s = Inr (s', out)"
  shows "\<exists>pkt r. out = [Packet_out pkt, Start_timer r (slot N)] \<and> packet_of blk N pkt"
proof -
  have "sendbuf s ! nat (lfs s + 1) = blk N"
    using held N by (simp add: held_def l)
  with send_next_result [OF inv step] can l driver_invD(9) [OF inv] show ?thesis
    by (auto simp: transmit_result packet_of_def)
qed

section \<open>The invariant of a run\<close>

lemma phase_slot: "phase l f R (int N) \<Longrightarrow> f + 1 = slot N"
  by (auto simp: phase_def slot_def mod_64_cases split: if_splits)

lemma out_inv_step:
  assumes inv: "out_inv blk s R N A" and st: "is_stream blk"
    and ok: "timer_ok i R N" "ftpc_ok msg blk i s R" "acks_ok i R N a"
    and step: "driver_step i s = Inr (s', out)"
  defines "R' \<equiv> if bufpos s' = bufpos s then R else Suc R"
    and "N' \<equiv> if lfs s' = lfs s then N else Suc N"
  shows "out_inv blk s' R' N' (A \<union> a) \<and>
    (\<forall>pkt. Packet_out pkt \<in> set out \<longrightarrow> (\<exists>k < N'. carried blk (A \<union> a) k pkt)) \<and>
    (N' = Suc N \<longrightarrow> (\<exists>pkt. Packet_out pkt \<in> set out \<and> packet_of blk N pkt)) \<and>
    (R' = Suc R \<longrightarrow> carries (msg R) (blk R))"
  using step
proof (rule driver_step_split)
  fix s1 out1 s2 u out2 v out3
  assume 1: "(case from_timer i of None \<Rightarrow> Inr (s, [])
        | Some msg \<Rightarrow> resend_step (sending i) (clock_resend i) msg s) = Inr (s1, out1)"
    and 2: "(case from_ftpc i of None \<Rightarrow> Inr s1 | Some r \<Rightarrow> ftpc_step r s1) = Inr s2"
    and 3: "(case from_troll i of None \<Rightarrow> Inr (s2, []) | Some r \<Rightarrow> ack_step (clock_ack i) r s2) = Inr (u, out2)"
    and 4: "send_next (sending i) (clock_send i) u = Inr (v, out3)"
    and s': "s' = v\<lparr>packet := clear_packet (packet v)\<rparr>" and out: "out = out1 @ out2 @ out3"
  have s: "driver_inv s" "A \<subseteq> {..<N}" "N \<le> R" "held blk (sendbuf s) R A" "phase (lar s) (lfs s) (int R) (int N)"
    "cleared (sendbuf s) R A"
    using inv by (simp_all add: out_inv_def)
  have s1: "driver_inv s1" "sendbuf s1 = sendbuf s" "lar s1 = lar s" "lfs s1 = lfs s" "bufpos s1 = bufpos s"
    using 1 s(1) resend_step_frame by (auto split: option.splits)
  then have inv1: "out_inv blk s1 R N A"
    using inv by (simp add: out_inv_def)
  have ok1: "ftpc_ok msg blk i s1 R"
    using ok(2) s1 by (simp add: ftpc_ok_def can_store_def)
  have p1: "\<forall>pkt. Packet_out pkt \<in> set out1 \<longrightarrow> (\<exists>k < N. carried blk A k pkt)"
    by (rule timer_branch [OF s(1) ok(1) s(4,6,3) 1])
  define R2 where "R2 = (if bufpos s2 = bufpos s1 then R else Suc R)"
  have s2: "driver_inv s2" "lar s2 = lar s" "lfs s2 = lfs s"
    using 2 s1 ftpc_step_frame [OF s1(1)] by (auto split: option.splits)
  have b: "R2 = R \<or> R2 = Suc R \<and> store_ok (lar s) (lfs s) (pos (int R))" "bufpos s2 = pos (int R2)"
    "held blk (sendbuf s2) R2 A" "cleared (sendbuf s2) R2 A" "lar s2 \<le> lfs s2 \<or> 64 \<le> N \<longrightarrow> freed (sendbuf s2) (low R2) (lar s2)"
    and carry: "R2 = Suc R \<longrightarrow> carries (msg R) (blk R)"
    using ftpc_branch [OF inv1 st ok1 2] s1 s2 by (simp_all add: R2_def)
  have u: "driver_inv u"
    using 3 s2 ack_step_frame [OF s2(1), of "clock_ack i" _ u out2] by (auto split: option.splits)
  have R2: "R2 = R \<or> R2 = Suc R"
    using b(1) by auto
  note ack = ack_branch [OF s2(1) ok(3) 3 st s(2) R2 s(3) b(3,4,5)]
  have send: "driver_inv s'" "sendbuf s' = sendbuf u" "lar s' = lar u" "bufpos s' = bufpos u"
    "lfs s' = (if can_send u then next_lfs (lfs s) else lfs s)"
    using send_next_frame [OF u 4] s' ack s2 by auto
  have "bufpos s' = bufpos s2"
    using send ack by simp
  then have R': "R' = R2"
    using s1(5) by (simp add: R'_def R2_def)
  have can: "can_send u \<longleftrightarrow> send_ok (lar u) (lfs s) (pos (int R2))"
    using ack b(2) s2(3) by (simp add: can_send_ok)
  have N': "N' = (if can_send u then Suc N else N)"
    using send(5) by (auto simp: N'_def next_lfs_neq)
  note lims = driver_invD [OF s(1)] driver_invD [OF u]
  have wait: "lar u \<le> lfs s" if "int N < int R2" "int N < 64" "lar s \<le> lfs s"
    using ack that s(5) s2 by (auto simp: phase_def)
  have "phase (lar u) (lfs s') (int R2) (int N') \<and> int N' \<le> int R2"
  proof (rule phase_step [OF s(5)])
    show "int R2 = int R \<or> int R2 = int R + 1 \<and> store_ok (lar s) (lfs s) (pos (int R))"
      using b(1) by auto
  qed (use s(3) lims ack s2 wait N' can send(5) in auto)
  then have ph: "phase (lar s') (lfs s') (int R') (int N')" "N' \<le> R'"
    by (simp_all add: R' send(3))
  have "out_inv blk s' R' N' (A \<union> a)"
    unfolding out_inv_def
  proof (intro conjI impI)
    show "A \<union> a \<subseteq> {..<N'}"
      using ack N' by auto
    assume "lar s' \<le> lfs s' \<or> 64 \<le> N'"
    then have "lar u \<le> lfs s \<or> 64 \<le> N"
      using ph(1) send N' s(5) can driver_invD(4) [OF u] by (auto simp: phase_def send_ok_def next_lfs_def split: if_splits)
    then show "freed (sendbuf s') (low R') (lar s')"
      using ack s2 by (simp add: R' send)
  qed (use send ph ack b(2) R' in auto)
  moreover have "\<exists>pkt r. out3 = [Packet_out pkt, Start_timer r (slot N)] \<and> packet_of blk N pkt" if "can_send u"
  proof (rule send_branch [OF u])
    show "held blk (sendbuf u) R2 (A \<union> a)" "N \<notin> A \<union> a"
      using ack by auto
    show "lfs u + 1 = slot N"
      using phase_slot [OF s(5)] ack s2 by simp
  qed (use ph(2) N' R' that 4 in auto)
  moreover have "out3 = []" if "\<not> can_send u"
    using 4 that by (simp add: send_next_def)
  ultimately show ?thesis
    using p1 ack N' R' carry carried_mono [of blk A _ _ "A \<union> a"]
    by (cases "can_send u") (fastforce simp: out less_Suc_eq carried_def)+
qed

lemma sender_run_inv:
  assumes "sender_run msg blk s R N A out" and st: "is_stream blk"
  shows "out_inv blk s R N A \<and>
    (\<forall>pkt. Packet_out pkt \<in> set out \<longrightarrow> (\<exists>k < N. carried blk A k pkt)) \<and>
    (\<forall>k < N. \<exists>pkt. Packet_out pkt \<in> set out \<and> packet_of blk k pkt)"
  using assms(1)
proof (induction rule: sender_run.induct)
  case (start bs p b)
  then have "driver_inv (driver_init bs p b)"
    by (rule driver_inv_init)
  then show ?case
    by (simp add: out_inv_def held_def cleared_def) (auto simp: driver_init_def freed_def phase_def pos_def low_def)
next
  case (iteration s R N A out i a s' out')
  let ?N' = "if lfs s' = lfs s then N else Suc N"
  have IH: "out_inv blk s R N A" "\<forall>pkt. Packet_out pkt \<in> set out \<longrightarrow> (\<exists>k < N. carried blk A k pkt)"
    "\<forall>k < N. \<exists>pkt. Packet_out pkt \<in> set out \<and> packet_of blk k pkt"
    using iteration.IH by auto
  note after_step = out_inv_step [OF IH(1) st iteration.hyps(2-5)]
  have "\<exists>k < ?N'. carried blk (A \<union> a) k pkt" if "Packet_out pkt \<in> set (out @ out')" for pkt
  proof (cases "Packet_out pkt \<in> set out")
    case True
    then obtain k where "k < N" "carried blk A k pkt"
      using IH(2) by blast
    then have "k < ?N'" "carried blk (A \<union> a) k pkt"
      by (auto intro: carried_mono)
    then show ?thesis by blast
  qed (use that after_step in auto)
  moreover have "\<exists>pkt. Packet_out pkt \<in> set (out @ out') \<and> packet_of blk k pkt" if "k < ?N'" for k
    using that IH(3) after_step by (auto simp: less_Suc_eq split: if_splits)
  ultimately show ?case
    using after_step by blast
qed

text \<open>In the first round the slots that are still to be filled are not touched.\<close>

lemma slots_ahead:
  assumes inv: "out_inv blk s R N A" and ok: "ftpc_ok msg blk i s R" "acks_ok i R N a"
    and step: "driver_step i s = Inr (s', out)"
    and j: "(if bufpos s' = bufpos s then R else Suc R) \<le> j" "j < 64"
  shows "sendbuf s' ! j = sendbuf s ! j"
  using step
proof (rule driver_step_split)
  fix s1 out1 s2 u out2 v out3
  assume 1: "(case from_timer i of None \<Rightarrow> Inr (s, [])
        | Some msg \<Rightarrow> resend_step (sending i) (clock_resend i) msg s) = Inr (s1, out1)"
    and 2: "(case from_ftpc i of None \<Rightarrow> Inr s1 | Some r \<Rightarrow> ftpc_step r s1) = Inr s2"
    and 3: "(case from_troll i of None \<Rightarrow> Inr (s2, []) | Some r \<Rightarrow> ack_step (clock_ack i) r s2) = Inr (u, out2)"
    and 4: "send_next (sending i) (clock_send i) u = Inr (v, out3)"
    and s': "s' = v\<lparr>packet := clear_packet (packet v)\<rparr>"
  have s: "driver_inv s" "N \<le> R" "bufpos s = pos (int R)"
    using inv by (simp_all add: out_inv_def)
  have s1: "driver_inv s1" "sendbuf s1 = sendbuf s" "bufpos s1 = bufpos s"
    using 1 s(1) resend_step_frame by (auto split: option.splits)
  have s2: "driver_inv s2"
    using 2 s1 ftpc_step_frame [OF s1(1)] by (auto split: option.splits)
  note ack = ack_result [OF s2 ok(2) 3]
  have u: "driver_inv u"
    using 3 s2 ack_step_frame [OF s2, of "clock_ack i" _ u out2] by (auto split: option.splits)
  have b: "sendbuf s' = sendbuf u" "bufpos s' = bufpos s2"
    using send_next_frame [OF u 4] ack s' by auto
  have R: "R \<le> j"
    using j(1) by (simp split: if_splits)
  then have pos: "bufpos s = int R"
    using s(3) j(2) by (simp add: pos_def)
  have "sendbuf s2 ! j = sendbuf s ! j"
  proof (cases "s2 = s1")
    case False
    then have m: "from_ftpc i = Some (Some (msg R))" "length (msg R) \<le> BUFFSIZE"
      using ok(1) 2 by (auto simp: ftpc_ok_def)
    then have "s2 = s1\<lparr>sendbuf := (sendbuf s1)[nat (bufpos s1) := put_bytes 0 (msg R) (sendbuf s1 ! nat (bufpos s1))],
        bufpos := (if bufpos s1 = 63 then 0 else bufpos s1 + 1)\<rparr>"
      using ftpc_result [OF s1(1) m(2), of s2] 2 False by (auto split: if_splits)
    then have "Suc R \<le> j" "sendbuf s2 ! j = (sendbuf s1)[R := put_bytes 0 (msg R) (sendbuf s1 ! R)] ! j"
      using j(1) b(2) s1(3) pos by (auto split: if_splits)
    with s1(2) show ?thesis by simp
  qed (simp add: s1)
  moreover have "sendbuf u ! j = sendbuf s2 ! j"
  proof (cases "u = s2")
    case False
    then obtain k where "k < N" "sendbuf u = (sendbuf s2)[nat (slot k) := zero_block]"
      using ack by blast
    then show ?thesis
      using R s(2) j(2) by (simp add: slot_def)
  qed simp
  ultimately show ?thesis
    by (simp add: b)
qed

text \<open>The datagrams that are still to come fill their slots to the blocks of the stream.\<close>

definition fits ::
  "(nat \<Rightarrow> byte list) \<Rightarrow> (nat \<Rightarrow> byte list) \<Rightarrow> driver_state \<Rightarrow> nat \<Rightarrow> nat \<Rightarrow> bool" where
  "fits msg blk s R M \<longleftrightarrow>
    (\<forall>k. R \<le> k \<and> k < M \<longrightarrow> length (msg k) \<le> BUFFSIZE \<and> put_bytes 0 (msg k) (sendbuf s ! k) = blk k)"

lemma fits_driver:
  assumes "fits msg blk s R M" and "M \<le> 64" and "out_inv blk s R N A" and "ftpc_ok msg blk i s R"
    and "acks_ok i R N a" and "driver_step i s = Inr (s', out)"
  shows "fits msg blk s' (if bufpos s' = bufpos s then R else Suc R) M"
  unfolding fits_def
proof (intro allI impI)
  fix k
  assume k: "(if bufpos s' = bufpos s then R else Suc R) \<le> k \<and> k < M"
  then have "sendbuf s' ! k = sendbuf s ! k"
    using slots_ahead [OF assms(3-6)] assms(2) by simp
  with k assms(1) show "length (msg k) \<le> BUFFSIZE \<and> put_bytes 0 (msg k) (sendbuf s' ! k) = blk k"
    by (auto simp: fits_def split: if_splits)
qed

text \<open>The blocks taken carry the datagrams of the application.\<close>

lemma sender_run_carries:
  assumes "sender_run msg blk s R N A out" and st: "is_stream blk" and "k < R"
  shows "carries (msg k) (blk k)"
  using assms(1,3)
proof (induction rule: sender_run.induct)
  case (iteration s R N A out i a s' out')
  have "out_inv blk s R N A"
    using sender_run_inv [OF iteration.hyps(1) st] by simp
  from out_inv_step [OF this st iteration.hyps(2-5)] iteration.IH iteration.prems show ?case
    by (auto simp: less_Suc_eq split: if_splits)
qed simp

lemma put_whole: "length m = length old \<Longrightarrow> put_bytes 0 m old = m"
  by (simp add: put_bytes_def)

lemma first_arrives: "ftpc_ok (\<lambda>_. ones) (\<lambda>_. ones) block_arrives empty_driver 0"
  by (simp add: ftpc_ok_def block_arrives_def empty_driver_def driver_init_def put_whole zero_block_def)

lemma sender_run_one: "\<exists>s out. sender_run (\<lambda>_. ones) (\<lambda>_. ones) s 1 1 {} out"
proof -
  have r: "sender_run (\<lambda>_. ones) (\<lambda>_. ones) empty_driver 0 0 {} []"
    unfolding empty_driver_def by (rule sender_run.start) (simp_all add: blocks_ok_replicate)
  obtain s' out where step: "driver_step block_arrives empty_driver = Inr (s', out)" "lfs s' = 0" "bufpos s' = 1"
    using first_block_step by blast
  have "lfs empty_driver = -1" "bufpos empty_driver = 0"
    by (simp_all add: empty_driver_def driver_init_def)
  with sender_run.iteration [OF r _ first_arrives _ step(1), of "{}"] step(2,3) show ?thesis
    by (auto simp: timer_ok_def acks_ok_def block_arrives_def)
qed

text \<open>
  Without the condition on acknowledgements a block can be lost: nothing in \<open>client\<close> filters a
  late copy of the acknowledgement of frame \<open>k\<close>, and it zeroes the slot that frame \<open>k + 64\<close>
  has by then.
\<close>

lemma stale_ack_zeroes_block:
  assumes "driver_inv s" and "good_ack d (slot k)" and "ack_step now (Some d) s = Inr (s', out)"
    and "is_stream blk" and "k + 64 < R" and "k + 64 \<notin> A"
  shows "sendbuf s' ! nat (slot (k + 64)) = zero_block \<and> \<not> held blk (sendbuf s') R (insert k A)"
proof -
  note s = driver_invD [OF assms(1)]
  have "sendbuf s' = (sendbuf s)[nat (slot k) := zero_block]"
    using assms(3) ack_step_good [OF assms(2) s(2)] update_lar_sound [of "acknowledged now d (slot k) s"] s
    by (auto simp: bindE_eq_Inr)
  moreover have "slot (k + 64) = slot k" "nat (slot k) < length (sendbuf s)"
    using s(2) by (simp_all add: slot_def nat_less_iff)
  ultimately have zero: "sendbuf s' ! nat (slot (k + 64)) = zero_block"
    by simp
  moreover have "blk (k + 64) \<noteq> zero_block"
    using assms(4) by (metis checkEmpty_zero_block is_stream_def)
  ultimately show ?thesis
    using assms(5,6) by (auto simp: held_def)
qed

section \<open>Properties\<close>

text \<open>
  C8: The driver sends the stream. Every packet it sends, for the first time or again,
  carries the number and the block of one of the \<open>N\<close> frames sent so far, or no block at all
  if that frame is acknowledged, and each of them has been sent; no frame is sent before its
  block has come from the application. A request of the timer may come late, for a frame that
  is acknowledged, and an acknowledgement may be repeated or damaged, but both only until the
  slot of the frame has been given to the block 64 frames on (\<open>timer_ok\<close>, \<open>acks_ok\<close>); a later
  copy of an acknowledgement would make an empty packet of a frame that is not acknowledged.
\<close>

theorem sender_sends_stream:
  assumes "sender_run msg blk s R N A out" and "is_stream blk"
  shows "(\<forall>pkt. Packet_out pkt \<in> set out \<longrightarrow> (\<exists>k < N. packet_of blk k pkt \<or> k \<in> A \<and> empty_packet k pkt)) \<and>
    (\<forall>k < N. \<exists>pkt. Packet_out pkt \<in> set out \<and> packet_of blk k pkt) \<and> N \<le> R"
  using sender_run_inv [OF assms] by (simp add: out_inv_def carried_def)

theorem sender_sends_stream_witness:
  "\<exists>s out. sender_run (\<lambda>_. ones) (\<lambda>_. ones) s 1 1 {} out \<and> (\<exists>pkt. Packet_out pkt \<in> set out \<and> packet_of (\<lambda>_. ones) 0 pkt)"
proof -
  obtain s out where r: "sender_run (\<lambda>_. ones) (\<lambda>_. ones) s 1 1 {} out"
    using sender_run_one by blast
  from sender_sends_stream [OF r] have "\<exists>pkt. Packet_out pkt \<in> set out \<and> packet_of (\<lambda>_. ones) 0 pkt"
    by (simp add: is_stream_def)
  with r show ?thesis by blast
qed



end
