(* ===== verification/EndToEnd.thy ===== *)
theory EndToEnd
  imports Outgoing Delivery
begin

text \<open>
  The sender and the receiver of \<open>project1/tcpd.c\<close> together, with the network between them.
  \<open>transfer\<close> interleaves iterations of the driver with iterations of the server; the network
  hands the server packets the driver has sent, and the driver acknowledgements the server
  has sent, in any order, any number of times or never, or anything with a wrong checksum.
  It keeps a packet or an acknowledgement no longer than its number stays unambiguous. The
  theorems: no block is lost or delivered twice as long as frames stay in the window of the
  server, and how the 21st frame of a wrapped window leaves it and is lost.
\<close>

section \<open>The frames received\<close>

text \<open>The frames that are delivered or wait in the buffer of the server.\<close>

definition received :: "receiver_spec \<Rightarrow> nat \<Rightarrow> nat set" where
  "received r n = {..<n} \<union> {k. n \<le> k \<and> k < n + 20 \<and> filled (slots r ! (k - n))}"

lemma takeWhile_all: "k < length (takeWhile P xs) \<Longrightarrow> P (xs ! k)"
  using set_takeWhileD nth_mem takeWhile_nth by metis

lemma spec_accept_received:
  assumes st: "is_stream blk" and inv: "stream_inv blk r n" and j: "n \<le> j + 44" "j < n + 20"
    and acc: "spec_accept r (int j mod 64) (blk j) BUFFSIZE = (r', out)"
  shows "received r' (n + length out) = insert j (received r n)"
proof (cases "n \<le> j \<and> checkEmpty (slots r ! (j - n))")
  case False
  then have "r' = r \<and> out = []"
    using acc inv frame_offset [OF j] by (auto simp: spec_accept_def stream_inv_def Let_def)
  moreover have "j \<in> received r n"
    using False j by (auto simp: received_def)
  ultimately show ?thesis
    by (simp add: insert_absorb)
next
  case True
  define w where "w = (slots r)[j - n := blk j]"
  define m where "m = length (takeWhile filled w)"
  have lw: "length w = 20"
    using inv by (simp add: w_def stream_inv_def)
  then have m: "m \<le> 20"
    using length_takeWhile_le [of filled w] by (simp add: m_def)
  have "spec_accept r (int j mod 64) (blk j) BUFFSIZE =
      (\<lparr>expected = (expected r + int m) mod 64, slots = drop m w @ replicate m zero_block\<rparr>,
       map (\<lambda>b. To_ftps (take BUFFSIZE b)) (takeWhile filled w))"
    using True inv frame_offset [OF j]
    by (simp add: spec_accept_def stream_inv_def Let_def w_def [symmetric] m_def [symmetric])
  then have r': "slots r' = drop m w @ replicate m zero_block" "length out = m"
    using acc by (auto simp: m_def)
  have front: "filled (w ! k)" if "k < m" for k
    using that takeWhile_all unfolding m_def by blast
  have w: "filled (w ! (k - n)) \<longleftrightarrow> k = j \<or> filled (slots r ! (k - n))" if "n \<le> k" "k < n + 20" for k
    using that True j inv st by (auto simp: w_def stream_inv_def nth_list_update is_stream_def)
  have slot: "filled (slots r' ! (k - (n + m))) \<longleftrightarrow> k < n + 20 \<and> filled (w ! (k - n))"
    if k: "n + m \<le> k" "k < n + m + 20" for k
  proof (cases "k < n + 20")
    case True
    then have "k - (n + m) < 20 - m" "m + (k - (n + m)) = k - n"
      using k(1) by arith+
    then have "slots r' ! (k - (n + m)) = w ! (k - n)"
      using lw by (simp add: r' nth_append)
    with True show ?thesis by simp
  next
    case False
    then have "\<not> k - (n + m) < 20 - m" "k - (n + m) - (20 - m) < m"
      using k m by arith+
    then have "slots r' ! (k - (n + m)) = zero_block"
      using lw by (simp add: r' nth_append)
    with False show ?thesis by simp
  qed
  show ?thesis
  proof (rule set_eqI)
    fix k
    show "k \<in> received r' (n + length out) \<longleftrightarrow> k \<in> insert j (received r n)"
    proof (cases "k < n")
      case True
      then show ?thesis by (simp add: received_def)
    next
      case False
      then have n: "n \<le> k" by simp
      have "k \<in> received r' (n + length out) \<longleftrightarrow> k < n + 20 \<and> filled (w ! (k - n))"
      proof (cases "k < n + m")
        case True
        then have "k - n < m"
          using n by arith
        from True m show ?thesis
          using front [OF \<open>k - n < m\<close>] by (auto simp: received_def r'(2))
      next
        case False
        with slot [of k] m show ?thesis
          by (auto simp: received_def r'(2))
      qed
      with n w [OF n] True j show ?thesis
        by (auto simp: received_def)
    qed
  qed
qed

lemma ack_number_fill:
  assumes "length a = header_size" and "is_int32 seqNum"
  shows "ack_number (fill_ack a seqNum time) = seqNum"
  using assms
  by (simp add: ack_number_def fill_ack_def Let_def zero_bytes_def mem_simps int_of_bytes_int_bytes)

section \<open>Sender, network and receiver\<close>

text \<open>
  The ghost state: the counts of the sender, the number \<open>n\<close> of blocks delivered, the outputs
  of both sides, and the acknowledgements \<open>K\<close> with the frame each of them answers.
\<close>

definition network_ack ::
  "driver_input \<Rightarrow> nat \<Rightarrow> (nat \<times> byte list) set \<Rightarrow> nat set \<Rightarrow> bool" where
  "network_ack i R K a \<longleftrightarrow>
    (from_troll i = None \<and> a = {}) \<or>
    (\<exists>d. from_troll i = Some (Some d) \<and> \<not> ack_ok (take header_size d) \<and> a = {}) \<or>
    (\<exists>d k. from_troll i = Some (Some d) \<and> ack_ok (take header_size d) \<and> (k, d) \<in> K \<and> R < k + 64 \<and> a = {k})"

type_synonym transfer_state =
  "driver_state \<times> nat \<times> nat \<times> nat set \<times> driver_out list \<times>
    server_state \<times> nat \<times> datagram list \<times> (nat \<times> byte list) set"

inductive transfer_step :: "(nat \<Rightarrow> byte list) \<Rightarrow> (nat \<Rightarrow> byte list) \<Rightarrow> transfer_state \<Rightarrow> transfer_state \<Rightarrow> bool"
  for msg blk :: "nat \<Rightarrow> byte list"
where
  driver: "timer_ok i R N \<Longrightarrow> ftpc_ok msg blk i s R \<Longrightarrow> network_ack i R K a \<Longrightarrow> driver_step i s = Inr (s', out') \<Longrightarrow>
    transfer_step msg blk (s, R, N, A, out, t, n, sout, K)
      (s', if bufpos s' = bufpos s then R else Suc R, if lfs s' = lfs s then N else Suc N,
       A \<union> a, out @ out', t, n, sout, K)"
| server: "Packet_out pkt \<in> set out \<Longrightarrow> j < N \<Longrightarrow> carried blk A j pkt \<Longrightarrow> n \<le> j + 44 \<Longrightarrow> j < n + 20 \<Longrightarrow>
    lfr t \<noteq> 63 \<Longrightarrow> server_step all_sent t (Some pkt) = Inr (t', sout') \<Longrightarrow>
    transfer_step msg blk (s, R, N, A, out, t, n, sout, K)
      (s, R, N, A, out, t', n + length (ftps_of sout'), sout @ sout', K \<union> {(j, d) | d. To_troll d \<in> set sout'})"
| noise: "\<not> packet_ok (put_bytes 0 (take packet_size d) (replicate packet_size 0)) \<Longrightarrow>
    server_step all_sent t (Some d) = Inr (t', sout') \<Longrightarrow>
    transfer_step msg blk (s, R, N, A, out, t, n, sout, K) (s, R, N, A, out, t', n, sout @ sout', K)"

text \<open>Any number of steps from a state, and the states that are reached from the start.\<close>

abbreviation continues :: "(nat \<Rightarrow> byte list) \<Rightarrow> (nat \<Rightarrow> byte list) \<Rightarrow> transfer_state \<Rightarrow> transfer_state \<Rightarrow> bool" where
  "continues msg blk \<equiv> rtranclp (transfer_step msg blk)"

inductive transfer ::
  "(nat \<Rightarrow> byte list) \<Rightarrow> (nat \<Rightarrow> byte list) \<Rightarrow> driver_state \<Rightarrow> nat \<Rightarrow> nat \<Rightarrow> nat set \<Rightarrow> driver_out list \<Rightarrow>
    server_state \<Rightarrow> nat \<Rightarrow> datagram list \<Rightarrow> (nat \<times> byte list) set \<Rightarrow> bool"
  for msg blk :: "nat \<Rightarrow> byte list"
where
  start: "blocks_ok bs \<Longrightarrow> length p = packet_size \<Longrightarrow> length b = BUFFER_SIZE \<Longrightarrow> length a = header_size \<Longrightarrow>
    transfer msg blk (driver_init bs p b) 0 0 {} [] (server_init a) 0 [] {}"
| step: "transfer msg blk s R N A out t n sout K \<Longrightarrow>
    transfer_step msg blk (s, R, N, A, out, t, n, sout, K) (s', R', N', A', out', t', n', sout', K') \<Longrightarrow>
    transfer msg blk s' R' N' A' out' t' n' sout' K'"

lemmas transfer_driver = transfer.step [OF _ transfer_step.driver]
  and transfer_server = transfer.step [OF _ transfer_step.server]
  and transfer_noise = transfer.step [OF _ transfer_step.noise]

lemma continues_one: "transfer_step msg blk c c' \<Longrightarrow> continues msg blk c c'"
  by (rule r_into_rtranclp)

lemma continues_first: "transfer_step msg blk c c' \<Longrightarrow> continues msg blk c' c'' \<Longrightarrow> continues msg blk c c''"
  by (rule converse_rtranclp_into_rtranclp)

lemma continues_trans: "continues msg blk c c' \<Longrightarrow> continues msg blk c' c'' \<Longrightarrow> continues msg blk c c''"
  by (rule rtranclp_trans)

lemma transfer_continues:
  assumes "continues msg blk (s, R, N, A, out, t, n, sout, K) (s', R', N', A', out', t', n', sout', K')"
    and "transfer msg blk s R N A out t n sout K"
  shows "transfer msg blk s' R' N' A' out' t' n' sout' K'"
  using assms
  by (induction "(s', R', N', A', out', t', n', sout', K')" arbitrary: s' R' N' A' out' t' n' sout' K'
      rule: rtranclp_induct)
    (auto intro: transfer.step)

text \<open>One packet of the stream at the server.\<close>

lemma server_step_stream:
  assumes st: "is_stream blk" and t: "server_ok t" "lfr t \<noteq> 63" "stream_inv blk (abs_recv t) n"
    and j: "n \<le> j + 44" "j < n + 20" and pkt: "packet_of blk j pkt"
    and step: "server_step all_sent t (Some pkt) = Inr (t', out)"
  shows "server_ok t' \<and> stream_inv blk (abs_recv t') (n + length (ftps_of out)) \<and>
    ftps_of out = map blk [n..<n + length (ftps_of out)] \<and>
    received (abs_recv t') (n + length (ftps_of out)) = insert j (received (abs_recv t) n) \<and>
    (\<forall>d. To_troll d \<in> set out \<and> ack_ok (take header_size d) \<longrightarrow> good_ack d (slot j))"
proof -
  obtain p now where p: "packet_ready p" "pkt = fill_packet p (slot j) (blk j) now"
    using pkt by (auto simp: packet_of_def)
  have body: "length (blk j) = BUFFSIZE"
    using st by (simp add: is_stream_def)
  obtain t1 o1 where 1: "server_step all_sent t (Some pkt) = Inr (t1, o1 @ [To_troll (ack_for t pkt)])"
    "server_ok t1" "spec_accept (abs_recv t) (slot j) (blk j) BUFFSIZE = (abs_recv t1, o1)"
    using server_step_spec [OF t(1,2) p(1) body slot_bounds p(2)] by blast
  then have eq: "t' = t1" "out = o1 @ [To_troll (ack_for t pkt)]"
    using step by simp_all
  obtain r' n' where 2: "spec_accept (abs_recv t) (slot j) (blk j) BUFFSIZE = (r', map To_ftps (map blk [n..<n']))"
    "stream_inv blk r' n'" "n \<le> n'"
    using spec_accept_stream [OF st t(3) j] unfolding slot_def by blast
  have o1: "o1 = map To_ftps (map blk [n..<n'])" "abs_recv t1 = r'"
    using 1(3) 2(1) by simp_all
  then have ftps: "ftps_of out = map blk [n..<n']" "n + length (ftps_of out) = n'"
    using ftps_of_map [of "\<lambda>b. b" "map blk [n..<n']"] 2(3) by (simp_all add: eq)
  have rcv: "received (abs_recv t') n' = insert j (received (abs_recv t) n)"
    using spec_accept_received [OF st t(3) j, of "abs_recv t1" o1] 1(3) o1(1) 2(3) by (simp add: slot_def eq)
  have len: "length (ack t) = header_size"
    using t(1) by (simp add: server_ok_def)
  have seq: "packet_seq pkt = slot j" "is_int32 (slot j)"
    using p body by (simp_all add: packet_seq_fill is_int32_index)
  have good: "good_ack (ack_for t pkt) (slot j)" if "ack_ok (take header_size (ack_for t pkt))"
    using that len seq ack_number_fill [OF len seq(2)] by (simp add: good_ack_def ack_for_def)
  have "To_troll d \<notin> set o1" for d
    unfolding o1(1) by auto
  then show ?thesis
    using good 1(2) 2(2) ftps rcv by (auto simp: eq o1(2))
qed

text \<open>The packet of an acknowledged frame without a block changes nothing.\<close>

lemma server_step_empty:
  assumes t: "server_ok t" "lfr t \<noteq> 63" "stream_inv blk (abs_recv t) n"
    and j: "n \<le> j + 44" "j < n + 20" "j \<in> received (abs_recv t) n" and pkt: "empty_packet j pkt"
    and step: "server_step all_sent t (Some pkt) = Inr (t', out)"
  shows "server_ok t' \<and> abs_recv t' = abs_recv t \<and> ftps_of out = [] \<and>
    (\<forall>d. To_troll d \<in> set out \<and> ack_ok (take header_size d) \<longrightarrow> good_ack d (slot j))"
proof -
  obtain p now where p: "packet_ready p" "pkt = fill_packet p (slot j) zero_block now"
    using pkt by (auto simp: empty_packet_def packet_of_def)
  have body: "length zero_block = BUFFSIZE"
    by (simp add: zero_block_def)
  obtain t1 o1 where 1: "server_step all_sent t (Some pkt) = Inr (t1, o1 @ [To_troll (ack_for t pkt)])"
    "server_ok t1" "spec_accept (abs_recv t) (slot j) zero_block BUFFSIZE = (abs_recv t1, o1)"
    using server_step_spec [OF t(1,2) p(1) body slot_bounds p(2)] by blast
  have "\<not> (n \<le> j \<and> checkEmpty (slots (abs_recv t) ! (j - n)))"
    using j(3) by (auto simp: received_def)
  then have "spec_accept (abs_recv t) (slot j) zero_block BUFFSIZE = (abs_recv t, [])"
    using t(3) frame_offset [OF j(1,2)] by (auto simp: spec_accept_def stream_inv_def Let_def slot_def)
  then have eq: "t' = t1" "out = [To_troll (ack_for t pkt)]" "abs_recv t1 = abs_recv t"
    using 1 step by simp_all
  have len: "length (ack t) = header_size"
    using t(1) by (simp add: server_ok_def)
  have "packet_seq pkt = slot j" "is_int32 (slot j)"
    using p body by (simp_all add: packet_seq_fill is_int32_index)
  then have "ack_number (ack_for t pkt) = slot j"
    using ack_number_fill [OF len, of "slot j"] by (simp add: ack_for_def)
  then show ?thesis
    using eq 1(2) len by (auto simp: good_ack_def ack_for_def)
qed

section \<open>The invariant\<close>

definition transfer_inv ::
  "(nat \<Rightarrow> byte list) \<Rightarrow> nat \<Rightarrow> nat set \<Rightarrow> server_state \<Rightarrow> nat \<Rightarrow> datagram list \<Rightarrow>
    (nat \<times> byte list) set \<Rightarrow> bool" where
  "transfer_inv blk N A t n sout K \<longleftrightarrow> server_ok t \<and> stream_inv blk (abs_recv t) n \<and>
    ftps_of sout = map blk [0..<n] \<and> received (abs_recv t) n \<subseteq> {..<N} \<and> A \<subseteq> received (abs_recv t) n \<and>
    (\<forall>k d. (k, d) \<in> K \<longrightarrow> k \<in> received (abs_recv t) n \<and>
      (ack_ok (take header_size d) \<longrightarrow> good_ack d (slot k)))"

lemma transfer_invariant:
  assumes "transfer msg blk s R N A out t n sout K" and st: "is_stream blk"
  shows "sender_run msg blk s R N A out \<and> transfer_inv blk N A t n sout K"
  using assms(1)
proof (induction rule: transfer.induct)
  case (start bs p b a)
  have "slots (abs_recv (server_init a)) ! k = zero_block" if "k < 20" for k
    using that by (simp add: abs_recv_def server_init_def nth_window nat_less_iff)
  then have "received (abs_recv (server_init a)) 0 = {}"
    by (auto simp: received_def)
  with start show ?case
    by (simp add: transfer_inv_def server_ok_def recv_inv_init stream_inv_init sender_run.start)
      (simp add: server_init_def)
next
  case (step s R N A out t n sout K s' R' N' A' out' t' n' sout' K')
  have inv: "transfer_inv blk N A t n sout K" and run: "sender_run msg blk s R N A out"
    using step.IH by simp_all
  from step.hyps(2) show ?case
  proof cases
    case (driver i a o1)
    have acks: "acks_ok i R N a" and a: "a \<subseteq> received (abs_recv t) n"
      using driver(11) inv by (auto simp: network_ack_def acks_ok_def transfer_inv_def subset_iff)
    have "sender_run msg blk s' R' N' A' out'"
      using sender_run.iteration [OF run driver(9,10) acks driver(12)] driver(1-4) by simp
    with inv a driver show ?thesis
      by (auto simp: transfer_inv_def)
  next
    case (server pkt j o1)
    note next_state = server_step_stream [OF st _ server(14) _ server(12,13) _ server(15)]
    note same_state = server_step_empty [OF _ server(14) _ server(12,13) _ _ server(15)]
    have "map blk [0..<n + m] = map blk [0..<n] @ map blk [n..<n + m]" for m
      by (metis le0 map_append upt_add_eq_append)
    note split = this
    show ?thesis
    proof (cases "packet_of blk j pkt")
      case True
      with inv next_state server step.IH split show ?thesis
        by (auto simp: transfer_inv_def)
    next
      case False
      then have "j \<in> A" "empty_packet j pkt"
        using server(11) by (simp_all add: carried_def)
      then have "j \<in> received (abs_recv t) n"
        using inv by (auto simp: transfer_inv_def)
      with inv same_state \<open>empty_packet j pkt\<close> server step.IH show ?thesis
        by (auto simp: transfer_inv_def)
    qed
  next
    case (noise d o1)
    then have "t' = t\<lparr>ack := clear_ack (ack t)\<rparr>" "o1 = []"
      by (simp_all add: server_step_damaged)
    with inv run noise show ?thesis
      by (simp add: transfer_inv_def server_ok_def)
  qed
qed

section \<open>A first block\<close>

lemma transfer_sent_one:
  "\<exists>s out. transfer (\<lambda>_. ones) (\<lambda>_. ones) s 1 1 {} out (server_init (replicate header_size 0)) 0 [] {}"
proof -
  have e: "lfs empty_driver = -1" "bufpos empty_driver = 0"
    by (simp_all add: empty_driver_def driver_init_def)
  have r: "transfer (\<lambda>_. ones) (\<lambda>_. ones) empty_driver 0 0 {} [] (server_init (replicate header_size 0)) 0 [] {}"
    unfolding empty_driver_def by (rule transfer.start) (simp_all add: blocks_ok_replicate)
  obtain s' out where step: "driver_step block_arrives empty_driver = Inr (s', out)" "lfs s' = 0" "bufpos s' = 1"
    using first_block_step by blast
  show ?thesis
    using transfer_driver [OF r _ first_arrives _ step(1), of "{}"] step(2,3) e
    by (auto simp: timer_ok_def network_ack_def block_arrives_def)
qed

lemma transfer_one:
  "\<exists>s out t sout K. transfer (\<lambda>_. ones) (\<lambda>_. ones) s 1 1 {} out t 1 sout K"
proof -
  let ?blk = "\<lambda>_ :: nat. ones"
  let ?t = "server_init (replicate header_size 0)"
  have st: "is_stream ?blk"
    by (simp add: is_stream_def)
  obtain s' out where one: "transfer ?blk ?blk s' 1 1 {} out ?t 0 [] {}"
    using transfer_sent_one by blast
  have "sender_run ?blk ?blk s' 1 1 {} out"
    using transfer_invariant [OF one st] by simp
  from sender_run_inv [OF this st] obtain pkt where pkt: "Packet_out pkt \<in> set out" "packet_of ?blk 0 pkt"
    by auto
  then obtain p now where p: "packet_ready p" "pkt = fill_packet p (int 0 mod 64) (?blk 0) now"
    by (auto simp: packet_of_def slot_def)
  have t: "server_ok ?t" "lfr ?t \<noteq> 63"
    by (simp add: server_ok_def recv_inv_init) (simp_all add: server_init_def)
  obtain t' n' a where "server_step all_sent ?t (Some pkt) = Inr (t', map To_ftps (map ?blk [0..<n']) @ [To_troll a])"
    "0 < n'"
    using server_step_frame [OF st t stream_inv_init, of 0 p now] p by auto
  then have srv: "\<exists>out'. server_step all_sent ?t (Some pkt) = Inr (t', out') \<and> 0 < length (ftps_of out')"
    using ftps_of_map [of "\<lambda>b. b" "map ?blk [0..<n']"] by simp
  then obtain out' where o: "server_step all_sent ?t (Some pkt) = Inr (t', out')" "0 < length (ftps_of out')"
    by blast
  have "carried ?blk {} 0 pkt"
    using pkt(2) by (simp add: carried_def)
  note tr = transfer_server [OF one pkt(1) _ this _ _ t(2) o(1)]
  have "length (ftps_of out') \<le> 1"
    using transfer_invariant [OF tr st] by (simp add: transfer_inv_def received_def)
  with o(2) have "length (ftps_of out') = 1"
    by linarith
  with tr show ?thesis
    by (simp, blast)
qed

section \<open>Properties\<close>



text \<open>
  C19: The window of the driver is one frame too wide once it wraps around. If 20 frames are
  outstanding and the server has received exactly the acknowledged ones, the driver sends
  one more frame; the server throws it away and acknowledges it; and the driver then zeroes
  the block, which is now nowhere.
\<close>

theorem wrapped_window_frame_lost:
  assumes "driver_inv s" and "can_send s" and "lfs s < lar s" and "63 - lar s + lfs s = 19"
    and "server_ok t" and "lfr t = lar s" and "ack_ready (ack t)"
  shows "\<exists>s1 pkt r a. send_next (\<lambda>_. True) now s = Inr (s1, [Packet_out pkt, Start_timer r (lfs s + 1)]) \<and>
    server_step all_sent t (Some pkt) = Inr (t\<lparr>ack := clear_ack a\<rparr>, [To_troll a]) \<and>
    good_ack a (lfs s + 1) \<and>
    (\<forall>time s2 out. ack_step time (Some a) s1 = Inr (s2, out) \<longrightarrow> sendbuf s2 ! nat (lfs s + 1) = zero_block)"
proof -
  note s = driver_invD [OF assms(1)]
  define q where "q = lfs s + 1"
  define pkt where "pkt = fill_packet (packet s) q (sendbuf s ! nat q) now"
  have q: "0 \<le> q" "q < 64"
    using s by (simp_all add: q_def)
  have body: "length (sendbuf s ! nat q) = BUFFSIZE"
    using s(1) q by (rule blocks_ok_nth)
  obtain s1 r where send: "send_next (\<lambda>_. True) now s = Inr (s1, [Packet_out pkt, Start_timer r q])"
    and s1: "sendbuf s1 = sendbuf s" "lar s1 = lar s"
    using send_next_good [OF assms(1,2), of "\<lambda>_. True" now] by (simp add: pkt_def q_def)
  have "recv_inv t"
    using assms(5) by (simp add: server_ok_def)
  then have "laf t = (if lar s \<le> 43 then lar s + 20 else lar s - 44)"
    using assms(6) by (simp add: recv_inv_def)
  then have out: "\<not> in_window (lfr t) (laf t) q"
    using assms(3,4,6) by (auto simp: in_window_def q_def)
  have srv: "server_step all_sent t (Some pkt) = Inr (t\<lparr>ack := clear_ack (ack_for t pkt)\<rparr>, [To_troll (ack_for t pkt)])"
    using server_step_outside [OF s(9) body q out pkt_def] .
  have good: "good_ack (ack_for t pkt) q"
    using good_ack_fill [OF assms(7) q] packet_seq_fill [OF s(9) body is_int32_index [OF q]]
    by (simp add: ack_for_def pkt_def)
  have "sendbuf s2 ! nat q = zero_block" if "ack_step time (Some (ack_for t pkt)) s1 = Inr (s2, o2)" for time s2 o2
  proof -
    have "update_lar (acknowledged time (ack_for t pkt) q s1) = Inr s2"
      using that good s1(1) s(2) by (auto simp: ack_step_good bindE_eq_Inr)
    from update_lar_sound [OF this] s s1 obtain l where
      "s2 = acknowledged time (ack_for t pkt) q s1\<lparr>lar := l\<rparr>"
      by auto
    then show ?thesis
      using q s1(1) s(2) by simp
  qed
  with send srv good show ?thesis
    unfolding q_def by blast
qed

theorem wrapped_window_frame_lost_witness:
  "\<exists>s1 pkt r a.
    send_next (\<lambda>_. True) \<lparr>tv_sec = 0, tv_usec = 0\<rparr> (driver_at (replicate 64 ones) 50 6 9) =
      Inr (s1, [Packet_out pkt, Start_timer r 7]) \<and>
    server_step all_sent \<lparr>recvbuf = replicate 64 zero_block, lfr = 50, laf = 6, ack = replicate header_size 0\<rparr>
      (Some pkt) =
      Inr (\<lparr>recvbuf = replicate 64 zero_block, lfr = 50, laf = 6, ack = clear_ack a\<rparr>, [To_troll a]) \<and>
    good_ack a 7"
proof -
  have "server_ok \<lparr>recvbuf = replicate 64 zero_block, lfr = 50, laf = 6, ack = replicate header_size 0\<rparr>"
    by (simp add: server_ok_def recv_inv_def blocks_ok_def clean_outside_def)
  from wrapped_window_frame_lost [OF _ _ _ _ this, of "driver_at (replicate 64 ones) 50 6 9"
      "\<lparr>tv_sec = 0, tv_usec = 0\<rparr>"]
  show ?thesis
    by (simp add: driver_inv_at blocks_ok_replicate can_send_def ack_ready_def get_bytes_def numeral_2_eq_2)
      blast
qed

end
