(* ===== verification/DeltaList.thy ===== *)
theory DeltaList
  imports Timeval
begin

text \<open>
  The list of running timers of \<open>project1/tcpd.c\<close>: \<open>find_timenode\<close>, \<open>add_timenode\<close>,
  \<open>delete_timenode\<close>, \<open>print_time_list\<close> and \<open>update_time_list\<close> on a store of nodes. Each
  node holds the time from the expiry of the node before it to its own. Memory from
  \<open>malloc\<close> has arbitrary content, which is an argument. The loops over the list have a
  bound on their passes, the number of nodes ever allocated plus one: on a list without
  cycles they end before it.
\<close>

section \<open>The code\<close>

datatype ptr =
    Null
  | At nat      \<comment> \<open>an allocated node\<close>
  | Wild        \<comment> \<open>a pointer that was never set\<close>

record time_node =
  node_id :: int
  delta_time :: timeval
  port_num :: int
  forward :: ptr
  next_node :: ptr

type_synonym store = "nat \<rightharpoonup> time_node"

definition deref :: "store \<Rightarrow> ptr \<Rightarrow> fault + time_node" where
  "deref m p =
    (case p of At a \<Rightarrow> (case m a of Some n \<Rightarrow> Inr n | None \<Rightarrow> Inl OutOfBounds) | _ \<Rightarrow> Inl OutOfBounds)"

definition is_null :: "ptr \<Rightarrow> fault + bool" where
  "is_null p = (case p of Null \<Rightarrow> Inr True | At a \<Rightarrow> Inr False | Wild \<Rightarrow> Inl OutOfBounds)"

definition update_node :: "store \<Rightarrow> ptr \<Rightarrow> (time_node \<Rightarrow> time_node) \<Rightarrow> fault + store" where
  "update_node m p f =
    (case p of At a \<Rightarrow> (case m a of Some n \<Rightarrow> Inr (m(a \<mapsto> f n)) | None \<Rightarrow> Inl OutOfBounds)
     | _ \<Rightarrow> Inl OutOfBounds)"

text \<open>\<open>timeval_subtract (&r, &p->delta_time, &q->delta_time)\<close> updates the time of \<open>q\<close>.\<close>

definition compare_times :: "store \<Rightarrow> ptr \<Rightarrow> ptr \<Rightarrow> fault + (bool \<times> store)" where
  "compare_times m p q =
    bindE (deref m p) (\<lambda>x. bindE (deref m q) (\<lambda>y.
      let (negative, r, d) = timeval_subtract (delta_time x) (delta_time y)
      in bindE (update_node m q (\<lambda>n. n\<lparr>delta_time := d\<rparr>)) (\<lambda>m. Inr (negative, m))))"

text \<open>\<open>timeval_subtract (&p->delta_time, &p->delta_time, &q->delta_time)\<close>\<close>

definition subtract_times :: "store \<Rightarrow> ptr \<Rightarrow> ptr \<Rightarrow> fault + store" where
  "subtract_times m p q =
    bindE (deref m p) (\<lambda>x. bindE (deref m q) (\<lambda>y.
      let (negative, r, d) = timeval_subtract_into (delta_time x) (delta_time y)
      in bindE (update_node m p (\<lambda>n. n\<lparr>delta_time := r\<rparr>)) (\<lambda>m.
           update_node m q (\<lambda>n. n\<lparr>delta_time := d\<rparr>))))"

fun find_timenode :: "nat \<Rightarrow> store \<Rightarrow> ptr \<Rightarrow> int \<Rightarrow> fault + bool" where
  "find_timenode 0 m node ident = Inl Diverges"
| "find_timenode (Suc fuel) m node ident =
    bindE (is_null node) (\<lambda>null.
      if null then Inr False
      else bindE (deref m node) (\<lambda>n.
        if node_id n = ident then Inr True else find_timenode fuel m (next_node n) ident))"

text \<open>The search for the place of a new node \<open>new\<close>, which is not the first.\<close>

fun insert_loop :: "nat \<Rightarrow> store \<Rightarrow> ptr \<Rightarrow> ptr \<Rightarrow> fault + store" where
  "insert_loop 0 m new node = Inl Diverges"
| "insert_loop (Suc fuel) m new node =
    bindE (is_null node) (\<lambda>null.
    if null then Inr m
    else
      bindE (deref m node) (\<lambda>n.
      bindE (is_null (next_node n)) (\<lambda>last.
      bindE (if last then compare_times m new node else Inr (True, m)) (\<lambda>(negative, m).
      if last \<and> \<not> negative then
        bindE (subtract_times m new node) (\<lambda>m.
        bindE (update_node m node (\<lambda>n. n\<lparr>next_node := new\<rparr>)) (\<lambda>m.
        update_node m new (\<lambda>n. n\<lparr>forward := node\<rparr>)))
      else
        bindE (compare_times m new node) (\<lambda>(negative, m).
        if negative then
          bindE (deref m node) (\<lambda>n.
          bindE (update_node m (forward n) (\<lambda>n. n\<lparr>next_node := new\<rparr>)) (\<lambda>m.
          bindE (deref m node) (\<lambda>n.
          bindE (update_node m new (\<lambda>x. x\<lparr>forward := forward n\<rparr>)) (\<lambda>m.
          bindE (update_node m new (\<lambda>x. x\<lparr>next_node := node\<rparr>)) (\<lambda>m.
          bindE (update_node m node (\<lambda>n. n\<lparr>forward := new\<rparr>)) (\<lambda>m.
          subtract_times m node new))))))
        else if last then insert_loop fuel m new node
        else
          bindE (compare_times m new node) (\<lambda>(negative, m).
          if \<not> negative then
            bindE (subtract_times m new node) (\<lambda>m.
            bindE (deref m node) (\<lambda>n. insert_loop fuel m new (next_node n)))
          else insert_loop fuel m new node))))))"

record timer_state =
  nodes :: store
  head :: ptr
  allocated :: nat
  lasttime :: timeval

text \<open>
  \<open>fresh\<close> is the content of the memory that \<open>malloc\<close> returns, \<open>now\<close> the clock; the
  interval is given as the \<open>timeval\<close> that the \<open>double\<close> is converted to.
\<close>

definition add_timenode ::
  "time_node \<Rightarrow> timeval \<Rightarrow> int \<Rightarrow> timeval \<Rightarrow> int \<Rightarrow> timer_state \<Rightarrow> fault + timer_state"
where
  "add_timenode fresh now ident dtime pnum s =
    bindE (find_timenode (Suc (allocated s)) (nodes s) (head s) ident) (\<lambda>found.
    if found then Inr s
    else
      let new = At (allocated s);
          node = head s;
          m = (nodes s)(allocated s \<mapsto>
                fresh\<lparr>node_id := ident, delta_time := dtime, port_num := pnum\<rparr>);
          s = s\<lparr>nodes := m, allocated := Suc (allocated s)\<rparr>
      in
        bindE (is_null node) (\<lambda>null.
        if null then Inr (s\<lparr>lasttime := now, head := new\<rparr>)
        else
          bindE (compare_times m new node) (\<lambda>(negative, m).
          if negative then
            bindE (update_node m new (\<lambda>x. x\<lparr>next_node := node\<rparr>)) (\<lambda>m.
            bindE (update_node m node (\<lambda>n. n\<lparr>forward := new\<rparr>)) (\<lambda>m.
            bindE (subtract_times m node new) (\<lambda>m.
            Inr (s\<lparr>nodes := m, head := new\<rparr>))))
          else
            bindE (insert_loop (allocated s) m new node) (\<lambda>m. Inr (s\<lparr>nodes := m\<rparr>)))))"

text \<open>\<open>timeval_add (&p->delta_time, &p->delta_time, &t)\<close> unless \<open>p\<close> is null.\<close>

definition add_time :: "store \<Rightarrow> ptr \<Rightarrow> timeval \<Rightarrow> fault + store" where
  "add_time m p t =
    bindE (is_null p) (\<lambda>null.
      if null then Inr m
      else update_node m p (\<lambda>n. n\<lparr>delta_time := timeval_add (delta_time n) t\<rparr>))"

fun delete_loop :: "nat \<Rightarrow> store \<Rightarrow> ptr \<Rightarrow> int \<Rightarrow> fault + store" where
  "delete_loop 0 m node ident = Inl Diverges"
| "delete_loop (Suc fuel) m node ident =
    bindE (is_null node) (\<lambda>null.
    if null then Inr m
    else
      bindE (deref m node) (\<lambda>n.
      if node_id n = ident then
        bindE (update_node m (forward n) (\<lambda>x. x\<lparr>next_node := next_node n\<rparr>)) (\<lambda>m.
        bindE (deref m node) (\<lambda>n.
        bindE (is_null (next_node n)) (\<lambda>null.
        bindE (if null then Inr m
               else update_node m (next_node n) (\<lambda>x. x\<lparr>forward := forward n\<rparr>)) (\<lambda>m.
        bindE (deref m node) (\<lambda>n.
        add_time m (next_node n) (delta_time n))))))
      else delete_loop fuel m (next_node n) ident))"

definition delete_timenode :: "int \<Rightarrow> timer_state \<Rightarrow> fault + timer_state" where
  "delete_timenode ident s =
    bindE (find_timenode (Suc (allocated s)) (nodes s) (head s) ident) (\<lambda>found.
    if \<not> found then Inr s
    else
      bindE (deref (nodes s) (head s)) (\<lambda>n.
      if node_id n = ident then
        bindE (add_time (nodes s) (next_node n) (delta_time n)) (\<lambda>m.
        Inr (s\<lparr>nodes := m, head := next_node n\<rparr>))
      else
        bindE (delete_loop (Suc (allocated s)) (nodes s) (head s) ident) (\<lambda>m.
        Inr (s\<lparr>nodes := m\<rparr>))))"

text \<open>
  \<open>update_time_list\<close>: every node that has expired is taken off and its number sent to the
  driver. The loop compares the local \<open>dtime\<close> with the time of the head.
\<close>

fun expire_loop :: "nat \<Rightarrow> store \<Rightarrow> ptr \<Rightarrow> timeval \<Rightarrow> fault + (store \<times> ptr \<times> int list)" where
  "expire_loop 0 m node dtime = Inl Diverges"
| "expire_loop (Suc fuel) m node dtime =
    bindE (is_null node) (\<lambda>null.
    if null then Inr (m, node, [])
    else
      bindE (deref m node) (\<lambda>n.
      let (negative, r, d) = timeval_subtract dtime (delta_time n)
      in bindE (update_node m node (\<lambda>n. n\<lparr>delta_time := d\<rparr>)) (\<lambda>m.
         if negative then
           let (negative, r, dtime') = timeval_subtract_into d dtime
           in bindE (update_node m node (\<lambda>n. n\<lparr>delta_time := r\<rparr>)) (\<lambda>m. Inr (m, node, []))
         else
           let (negative, dtime, d) = timeval_subtract_into dtime d
           in bindE (update_node m node (\<lambda>n. n\<lparr>delta_time := d\<rparr>)) (\<lambda>m.
              bindE (expire_loop fuel m (next_node n) dtime) (\<lambda>(m, node, ids).
              Inr (m, node, node_id n # ids))))))"

definition update_time_list :: "timeval \<Rightarrow> timer_state \<Rightarrow> fault + (timer_state \<times> int list)" where
  "update_time_list now s =
    (let dtime = (if tv_sec (lasttime s) = 0 \<and> tv_usec (lasttime s) = 0 then lasttime s
                  else fst (snd (timeval_subtract now (lasttime s))))
     in bindE (expire_loop (Suc (allocated s)) (nodes s) (head s) dtime) (\<lambda>(m, node, ids).
          Inr (s\<lparr>nodes := m, head := node, lasttime := now\<rparr>, ids)))"

text \<open>\<open>print_time_list\<close> normalises the times it prints: its list is updated in place.\<close>

definition print_normalise :: "timeval \<Rightarrow> timeval" where
  "print_normalise t =
    (if tv_usec t < 0 then t\<lparr>tv_sec := tv_sec t - 1, tv_usec := tv_usec t + 1000000\<rparr> else t)"

fun print_time_list :: "nat \<Rightarrow> store \<Rightarrow> ptr \<Rightarrow> fault + store" where
  "print_time_list 0 m node = Inl Diverges"
| "print_time_list (Suc fuel) m node =
    bindE (is_null node) (\<lambda>null.
    if null then Inr m
    else bindE (update_node m node (\<lambda>n. n\<lparr>delta_time := print_normalise (delta_time n)\<rparr>)) (\<lambda>m.
         bindE (deref m node) (\<lambda>n. print_time_list fuel m (next_node n))))"

section \<open>No node goes away\<close>

lemma update_node_dom: "update_node m p f = Inr m' \<Longrightarrow> dom m' = dom m"
  by (auto simp: update_node_def dom_def split: ptr.splits option.splits if_splits)

lemma compare_times_dom: "compare_times m p q = Inr (negative, m') \<Longrightarrow> dom m' = dom m"
  by (auto simp: compare_times_def bindE_eq_Inr Let_def split_beta dest: update_node_dom del: equalityI)

lemma subtract_times_dom: "subtract_times m p q = Inr m' \<Longrightarrow> dom m' = dom m"
  by (auto simp: subtract_times_def bindE_eq_Inr Let_def split_beta dest!: update_node_dom del: equalityI)

lemma add_time_dom: "add_time m p t = Inr m' \<Longrightarrow> dom m' = dom m"
  by (auto simp: add_time_def bindE_eq_Inr split: if_splits dest: update_node_dom del: equalityI)

lemmas dom_dests = update_node_dom compare_times_dom subtract_times_dom add_time_dom

lemma insert_loop_dom: "insert_loop fuel m new node = Inr m' \<Longrightarrow> dom m' = dom m"
proof (induction fuel arbitrary: m node)
  case (Suc fuel)
  then show ?case
    by (auto simp: insert_loop.simps(2) bindE_eq_Inr split: if_splits dest!: dom_dests Suc.IH del: equalityI)
qed (simp add: insert_loop.simps)

lemma delete_loop_dom: "delete_loop fuel m node ident = Inr m' \<Longrightarrow> dom m' = dom m"
proof (induction fuel arbitrary: node)
  case (Suc fuel)
  then show ?case
    by (auto simp: delete_loop.simps(2) bindE_eq_Inr split: if_splits dest!: dom_dests del: equalityI)
qed (simp add: delete_loop.simps)

lemma expire_loop_dom: "expire_loop fuel m node t = Inr (m', node', ids) \<Longrightarrow> dom m' = dom m"
proof (induction fuel arbitrary: m node t ids)
  case (Suc fuel)
  then show ?case
    by (auto simp: expire_loop.simps(2) bindE_eq_Inr Let_def split_beta split: if_splits
        dest!: dom_dests Suc.IH del: equalityI)
qed (simp add: expire_loop.simps)

lemma add_timenode_dom: "add_timenode fresh now i x pnum s = Inr s' \<Longrightarrow>
    dom (nodes s') = dom (nodes s) \<or> dom (nodes s') = insert (allocated s) (dom (nodes s))"
  by (auto simp: add_timenode_def bindE_eq_Inr Let_def simp del: insert_loop.simps find_timenode.simps
      split: if_splits dest!: dom_dests insert_loop_dom del: equalityI)

lemma delete_timenode_dom: "delete_timenode i s = Inr s' \<Longrightarrow> dom (nodes s') = dom (nodes s)"
  by (auto simp: delete_timenode_def bindE_eq_Inr simp del: delete_loop.simps find_timenode.simps
      split: if_splits dest!: dom_dests delete_loop_dom del: equalityI)

lemma update_time_list_dom: "update_time_list now s = Inr (s', ids) \<Longrightarrow> dom (nodes s') = dom (nodes s)"
  by (auto simp: update_time_list_def bindE_eq_Inr Let_def simp del: expire_loop.simps
      split: if_splits dest!: expire_loop_dom del: equalityI)

section \<open>The list without the store\<close>

text \<open>
  What the operations do to the sequence of numbers and times, and the sequence of nodes
  that a store holds: \<open>seg m prev p as q\<close> says that \<open>as\<close> are the nodes from \<open>p\<close> up to
  \<open>q\<close>, linked in both directions.
\<close>

type_synonym timers = "(int \<times> timeval) list"

fun insert_timer :: "int \<Rightarrow> timeval \<Rightarrow> timers \<Rightarrow> timers" where
  "insert_timer i x [] = [(i, x)]"
| "insert_timer i x ((j, y) # r) =
    (let (negative, d, y') = timeval_subtract x y
     in if negative then let (b, e, x') = timeval_subtract_into y' x in (i, x') # (j, e) # r
        else (j, y') # insert_timer i d r)"

fun remove_timer :: "int \<Rightarrow> timers \<Rightarrow> timers" where
  "remove_timer i [] = []"
| "remove_timer i ((j, y) # r) =
    (if j = i then (case r of [] \<Rightarrow> [] | (k, z) # r' \<Rightarrow> (k, timeval_add z y) # r')
     else (j, y) # remove_timer i r)"

fun expire :: "timeval \<Rightarrow> timers \<Rightarrow> int list \<times> timers" where
  "expire t [] = ([], [])"
| "expire t ((i, y) # r) =
    (let (negative, d, y') = timeval_subtract t y
     in if negative then ([], (i, fst (snd (timeval_subtract_into y' t))) # r)
        else (let (ids, r') = expire d r in (i # ids, r')))"

fun seg :: "store \<Rightarrow> nat option \<Rightarrow> ptr \<Rightarrow> nat list \<Rightarrow> ptr \<Rightarrow> bool" where
  "seg m prev p [] q \<longleftrightarrow> p = q"
| "seg m prev p (a # as) q \<longleftrightarrow> p = At a \<and>
    (\<exists>n. m a = Some n \<and> (\<forall>c. prev = Some c \<longrightarrow> forward n = At c) \<and> seg m (Some a) (next_node n) as q)"

definition entry :: "store \<Rightarrow> nat \<Rightarrow> int \<times> timeval" where
  "entry m a = (node_id (the (m a)), delta_time (the (m a)))"

abbreviation entries :: "store \<Rightarrow> nat list \<Rightarrow> timers" where
  "entries m as \<equiv> map (entry m) as"

lemma seg_append:
  "seg m prev p (as @ bs) q \<longleftrightarrow>
    (\<exists>r. seg m prev p as r \<and> seg m (if as = [] then prev else Some (last as)) r bs q)"
  by (induction as arbitrary: prev p) auto

lemma seg_alloc: "seg m prev p as q \<Longrightarrow> a \<in> set as \<Longrightarrow> \<exists>n. m a = Some n"
  by (induction as arbitrary: prev p) auto

text \<open>Stores in which a node has the same links.\<close>

definition same_links :: "store \<Rightarrow> store \<Rightarrow> nat \<Rightarrow> bool" where
  "same_links m m' c \<longleftrightarrow> (\<forall>n. m c = Some n \<longrightarrow>
    (\<exists>n'. m' c = Some n' \<and> next_node n' = next_node n \<and> forward n' = forward n))"

lemma seg_same_links:
  "seg m prev p as q \<Longrightarrow> (\<And>c. c \<in> set as \<Longrightarrow> same_links m m' c) \<Longrightarrow> seg m' prev p as q"
proof (induction as arbitrary: prev p)
  case Nil
  then show ?case by simp
next
  case (Cons a as)
  then obtain n where n: "p = At a" "m a = Some n" "\<forall>c. prev = Some c \<longrightarrow> forward n = At c"
    "seg m (Some a) (next_node n) as q"
    by auto
  obtain n' where "m' a = Some n'" "next_node n' = next_node n" "forward n' = forward n"
    using Cons.prems(2) [of a] n(2) by (auto simp: same_links_def)
  with n Cons.IH [OF n(4)] Cons.prems(2) show ?case by simp
qed

lemma seg_frame: "seg m prev p as q \<Longrightarrow> (\<And>c. c \<in> set as \<Longrightarrow> m' c = m c) \<Longrightarrow> seg m' prev p as q"
  by (rule seg_same_links) (auto simp: same_links_def)

text \<open>Redirecting the last link of a segment and the first back link.\<close>

lemma seg_redirect_last:
  assumes "seg m prev p (as @ [c]) q" and "c \<notin> set as" and "\<And>d. d \<in> set as \<Longrightarrow> same_links m m' d"
    and "m c = Some n" and "m' c = Some n'" and "forward n' = forward n" and "next_node n' = q'"
  shows "seg m' prev p (as @ [c]) q'"
proof -
  obtain r where r: "seg m prev p as r" "seg m (if as = [] then prev else Some (last as)) r [c] q"
    using assms(1) by (auto simp: seg_append)
  have "seg m' prev p as r"
    using r(1) assms(3) by (rule seg_same_links)
  moreover have "seg m' (if as = [] then prev else Some (last as)) r [c] q'"
    using r(2) assms(4-7) by auto
  ultimately show ?thesis
    by (auto simp: seg_append)
qed

lemma seg_redirect_first:
  assumes "seg m prev p (a # as) q" and "a \<notin> set as" and "\<And>d. d \<in> set as \<Longrightarrow> same_links m m' d"
    and "m a = Some n" and "m' a = Some n'" and "next_node n' = next_node n" and "forward n' = At c"
  shows "seg m' (Some c) (At a) (a # as) q"
proof -
  have "seg m (Some a) (next_node n) as q"
    using assms(1,4) by auto
  then have "seg m' (Some a) (next_node n) as q"
    using assms(3) by (rule seg_same_links)
  with assms show ?thesis by auto
qed

lemma entry_at: "m a = Some n \<Longrightarrow> entry m a = (node_id n, delta_time n)"
  by (simp add: entry_def)

lemma entries_frame: "(\<And>c. c \<in> set as \<Longrightarrow> m' c = m c) \<Longrightarrow> entries m' as = entries m as"
  by (simp add: entry_def)

section \<open>Comparing and subtracting in the store\<close>

definition minus_time :: "timeval \<Rightarrow> timeval \<Rightarrow> timeval" where
  "minus_time x y = \<lparr>tv_sec = tv_sec x - tv_sec (carry x y), tv_usec = tv_usec x - tv_usec (carry x y)\<rparr>"

lemma compare_times_at:
  assumes "m b = Some x" and "m a = Some n"
  shows "compare_times m (At b) (At a) =
    Inr (tv_sec (delta_time x) < tv_sec (carry (delta_time x) (delta_time n)),
      m(a \<mapsto> n\<lparr>delta_time := carry (delta_time x) (delta_time n)\<rparr>))"
  using assms by (simp add: compare_times_def deref_def update_node_def timeval_subtract_carry)

lemma subtract_into_carry:
  "timeval_subtract_into x y =
    (tv_sec x - tv_sec (carry x y) < tv_sec (carry x y), minus_time x y, carry x y)"
  by (simp add: timeval_subtract_into_def minus_time_def carry_def Let_def)

lemma subtract_carry:
  "timeval_subtract x y = (tv_sec x < tv_sec (carry x y), minus_time x y, carry x y)"
  by (simp add: timeval_subtract_carry minus_time_def)

lemma subtract_times_at:
  assumes "m b = Some x" and "m a = Some n" and "a \<noteq> b"
  shows "subtract_times m (At b) (At a) =
    Inr (m(b \<mapsto> x\<lparr>delta_time := minus_time (delta_time x) (delta_time n)\<rparr>,
      a \<mapsto> n\<lparr>delta_time := carry (delta_time x) (delta_time n)\<rparr>))"
  using assms by (simp add: subtract_times_def deref_def update_node_def subtract_into_carry)

lemma carry_carry:
  assumes "usec_ok x" and "usec_ok y"
  shows "carry x (carry x y) = carry x y" "minus_time x (carry x y) = minus_time x y"
  using carry_idem [OF carry_lo [OF assms] carry_hi [OF assms]] by (simp_all add: minus_time_def)

lemma usec_ok_minus:
  assumes "usec_ok x" and "usec_ok y"
  shows "usec_ok (minus_time x y)"
  using carry_lo [OF assms] carry_hi [OF assms] by (simp add: usec_ok_def minus_time_def)

section \<open>Insertion refines the list\<close>

lemma is_null_simps [simp]:
  "is_null Null = Inr True" "is_null (At a) = Inr False" "is_null Wild = Inl OutOfBounds"
  by (simp_all add: is_null_def)

lemma deref_at [simp]: "m a = Some n \<Longrightarrow> deref m (At a) = Inr n"
  by (simp add: deref_def)

lemma update_at [simp]: "m a = Some n \<Longrightarrow> update_node m (At a) f = Inr (m(a \<mapsto> f n))"
  by (simp add: update_node_def)

text \<open>The three ways through the body of the loop.\<close>

lemma insert_loop_cases:
  assumes b: "m b = Some x" and a: "m a = Some n" "a \<noteq> b"
    and ok: "usec_ok (delta_time x)" "usec_ok (delta_time n)"
  defines "d \<equiv> minus_time (delta_time x) (delta_time n)"
    and "y \<equiv> carry (delta_time x) (delta_time n)"
    and "negative \<equiv> tv_sec (delta_time x) < tv_sec (carry (delta_time x) (delta_time n))"
  shows insert_at_end: "next_node n = Null \<Longrightarrow> \<not> negative \<Longrightarrow>
      insert_loop (Suc fuel) m (At b) (At a) =
        Inr (m(b \<mapsto> x\<lparr>delta_time := d, forward := At a\<rparr>,
          a \<mapsto> n\<lparr>delta_time := y, next_node := At b\<rparr>))"
    and insert_before: "next_node n = Null \<or> next_node n = At e \<Longrightarrow> negative \<Longrightarrow>
      forward n = At c \<Longrightarrow> m c = Some k \<Longrightarrow> c \<noteq> a \<Longrightarrow> c \<noteq> b \<Longrightarrow>
      insert_loop (Suc fuel) m (At b) (At a) =
        Inr (m(c \<mapsto> k\<lparr>next_node := At b\<rparr>,
          b \<mapsto> x\<lparr>forward := At c, next_node := At a, delta_time := carry y (delta_time x)\<rparr>,
          a \<mapsto> n\<lparr>forward := At b, delta_time := minus_time y (delta_time x)\<rparr>))"
    and insert_move: "next_node n = At e \<Longrightarrow> \<not> negative \<Longrightarrow>
      insert_loop (Suc fuel) m (At b) (At a) =
        insert_loop fuel (m(b \<mapsto> x\<lparr>delta_time := d\<rparr>, a \<mapsto> n\<lparr>delta_time := y\<rparr>)) (At b) (At e)"
proof -
  let ?m = "m(a \<mapsto> n\<lparr>delta_time := y\<rparr>)"
  have m: "?m b = Some x" "?m a = Some (n\<lparr>delta_time := y\<rparr>)"
    using a b by simp_all
  have cmp: "compare_times m (At b) (At a) = Inr (negative, ?m)"
    "compare_times ?m (At b) (At a) = Inr (negative, ?m)"
    using compare_times_at [OF b a(1)] compare_times_at [of ?m b x a "n\<lparr>delta_time := y\<rparr>", OF m] carry_carry [OF ok]
    by (simp_all add: negative_def y_def)
  have sub: "subtract_times ?m (At b) (At a) =
      Inr (m(b \<mapsto> x\<lparr>delta_time := d\<rparr>, a \<mapsto> n\<lparr>delta_time := y\<rparr>))"
    using subtract_times_at [of ?m b x a "n\<lparr>delta_time := y\<rparr>", OF m a(2)] carry_carry [OF ok] a(2)
    by (simp add: d_def y_def fun_upd_twist)
  show "insert_loop (Suc fuel) m (At b) (At a) =
      Inr (m(b \<mapsto> x\<lparr>delta_time := d, forward := At a\<rparr>, a \<mapsto> n\<lparr>delta_time := y, next_node := At b\<rparr>))"
    if "next_node n = Null" "\<not> negative"
    using that a cmp sub by (simp add: fun_upd_twist)
  show "insert_loop (Suc fuel) m (At b) (At a) =
      insert_loop fuel (m(b \<mapsto> x\<lparr>delta_time := d\<rparr>, a \<mapsto> n\<lparr>delta_time := y\<rparr>)) (At b) (At e)"
    if "next_node n = At e" "\<not> negative"
    using that a cmp sub by simp
  assume n: "next_node n = Null \<or> next_node n = At e" "negative" "forward n = At c" "m c = Some k" "c \<noteq> a" "c \<noteq> b"
  let ?m' = "m(c \<mapsto> k\<lparr>next_node := At b\<rparr>, b \<mapsto> x\<lparr>forward := At c, next_node := At a\<rparr>,
      a \<mapsto> n\<lparr>delta_time := y, forward := At b\<rparr>)"
  have m': "?m' a = Some (n\<lparr>delta_time := y, forward := At b\<rparr>)"
    "?m' b = Some (x\<lparr>forward := At c, next_node := At a\<rparr>)"
    using a by simp_all
  have "insert_loop (Suc fuel) m (At b) (At a) = subtract_times ?m' (At a) (At b)"
    using n a b cmp by (auto simp: fun_upd_twist)
  then show "insert_loop (Suc fuel) m (At b) (At a) =
      Inr (m(c \<mapsto> k\<lparr>next_node := At b\<rparr>,
        b \<mapsto> x\<lparr>forward := At c, next_node := At a, delta_time := carry y (delta_time x)\<rparr>,
        a \<mapsto> n\<lparr>forward := At b, delta_time := minus_time y (delta_time x)\<rparr>))"
    using subtract_times_at [of ?m' a _ b, OF m'] a(2) n(5,6) by (simp add: fun_upd_twist)
qed

text \<open>What insertion at the level of lists does, in the same three cases.\<close>

lemma insert_timer_negative:
  "tv_sec x < tv_sec (carry x y) \<Longrightarrow>
    insert_timer i x ((j, y) # r) = (i, carry (carry x y) x) # (j, minus_time (carry x y) x) # r"
  by (simp add: subtract_carry subtract_into_carry)

lemma insert_timer_move:
  "\<not> tv_sec x < tv_sec (carry x y) \<Longrightarrow>
    insert_timer i x ((j, y) # r) = (j, carry x y) # insert_timer i (minus_time x y) r"
  by (simp add: subtract_carry)

declare insert_loop.simps(2) [simp del] insert_timer.simps(2) [simp del]

text \<open>
  A list \<open>as\<close> of nodes from the head of a store. \<open>refines m' m us as i x new\<close>: the store
  \<open>m'\<close> holds the nodes of \<open>as\<close> and \<open>new\<close>, with the entries in which \<open>(i, x)\<close> has been
  inserted, and is unchanged elsewhere.
\<close>

definition dlist :: "store \<Rightarrow> ptr \<Rightarrow> nat list \<Rightarrow> bool" where
  "dlist m h as \<longleftrightarrow> seg m None h as Null \<and> distinct as"

lemma dlist_end:
  assumes "dlist m h (ps @ [a])" and "b \<notin> set (ps @ [a])" and "m a = Some n"
    and m': "m' = m(b \<mapsto> x', a \<mapsto> n')" and "forward n' = forward n" "next_node n' = At b"
      "forward x' = At a" "next_node x' = Null"
  shows "dlist m' h (ps @ [a, b])"
proof -
  have s: "seg m None h (ps @ [a]) Null" "a \<notin> set ps" "a \<noteq> b" "b \<notin> set ps"
    using assms by (auto simp: dlist_def)
  have "seg m' None h (ps @ [a]) (At b)"
    using s assms by (intro seg_redirect_last [OF s(1,2)]) (auto simp: same_links_def)
  moreover have "seg m' (Some a) (At b) [b] Null"
    using s assms by auto
  ultimately have "seg m' None h ((ps @ [a]) @ [b]) Null"
    unfolding seg_append [of m' None h "ps @ [a]"] by auto
  with assms(1,2) show ?thesis
    by (auto simp: dlist_def)
qed

lemma dlist_between:
  assumes "dlist m h (ps @ c # a # qs)" and "b \<notin> set (ps @ c # a # qs)"
    and "m a = Some n" and "m c = Some k"
    and m': "m' = m(c \<mapsto> k\<lparr>next_node := At b\<rparr>, b \<mapsto> x', a \<mapsto> n')"
    and "next_node n' = next_node n" "forward n' = At b" "forward x' = At c" "next_node x' = At a"
  shows "dlist m' h (ps @ c # b # a # qs)"
proof -
  have s: "seg m None h ((ps @ [c]) @ a # qs) Null" "distinct (ps @ c # a # qs)"
    using assms by (simp_all add: dlist_def)
  then obtain r where r: "seg m None h (ps @ [c]) r" "seg m (Some c) r (a # qs) Null"
    unfolding seg_append [of m None h "ps @ [c]"] by auto
  have "seg m' None h (ps @ [c]) (At b)"
    using s(2) assms
    by (intro seg_redirect_last [OF r(1), where m' = m' and n = k and n' = "k\<lparr>next_node := At b\<rparr>"])
      (auto simp: same_links_def)
  moreover have "seg m' (Some b) (At a) (a # qs) Null"
    using s(2) assms by (intro seg_redirect_first [OF r(2)]) (auto simp: same_links_def)
  then have "seg m' (Some c) (At b) (b # a # qs) Null"
    using s(2) assms by auto
  ultimately have "seg m' None h ((ps @ [c]) @ b # a # qs) Null"
    unfolding seg_append [of m' None h "ps @ [c]"] by auto
  with assms(1,2) show ?thesis
    by (auto simp: dlist_def)
qed

lemma dlist_same_links:
  "dlist m h as \<Longrightarrow> (\<And>c. c \<in> set as \<Longrightarrow> same_links m m' c) \<Longrightarrow> dlist m' h as"
  unfolding dlist_def using seg_same_links by blast

lemma dlist_forward:
  assumes "dlist m h (ps @ c # a # qs)"
  shows "\<exists>k n. m c = Some k \<and> m a = Some n \<and> forward n = At c"
proof -
  have "seg m None h ((ps @ [c]) @ a # qs) Null"
    using assms by (simp add: dlist_def)
  then show ?thesis
    unfolding seg_append by auto
qed

lemma dlist_next:
  assumes "dlist m h (ps @ a # qs)" and "m a = Some n"
  shows "next_node n = (case qs of [] \<Rightarrow> Null | e # _ \<Rightarrow> At e)"
  using assms by (cases qs) (auto simp: dlist_def seg_append)

definition inserted ::
  "store \<Rightarrow> store \<Rightarrow> ptr \<Rightarrow> nat list \<Rightarrow> nat \<Rightarrow> timers \<Rightarrow> bool" where
  "inserted m m' h as b ts \<longleftrightarrow>
    (\<exists>as'. dlist m' h as' \<and> set as' = insert b (set as) \<and> entries m' as' = ts \<and>
      (\<forall>c. c \<notin> set as' \<longrightarrow> m' c = m c))"

lemma insert_before_refines:
  assumes "dlist m h (ps @ c # a # qs)" and "b \<notin> set (ps @ c # a # qs)" and "m b = Some x"
    and ok: "usec_ok (delta_time x)" "usec_ok (snd (entry m a))"
    and neg: "tv_sec (delta_time x) < tv_sec (carry (delta_time x) (snd (entry m a)))"
  shows "\<exists>m'. insert_loop (Suc f) m (At b) (At a) = Inr m' \<and>
    inserted m m' h (ps @ c # a # qs) b
      (entries m (ps @ [c]) @ insert_timer (node_id x) (delta_time x) (entries m (a # qs)))"
proof -
  obtain k n where k: "m c = Some k" "m a = Some n" "forward n = At c"
    using dlist_forward [OF assms(1)] by blast
  have d: "distinct (ps @ c # a # qs)" "a \<noteq> b" "c \<noteq> b" "c \<noteq> a" "b \<notin> set ps" "b \<notin> set qs"
    using assms(1,2) by (auto simp: dlist_def)
  have ok': "usec_ok (delta_time n)"
    and neg': "tv_sec (delta_time x) < tv_sec (carry (delta_time x) (delta_time n))"
    using ok(2) neg k(2) by (simp_all add: entry_def)
  have nx: "\<exists>e. next_node n = Null \<or> next_node n = At e"
    using dlist_next [of m h "ps @ [c]" a qs n] assms(1) k(2) by (cases qs) auto
  then obtain e where e: "next_node n = Null \<or> next_node n = At e" ..
  let ?m = "m(c \<mapsto> k\<lparr>next_node := At b\<rparr>,
      b \<mapsto> x\<lparr>forward := At c, next_node := At a,
        delta_time := carry (carry (delta_time x) (delta_time n)) (delta_time x)\<rparr>,
      a \<mapsto> n\<lparr>forward := At b, delta_time := minus_time (carry (delta_time x) (delta_time n)) (delta_time x)\<rparr>)"
  have "insert_loop (Suc f) m (At b) (At a) = Inr ?m"
    by (rule insert_before [OF assms(3) k(2) d(2) ok(1) ok' e neg' k(3,1) d(4,3)])
  moreover have "dlist ?m h (ps @ c # b # a # qs)"
    by (rule dlist_between [OF assms(1,2) k(2,1) refl]) simp_all
  moreover have "entries ?m (ps @ c # b # a # qs) =
      entries m (ps @ [c]) @ insert_timer (node_id x) (delta_time x) (entries m (a # qs))"
    using d k neg' by (auto simp: entry_def insert_timer_negative)
  ultimately show ?thesis
    unfolding inserted_def by (intro exI [of _ ?m] conjI exI [of _ "ps @ c # b # a # qs"]) auto
qed

lemma insert_loop_refines:
  assumes "dlist m h (ps @ a # qs)" and "b \<notin> set (ps @ a # qs)" and "m b = Some x" and "next_node x = Null"
    and "usec_ok (delta_time x)" and "\<forall>c \<in> set (a # qs). usec_ok (snd (entry m c))"
    and "ps = [] \<Longrightarrow> \<not> tv_sec (delta_time x) < tv_sec (carry (delta_time x) (snd (entry m a)))"
    and "length qs < fuel"
  shows "\<exists>m'. insert_loop fuel m (At b) (At a) = Inr m' \<and>
    inserted m m' h (ps @ a # qs) b
      (entries m ps @ insert_timer (node_id x) (delta_time x) (entries m (a # qs)))"
  using assms
proof (induction qs arbitrary: m ps a x fuel)
  case (Nil m ps a x fuel)
  obtain n where n: "m a = Some n"
    using Nil.prems(1) seg_alloc [of m None h "ps @ [a]" Null a] by (auto simp: dlist_def)
  have ab: "a \<noteq> b" "a \<notin> set ps" "b \<notin> set ps"
    using Nil.prems(1,2) by (auto simp: dlist_def)
  have ok: "usec_ok (delta_time x)" "usec_ok (delta_time n)"
    using Nil.prems(5,6) n by (simp_all add: entry_def)
  obtain f where f: "fuel = Suc f"
    using Nil.prems(8) by (cases fuel) auto
  have nx: "next_node n = Null"
    using dlist_next [OF Nil.prems(1) n] by simp
  show ?case
  proof (cases "tv_sec (delta_time x) < tv_sec (carry (delta_time x) (delta_time n))")
    case True
    then obtain ps' c where "ps = ps' @ [c]"
      using Nil.prems(7) n by (cases ps rule: rev_cases) (auto simp: entry_def)
    with insert_before_refines [of m h ps' c a "[]" b x f] Nil.prems True f n show ?thesis
      by (simp add: entry_at)
  next
    case False
    let ?m = "m(b \<mapsto> x\<lparr>delta_time := minus_time (delta_time x) (delta_time n), forward := At a\<rparr>,
        a \<mapsto> n\<lparr>delta_time := carry (delta_time x) (delta_time n), next_node := At b\<rparr>)"
    have "insert_loop fuel m (At b) (At a) = Inr ?m"
      using insert_at_end [OF Nil.prems(3) n ab(1) ok nx False] f by simp
    moreover have "dlist ?m h (ps @ [a, b])"
      by (rule dlist_end [OF Nil.prems(1,2) n refl]) (simp_all add: Nil.prems(4))
    moreover have "entries ?m (ps @ [a, b]) =
        entries m ps @ insert_timer (node_id x) (delta_time x) (entries m [a])"
      using ab n False by (auto simp: entry_def insert_timer_move)
    ultimately show ?thesis
      unfolding inserted_def by (intro exI [of _ ?m] conjI exI [of _ "ps @ [a, b]"]) auto
  qed
next
  case (Cons e qs m ps a x fuel)
  obtain n where n: "m a = Some n"
    using Cons.prems(1) seg_alloc [of m None h "ps @ a # e # qs" Null a] by (auto simp: dlist_def)
  have d: "distinct (ps @ a # e # qs)" "a \<noteq> b" "b \<notin> set (ps @ a # e # qs)"
    using Cons.prems(1,2) by (auto simp: dlist_def)
  have ok: "usec_ok (delta_time x)" "usec_ok (delta_time n)"
    using Cons.prems(5,6) n by (simp_all add: entry_def)
  obtain f where f: "fuel = Suc f" "length qs < f"
    using Cons.prems(8) by (cases fuel) auto
  have nx: "next_node n = At e"
    using dlist_next [OF Cons.prems(1) n] by simp
  show ?case
  proof (cases "tv_sec (delta_time x) < tv_sec (carry (delta_time x) (delta_time n))")
    case True
    then obtain ps' c where "ps = ps' @ [c]"
      using Cons.prems(7) n by (cases ps rule: rev_cases) (auto simp: entry_def)
    with insert_before_refines [of m h ps' c a "e # qs" b x f] Cons.prems True f n show ?thesis
      by (simp add: entry_at)
  next
    case False
    define x1 where "x1 = x\<lparr>delta_time := minus_time (delta_time x) (delta_time n)\<rparr>"
    define m1 where "m1 = m(b \<mapsto> x1, a \<mapsto> n\<lparr>delta_time := carry (delta_time x) (delta_time n)\<rparr>)"
    have step: "insert_loop fuel m (At b) (At a) = insert_loop f m1 (At b) (At e)"
      using insert_move [OF Cons.prems(3) n d(2) ok nx False] f by (simp add: m1_def x1_def)
    have "same_links m m1 c" if "c \<in> set (ps @ a # e # qs)" for c
      using that d n by (auto simp: same_links_def m1_def)
    then have dl: "dlist m1 h ((ps @ [a]) @ e # qs)"
      using dlist_same_links [OF Cons.prems(1), of m1] by simp
    have entry: "entry m1 c = entry m c" if "c \<in> set (ps @ e # qs)" for c
      using that d by (auto simp: entry_def m1_def)
    have ok1: "\<forall>c \<in> set (e # qs). usec_ok (snd (entry m1 c))"
      using Cons.prems(6) entry by simp
    have x1: "m1 b = Some x1" "next_node x1 = Null" "usec_ok (delta_time x1)"
      using d(2) Cons.prems(4) usec_ok_minus [OF ok] by (simp_all add: m1_def x1_def)
    obtain m' where m': "insert_loop f m1 (At b) (At e) = Inr m'"
      "inserted m1 m' h ((ps @ [a]) @ e # qs) b
        (entries m1 (ps @ [a]) @ insert_timer (node_id x1) (delta_time x1) (entries m1 (e # qs)))"
      using Cons.IH [OF dl _ x1 ok1 _ f(2)] d(3) by auto
    have "entries m1 (e # qs) = entries m (e # qs)" "entries m1 ps = entries m ps"
      "entry m1 a = (node_id n, carry (delta_time x) (delta_time n))"
      using entry d(2) by (simp_all add: entry_def m1_def)
    then have ts: "entries m1 (ps @ [a]) @ insert_timer (node_id x1) (delta_time x1) (entries m1 (e # qs)) =
        entries m ps @ insert_timer (node_id x) (delta_time x) (entries m (a # e # qs))"
      using n False by (simp add: entry_at insert_timer_move x1_def cong: map_cong)
    have "m1 c = m c" if "c \<notin> insert b (set (ps @ a # e # qs))" for c
      using that by (auto simp: m1_def)
    with m' ts step show ?thesis
      unfolding inserted_def by (intro exI [of _ m']) (auto simp del: map_append list.map)
  qed
qed

section \<open>The operations on a list of timers\<close>

text \<open>
  \<open>holds s ts\<close>: from the head of \<open>s\<close> hangs a list without cycles, linked in both
  directions, whose nodes were allocated and have the numbers and times \<open>ts\<close>.
\<close>

definition holds :: "timer_state \<Rightarrow> timers \<Rightarrow> bool" where
  "holds s ts \<longleftrightarrow>
    (\<exists>as. dlist (nodes s) (head s) as \<and> set as \<subseteq> {..<allocated s} \<and> entries (nodes s) as = ts)"

lemma length_bound: "distinct as \<Longrightarrow> set as \<subseteq> {..<n} \<Longrightarrow> length as \<le> n"
  using card_mono [of "{..<n}" "set as"] by (simp add: distinct_card)

lemma holdsE:
  assumes "holds s ts"
  obtains as where "dlist (nodes s) (head s) as" "set as \<subseteq> {..<allocated s}"
    "ts = entries (nodes s) as" "length as \<le> allocated s" "length ts = length as"
  using assms length_bound unfolding holds_def dlist_def by fastforce

lemma holds_empty: "head s = Null \<Longrightarrow> holds s []"
  unfolding holds_def dlist_def by (intro exI [of _ "[]"]) simp

lemma find_timenode_seg:
  "seg m prev p as Null \<Longrightarrow> length as < fuel \<Longrightarrow>
    find_timenode fuel m p i = Inr (i \<in> fst ` set (entries m as))"
proof (induction as arbitrary: prev p fuel)
  case Nil
  then show ?case by (cases fuel) auto
next
  case (Cons a as)
  then obtain f n where "fuel = Suc f" "length as < f" "p = At a" "m a = Some n"
    "seg m (Some a) (next_node n) as Null"
    by (cases fuel) auto
  with Cons.IH [of "Some a" "next_node n" f] show ?case
    by (auto simp: entry_def)
qed

lemma find_timenode_mono:
  "find_timenode f m p i \<noteq> Inl Diverges \<Longrightarrow> f \<le> g \<Longrightarrow> find_timenode g m p i = find_timenode f m p i"
proof (induction f arbitrary: g p)
  case (Suc f)
  then obtain g' where g: "g = Suc g'" "f \<le> g'" by (cases g) auto
  show ?case
  proof (cases "deref m p")
    case (Inr n)
    then show ?thesis
      using Suc.IH [of "next_node n" g'] Suc.prems(1) g by (cases p) (auto split: if_splits)
  qed (use g in \<open>cases p; simp add: is_null_def deref_def\<close>)
qed simp

declare find_timenode.simps(2) [simp del]

lemma find_timenode_holds:
  assumes "holds s ts"
  shows "find_timenode (Suc (allocated s)) (nodes s) (head s) i = Inr (i \<in> fst ` set ts)"
  using assms find_timenode_seg [of "nodes s" None "head s" _ "Suc (allocated s)" i]
  by (elim holdsE) (auto simp: dlist_def)

lemma holdsI:
  "dlist (nodes s) (head s) as \<Longrightarrow> set as \<subseteq> {..<allocated s} \<Longrightarrow> entries (nodes s) as = ts \<Longrightarrow>
    holds s ts"
  unfolding holds_def by blast

subsection \<open>Adding\<close>

lemma add_timenode_duplicate:
  "holds s ts \<Longrightarrow> i \<in> fst ` set ts \<Longrightarrow> add_timenode fresh now i t pnum s = Inr s"
  by (simp add: add_timenode_def find_timenode_holds)

lemma add_timenode_empty:
  assumes "head s = Null" and "next_node fresh = Null"
  shows "\<exists>s'. add_timenode fresh now i t pnum s = Inr s' \<and> holds s' [(i, t)] \<and> lasttime s' = now"
proof -
  have "\<not> i \<in> fst ` set ([] :: timers)" by simp
  then show ?thesis
    using assms find_timenode_holds [OF holds_empty [OF assms(1)]]
    by (auto simp: add_timenode_def Let_def holds_def dlist_def entry_def intro!: exI [of _ "[allocated s]"])
qed

lemma dlist_front:
  assumes "dlist m (At a) (a # qs)" and "b \<notin> set (a # qs)" and "m a = Some n"
    and m': "m' = m(b \<mapsto> x', a \<mapsto> n')"
    and "next_node n' = next_node n" "forward n' = At b" "next_node x' = At a"
  shows "dlist m' (At b) (b # a # qs)"
proof -
  have "seg m None (At a) (a # qs) Null" "a \<notin> set qs"
    using assms by (simp_all add: dlist_def)
  then have "seg m' (Some b) (At a) (a # qs) Null"
    using assms by (elim seg_redirect_first) (auto simp: same_links_def)
  with assms show ?thesis
    by (auto simp: dlist_def)
qed

lemma add_timenode_first:
  assumes "dlist (nodes s) (head s) (a # qs)" and "set (a # qs) \<subseteq> {..<allocated s}"
    and "i \<notin> fst ` set (entries (nodes s) (a # qs))"
    and "tv_sec t < tv_sec (carry t (snd (entry (nodes s) a)))"
  shows "\<exists>s'. add_timenode fresh now i t pnum s = Inr s' \<and> lasttime s' = lasttime s \<and>
    holds s' (insert_timer i t (entries (nodes s) (a # qs)))"
proof -
  define b where "b = allocated s"
  have holds: "holds s (entries (nodes s) (a # qs))"
    using assms(1,2) unfolding holds_def by blast
  have a: "head s = At a" "a \<noteq> b" "b \<notin> set (a # qs)"
    using assms(1,2) by (auto simp: dlist_def b_def)
  obtain n where n: "nodes s a = Some n"
    using assms(1) by (auto simp: dlist_def)
  define x where "x = fresh\<lparr>node_id := i, delta_time := t, port_num := pnum\<rparr>"
  define y where "y = carry t (delta_time n)"
  define m where "m = (nodes s)(b \<mapsto> x)"
  define m1 where "m1 = m(b \<mapsto> x\<lparr>next_node := At a\<rparr>, a \<mapsto> n\<lparr>delta_time := y, forward := At b\<rparr>)"
  define m' where "m' = (nodes s)(b \<mapsto> x\<lparr>next_node := At a, delta_time := carry y t\<rparr>,
      a \<mapsto> n\<lparr>delta_time := minus_time y t, forward := At b\<rparr>)"
  have neg: "tv_sec t < tv_sec y"
    using assms(4) n by (simp add: entry_def y_def)
  have m: "m b = Some x" "m a = Some n"
    using a n by (simp_all add: m_def)
  have "compare_times m (At b) (At a) = Inr (True, m(a \<mapsto> n\<lparr>delta_time := y\<rparr>))"
    using compare_times_at [OF m] neg by (simp add: y_def x_def)
  moreover have "subtract_times m1 (At a) (At b) = Inr m'"
    using subtract_times_at [of m1 a "n\<lparr>delta_time := y, forward := At b\<rparr>" b "x\<lparr>next_node := At a\<rparr>"] a(2)
    by (auto simp: m1_def m'_def m_def x_def fun_upd_twist)
  ultimately have add: "add_timenode fresh now i t pnum s =
      Inr (s\<lparr>nodes := m', allocated := Suc b, head := At b\<rparr>)"
    using find_timenode_holds [OF holds, of i] assms(3) a m
    by (simp add: add_timenode_def Let_def b_def [symmetric] x_def [symmetric] m_def [symmetric] m1_def fun_upd_twist)
  have "dlist m' (At b) (b # a # qs)"
    by (rule dlist_front [OF _ a(3) n m'_def]) (use assms(1) a in simp_all)
  moreover have "entries m' (b # a # qs) = insert_timer i t (entries (nodes s) (a # qs))"
  proof -
    have "distinct (a # qs)" using assms(1) by (simp add: dlist_def)
    then show ?thesis
      using a n neg by (auto simp: m'_def entry_def insert_timer_negative y_def x_def)
  qed
  ultimately have "holds (s\<lparr>nodes := m', allocated := Suc b, head := At b\<rparr>)
      (insert_timer i t (entries (nodes s) (a # qs)))"
    using assms(2) a by (intro holdsI [of _ "b # a # qs"]) (auto simp: b_def)
  with add show ?thesis by simp
qed

lemma insert_timer_carried:
  assumes "usec_ok x" and "usec_ok y" and "\<not> tv_sec x < tv_sec (carry x y)"
  shows "insert_timer i x ((j, carry x y) # r) = insert_timer i x ((j, y) # r)"
  using assms by (simp add: insert_timer_move carry_carry)

lemma add_timenode_later:
  assumes "dlist (nodes s) (head s) (a # qs)" and "set (a # qs) \<subseteq> {..<allocated s}"
    and "i \<notin> fst ` set (entries (nodes s) (a # qs))"
    and t: "0 \<le> tv_usec t" "tv_usec t \<le> 1000000"
    and "\<forall>c \<in> set (a # qs). usec_ok (snd (entry (nodes s) c))"
    and "\<not> tv_sec t < tv_sec (carry t (snd (entry (nodes s) a)))" and "next_node fresh = Null"
  shows "\<exists>s'. add_timenode fresh now i t pnum s = Inr s' \<and> lasttime s' = lasttime s \<and>
    holds s' (insert_timer i t (entries (nodes s) (a # qs)))"
proof -
  define b where "b = allocated s"
  have holds: "holds s (entries (nodes s) (a # qs))"
    using assms(1,2) unfolding holds_def by blast
  have a: "head s = At a" "a \<noteq> b" "b \<notin> set (a # qs)" "a \<notin> set qs"
    using assms(1,2) by (auto simp: dlist_def b_def)
  obtain n where n: "nodes s a = Some n"
    using assms(1) by (auto simp: dlist_def)
  define x where "x = fresh\<lparr>node_id := i, delta_time := t, port_num := pnum\<rparr>"
  define y where "y = carry t (delta_time n)"
  define m where "m = (nodes s)(b \<mapsto> x)"
  define m1 where "m1 = m(a \<mapsto> n\<lparr>delta_time := y\<rparr>)"
  have neg: "\<not> tv_sec t < tv_sec y" and ok: "usec_ok t" "usec_ok (delta_time n)"
    using assms(6,7) t n by (simp_all add: entry_def y_def usec_ok_def)
  have y: "usec_ok y"
    using carry_lo [OF ok] carry_hi [OF ok] t by (simp add: y_def usec_ok_def)
  have cmp: "compare_times m (At b) (At a) = Inr (False, m1)"
    using compare_times_at [of m b x a n] neg a n by (simp add: y_def x_def m1_def m_def)
  have m1: "m1 b = Some x" "m1 a = Some (n\<lparr>delta_time := y\<rparr>)" "\<And>c. c \<noteq> a \<Longrightarrow> c \<noteq> b \<Longrightarrow> m1 c = nodes s c"
    using a by (simp_all add: m1_def m_def)
  have "same_links (nodes s) m1 c" if "c \<in> set (a # qs)" for c
  proof -
    have "c \<noteq> b" using that a(3) by auto
    then show ?thesis
      using m1(2) m1(3) [of c] n by (cases "c = a") (simp_all add: same_links_def)
  qed
  then have dl: "dlist m1 (At a) ([] @ a # qs)"
    using dlist_same_links [OF assms(1), of m1] a(1) by simp
  have e: "entry m1 c = entry (nodes s) c" if "c \<in> set qs" for c
  proof -
    have "c \<noteq> b" "c \<noteq> a" using that a(3,4) by auto
    then show ?thesis using m1(3) [of c] by (simp add: entry_def)
  qed
  have ea: "entry m1 a = (node_id n, y)" "entry (nodes s) a = (node_id n, delta_time n)"
    using m1(2) n by (simp_all add: entry_def)
  have ts: "insert_timer i t (entries m1 (a # qs)) = insert_timer i t (entries (nodes s) (a # qs))"
    using insert_timer_carried [OF ok] neg e by (simp add: ea y_def cong: map_cong)
  have oks: "\<forall>c \<in> set (a # qs). usec_ok (snd (entry m1 c))"
    using assms(6) e ea(1) y by simp
  have x: "next_node x = Null" "usec_ok (delta_time x)" "node_id x = i" "delta_time x = t"
    using assms(8) ok by (simp_all add: x_def)
  have front: "\<not> tv_sec (delta_time x) < tv_sec (carry (delta_time x) (snd (entry m1 a)))"
    using neg carry_carry(1) [OF ok] by (simp add: ea x(4) y_def)
  have len: "length qs < Suc b"
    using length_bound [of qs b] assms(1,2) by (simp add: dlist_def b_def)
  have b: "b \<notin> set ([] @ a # qs)"
    using a(3) by simp
  from insert_loop_refines [OF dl b m1(1) x(1,2) oks front len]
  obtain m' where "insert_loop (Suc b) m1 (At b) (At a) = Inr m'"
    "inserted m1 m' (At a) ([] @ a # qs) b
      (entries m1 [] @ insert_timer (node_id x) (delta_time x) (entries m1 (a # qs)))"
    by blast
  then have m': "insert_loop (Suc b) m1 (At b) (At a) = Inr m'"
    "inserted m1 m' (At a) (a # qs) b (insert_timer i t (entries m1 (a # qs)))"
    by (simp_all add: x(3,4))
  have "add_timenode fresh now i t pnum s = Inr (s\<lparr>nodes := m', allocated := Suc b\<rparr>)"
    using find_timenode_holds [OF holds, of i] assms(3) a(1) cmp m'(1)
    by (simp add: add_timenode_def Let_def b_def [symmetric] x_def [symmetric] m_def [symmetric])
  moreover obtain as' where "dlist m' (At a) as'" "set as' = insert b (set (a # qs))"
    "entries m' as' = insert_timer i t (entries (nodes s) (a # qs))"
    using m'(2) unfolding inserted_def ts by blast
  then have "holds (s\<lparr>nodes := m', allocated := Suc b\<rparr>) (insert_timer i t (entries (nodes s) (a # qs)))"
    using assms(2) a(1) by (intro holdsI [of _ as']) (auto simp: b_def)
  ultimately show ?thesis by simp
qed

subsection \<open>Deleting\<close>

lemma dlist_drop_last:
  assumes "dlist m h (ps @ [c, a])" and "m c = Some k" and "m' = m(c \<mapsto> k\<lparr>next_node := Null\<rparr>)"
  shows "dlist m' h (ps @ [c])"
proof -
  have "seg m None h ((ps @ [c]) @ [a]) Null" and d: "c \<notin> set ps" "distinct (ps @ [c])"
    using assms(1) by (simp_all add: dlist_def)
  then obtain r where "seg m None h (ps @ [c]) r"
    unfolding seg_append [of m None h "ps @ [c]"] by blast
  then have "seg m' None h (ps @ [c]) Null"
    using assms(2,3) d
    by (elim seg_redirect_last [where n = k and n' = "k\<lparr>next_node := Null\<rparr>"]) (auto simp: same_links_def)
  with d show ?thesis by (simp add: dlist_def)
qed

lemma dlist_unlink:
  assumes "dlist m h (ps @ c # a # e # qs)" and "m c = Some k" and "m e = Some g"
    and m': "m' = m(c \<mapsto> k\<lparr>next_node := At e\<rparr>, e \<mapsto> g')"
    and "next_node g' = next_node g" "forward g' = At c"
  shows "dlist m' h (ps @ c # e # qs)"
proof -
  have s: "seg m None h ((ps @ [c]) @ [a] @ e # qs) Null"
    and d: "c \<notin> set ps" "e \<notin> set qs" "e \<notin> set ps" "e \<noteq> c" "c \<notin> set qs" "distinct (ps @ c # e # qs)"
    using assms(1) by (auto simp: dlist_def)
  obtain r r' where r: "seg m None h (ps @ [c]) r" "seg m (Some a) r' (e # qs) Null"
    using s unfolding seg_append by auto
  then have re: "r' = At e"
    by simp
  have "seg m' None h (ps @ [c]) (At e)"
    using assms(2) d m'
    by (intro seg_redirect_last [OF r(1), where n = k and n' = "k\<lparr>next_node := At e\<rparr>"])
      (auto simp: same_links_def)
  moreover have "seg m' (Some c) (At e) (e # qs) Null"
    using assms(3,5,6) d m' r(2) re
    by (intro seg_redirect_first [of m "Some a" "At e" e qs Null m' g g']) (auto simp: same_links_def)
  ultimately have "seg m' None h ((ps @ [c]) @ e # qs) Null"
    unfolding seg_append [of m' None h "ps @ [c]"] by auto
  with d show ?thesis by (simp add: dlist_def)
qed

lemma delete_loop_refines:
  assumes "dlist m h (ps @ as)" and "ps \<noteq> [] \<or> (\<exists>a qs. as = a # qs \<and> fst (entry m a) \<noteq> i)"
    and "seg m prev p as Null" and "length as < fuel"
  shows "\<exists>m' as'. delete_loop fuel m p i = Inr m' \<and> dlist m' h as' \<and> set as' \<subseteq> set (ps @ as) \<and>
    entries m' as' = entries m ps @ remove_timer i (entries m as)"
  using assms
proof (induction as arbitrary: ps prev p fuel)
  case Nil
  then show ?case by (cases fuel) auto
next
  case (Cons a as)
  obtain f where f: "fuel = Suc f" "length as < f"
    using Cons.prems(4) by (cases fuel) auto
  obtain n where n: "p = At a" "m a = Some n" "seg m (Some a) (next_node n) as Null"
    using Cons.prems(3) by auto
  show ?case
  proof (cases "node_id n = i")
    case False
    then show ?thesis
      using Cons.IH [of "ps @ [a]" "Some a" "next_node n" f] Cons.prems(1) n f by (auto simp: entry_def)
  next
    case True
    then obtain ps' c where ps: "ps = ps' @ [c]"
      using Cons.prems(2) n(2) by (cases ps rule: rev_cases) (auto simp: entry_def)
    have dl: "dlist m h (ps' @ c # a # as)"
      using Cons.prems(1) ps by simp
    obtain k where k: "m c = Some k" "forward n = At c"
      using dlist_forward [OF dl] n(2) by auto
    have d: "distinct (ps' @ c # a # as)"
      using dl by (simp add: dlist_def)
    show ?thesis
    proof (cases as)
      case Nil
      define m' where "m' = m(c \<mapsto> k\<lparr>next_node := Null\<rparr>)"
      have "delete_loop fuel m p i = Inr m'"
        using f n k True d Nil by (simp add: add_time_def m'_def)
      moreover have "dlist m' h (ps' @ [c])"
        using dlist_drop_last [of m h ps' c a, OF _ k(1) m'_def] dl Nil by simp
      moreover have "entries m' (ps' @ [c]) = entries m ps @ remove_timer i (entries m (a # as))"
        using d k(1) n(2) True Nil ps by (auto simp: entry_def m'_def)
      ultimately show ?thesis using ps Nil by (intro exI conjI) auto
    next
      case (Cons e qs)
      obtain g where g: "m e = Some g" "next_node n = At e"
        using n(3) Cons by auto
      define m' where "m' = m(c \<mapsto> k\<lparr>next_node := At e\<rparr>,
          e \<mapsto> g\<lparr>forward := At c, delta_time := timeval_add (delta_time g) (delta_time n)\<rparr>)"
      have "delete_loop fuel m p i = Inr m'"
        using f n k True d g Cons by (auto simp: add_time_def m'_def)
      moreover have "dlist m' h (ps' @ c # e # qs)"
        by (rule dlist_unlink [OF _ k(1) g(1) m'_def]) (use dl Cons in simp_all)
      moreover have "entries m' (ps' @ c # e # qs) = entries m ps @ remove_timer i (entries m (a # as))"
        using d k(1) n(2) True g Cons ps by (auto simp: entry_def m'_def)
      ultimately show ?thesis using ps Cons by (intro exI conjI) auto
    qed
  qed
qed

declare delete_loop.simps(2) [simp del]

lemma seg_unlinked: "seg m prev p as q \<Longrightarrow> seg m None p as q"
  by (cases as) auto

lemma delete_timenode_refines:
  assumes "holds s ts"
  shows "\<exists>s'. delete_timenode i s = Inr s' \<and> holds s' (remove_timer i ts) \<and> lasttime s' = lasttime s \<and>
    allocated s' = allocated s"
proof -
  obtain as where as: "dlist (nodes s) (head s) as" "set as \<subseteq> {..<allocated s}"
    "ts = entries (nodes s) as" "length as \<le> allocated s"
    using assms by (rule holdsE)
  note find = find_timenode_holds [OF assms, of i]
  show ?thesis
  proof (cases "i \<in> fst ` set ts")
    case False
    then have "remove_timer i ts = ts"
      by (induction ts rule: remove_timer.induct) auto
    then show ?thesis
      using False find assms by (simp add: delete_timenode_def)
  next
    case True
    then obtain a qs where a: "as = a # qs"
      using as(3) by (cases as) auto
    then obtain n where n: "head s = At a" "nodes s a = Some n" "seg (nodes s) (Some a) (next_node n) qs Null"
      using as(1) by (auto simp: dlist_def)
    show ?thesis
    proof (cases "node_id n = i")
      case False
      have "\<exists>m' as'. delete_loop (Suc (allocated s)) (nodes s) (head s) i = Inr m' \<and>
          dlist m' (head s) as' \<and> set as' \<subseteq> set ([] @ as) \<and>
          entries m' as' = entries (nodes s) [] @ remove_timer i (entries (nodes s) as)"
      proof (rule delete_loop_refines)
        show "seg (nodes s) None (head s) as Null" using as(1) by (simp add: dlist_def)
      qed (use as a n False in \<open>simp_all add: entry_def\<close>)
      then obtain m' as' where "delete_loop (Suc (allocated s)) (nodes s) (head s) i = Inr m'"
        "dlist m' (head s) as'" "set as' \<subseteq> set as" "entries m' as' = remove_timer i ts"
        using as(3) by auto
      then show ?thesis
        using True find False n as(2) by (auto simp: delete_timenode_def intro!: holdsI [of _ as'])
    next
      case eq: True
      have "\<exists>m'. add_time (nodes s) (next_node n) (delta_time n) = Inr m' \<and> seg m' None (next_node n) qs Null \<and>
          entries m' qs = remove_timer i ts"
      proof (cases qs)
        case Nil
        then show ?thesis using n eq a as(3) by (auto simp: add_time_def entry_def)
      next
        case (Cons e rs)
        then obtain g where g: "next_node n = At e" "nodes s e = Some g"
          using n(3) by auto
        define m' where "m' = (nodes s)(e \<mapsto> g\<lparr>delta_time := timeval_add (delta_time g) (delta_time n)\<rparr>)"
        have "seg m' None (next_node n) qs Null"
          using seg_unlinked [OF n(3)] by (rule seg_same_links) (auto simp: same_links_def m'_def g)
        moreover have "entries m' qs = remove_timer i ts"
          using as(1) g n eq Cons a by (auto simp: entry_def m'_def as(3) dlist_def)
        ultimately show ?thesis
          using g by (simp add: add_time_def m'_def)
      qed
      then obtain m' where "add_time (nodes s) (next_node n) (delta_time n) = Inr m'"
        "seg m' None (next_node n) qs Null" "entries m' qs = remove_timer i ts"
        by blast
      then show ?thesis
        using True find eq n as(1,2) a
        by (auto simp: delete_timenode_def dlist_def intro!: holdsI [of _ qs])
    qed
  qed
qed

subsection \<open>Expiring\<close>

lemma expire_negative:
  "tv_sec t < tv_sec (carry t y) \<Longrightarrow> expire t ((i, y) # r) = ([], (i, minus_time (carry t y) t) # r)"
  by (simp add: subtract_carry subtract_into_carry)

lemma expire_next:
  "\<not> tv_sec t < tv_sec (carry t y) \<Longrightarrow>
    expire t ((i, y) # r) = (i # fst (expire (minus_time t y) r), snd (expire (minus_time t y) r))"
  by (simp add: subtract_carry split: prod.splits)

declare expire.simps(2) [simp del]

lemma expire_loop_at:
  assumes n: "m a = Some n" and ok: "usec_ok t" "usec_ok (delta_time n)"
  defines "y \<equiv> carry t (delta_time n)"
  shows "expire_loop (Suc fuel) m (At a) t =
    (if tv_sec t < tv_sec y then Inr (m(a \<mapsto> n\<lparr>delta_time := minus_time y t\<rparr>), At a, [])
     else bindE (expire_loop fuel (m(a \<mapsto> n\<lparr>delta_time := y\<rparr>)) (next_node n) (minus_time t (delta_time n)))
       (\<lambda>(m, node, ids). Inr (m, node, node_id n # ids)))"
  using n carry_carry [OF ok]
  by (simp add: y_def subtract_carry subtract_into_carry)

declare expire_loop.simps(2) [simp del]

lemma expire_loop_refines:
  assumes "seg m prev p as Null" and "distinct as" and "length as < fuel"
    and "usec_ok t" and "\<forall>c \<in> set as. usec_ok (snd (entry m c))"
  shows "\<exists>m' h' as'. expire_loop fuel m p t = Inr (m', h', fst (expire t (entries m as))) \<and>
    dlist m' h' as' \<and> set as' \<subseteq> set as \<and> entries m' as' = snd (expire t (entries m as))"
  using assms
proof (induction as arbitrary: m prev p fuel t)
  case Nil
  then show ?case by (cases fuel) (auto simp: dlist_def expire_loop.simps)
next
  case (Cons a as)
  obtain f where f: "fuel = Suc f" "length as < f"
    using Cons.prems(3) by (cases fuel) auto
  obtain n where n: "p = At a" "m a = Some n" "seg m (Some a) (next_node n) as Null"
    using Cons.prems(1) by auto
  have ok: "usec_ok t" "usec_ok (delta_time n)" and a: "a \<notin> set as" "distinct as"
    using Cons.prems n by (simp_all add: entry_def)
  note loop = expire_loop_at [of m a n t f, OF n(2) ok]
  show ?case
  proof (cases "tv_sec t < tv_sec (carry t (delta_time n))")
    case True
    define m' where "m' = m(a \<mapsto> n\<lparr>delta_time := minus_time (carry t (delta_time n)) t\<rparr>)"
    have "seg m' prev p (a # as) Null"
      using Cons.prems(1) by (rule seg_same_links) (use n in \<open>auto simp: m'_def same_links_def\<close>)
    then have "dlist m' (At a) (a # as)"
      using seg_unlinked a n(1) unfolding dlist_def by auto
    moreover have "entries m' (a # as) = snd (expire t (entries m (a # as)))"
      using n a True by (auto simp: m'_def entry_def expire_negative)
    moreover have "fst (expire t (entries m (a # as))) = []"
      using n True by (simp add: entry_def expire_negative)
    ultimately show ?thesis
      using loop True f n by (auto simp: m'_def intro!: exI [of _ "a # as"])
  next
    case False
    define m1 where "m1 = m(a \<mapsto> n\<lparr>delta_time := carry t (delta_time n)\<rparr>)"
    have "seg m1 (Some a) (next_node n) as Null"
      using n(3) by (rule seg_frame) (use a in \<open>auto simp: m1_def\<close>)
    moreover have e: "entry m1 c = entry m c" if "c \<in> set as" for c
      using that a by (auto simp: m1_def entry_def)
    then have "\<forall>c \<in> set as. usec_ok (snd (entry m1 c))"
      using Cons.prems(5) by simp
    ultimately obtain m' h' as' where
      "expire_loop f m1 (next_node n) (minus_time t (delta_time n)) =
        Inr (m', h', fst (expire (minus_time t (delta_time n)) (entries m1 as)))"
      "dlist m' h' as'" "set as' \<subseteq> set as"
      "entries m' as' = snd (expire (minus_time t (delta_time n)) (entries m1 as))"
      using Cons.IH [of m1 "Some a" "next_node n" f] a(2) f(2) usec_ok_minus [OF ok] by blast
    moreover have "entries m1 as = entries m as"
      using e by simp
    moreover have "expire t (entries m (a # as)) =
        (node_id n # fst (expire (minus_time t (delta_time n)) (entries m as)),
         snd (expire (minus_time t (delta_time n)) (entries m as)))"
      using n False by (simp add: entry_at expire_next)
    ultimately show ?thesis
      using loop False f n
      by (intro exI [of _ m'] exI [of _ h'] exI [of _ as']) (auto simp: m1_def cong: map_cong)
  qed
qed

definition elapsed :: "timeval \<Rightarrow> timer_state \<Rightarrow> timeval" where
  "elapsed now s =
    (if tv_sec (lasttime s) = 0 \<and> tv_usec (lasttime s) = 0 then lasttime s
     else fst (snd (timeval_subtract now (lasttime s))))"

lemma update_time_list_refines:
  assumes "holds s ts" and "usec_ok (elapsed now s)" and "\<forall>x \<in> set ts. usec_ok (snd x)"
  shows "\<exists>s'. update_time_list now s = Inr (s', fst (expire (elapsed now s) ts)) \<and>
    holds s' (snd (expire (elapsed now s) ts)) \<and> lasttime s' = now \<and> allocated s' = allocated s"
proof -
  obtain as where as: "dlist (nodes s) (head s) as" "set as \<subseteq> {..<allocated s}"
    "ts = entries (nodes s) as" "length as \<le> allocated s"
    using assms(1) by (rule holdsE)
  have "\<forall>c \<in> set as. usec_ok (snd (entry (nodes s) c))"
    using assms(3) as(3) by simp
  then obtain m' h' as' where
    "expire_loop (Suc (allocated s)) (nodes s) (head s) (elapsed now s) =
      Inr (m', h', fst (expire (elapsed now s) ts))"
    "dlist m' h' as'" "set as' \<subseteq> set as" "entries m' as' = snd (expire (elapsed now s) ts)"
    using expire_loop_refines [of "nodes s" None "head s" as "Suc (allocated s)" "elapsed now s"] as assms(2)
    by (auto simp: dlist_def)
  then show ?thesis
    using as(2) by (auto simp: update_time_list_def elapsed_def [symmetric] intro!: holdsI [of _ as'])
qed

subsection \<open>Printing\<close>

lemma print_time_list_refines:
  assumes "seg m prev p as Null" and "distinct as" and "length as < fuel"
  shows "\<exists>m'. print_time_list fuel m p = Inr m' \<and> seg m' prev p as Null \<and>
    (\<forall>c. c \<notin> set as \<longrightarrow> m' c = m c) \<and>
    entries m' as = map (\<lambda>(i, t). (i, print_normalise t)) (entries m as)"
  using assms
proof (induction as arbitrary: m prev p fuel)
  case Nil
  then show ?case by (cases fuel) auto
next
  case (Cons a as)
  obtain f where f: "fuel = Suc f" "length as < f"
    using Cons.prems(3) by (cases fuel) auto
  obtain n where n: "p = At a" "m a = Some n" "seg m (Some a) (next_node n) as Null"
    "\<forall>c. prev = Some c \<longrightarrow> forward n = At c"
    using Cons.prems(1) by auto
  have a: "a \<notin> set as" "distinct as"
    using Cons.prems(2) by simp_all
  define m1 where "m1 = m(a \<mapsto> n\<lparr>delta_time := print_normalise (delta_time n)\<rparr>)"
  have "seg m1 (Some a) (next_node n) as Null"
    using n(3) by (rule seg_frame) (use a in \<open>auto simp: m1_def\<close>)
  then obtain m' where m': "print_time_list f m1 (next_node n) = Inr m'"
    "seg m' (Some a) (next_node n) as Null" "\<forall>c. c \<notin> set as \<longrightarrow> m' c = m1 c"
    "entries m' as = map (\<lambda>(i, t). (i, print_normalise t)) (entries m1 as)"
    using Cons.IH [of m1 "Some a" "next_node n" f] a f by blast
  have "entries m1 as = entries m as"
    using a by (auto simp: m1_def entry_def)
  moreover have "m' a = Some (n\<lparr>delta_time := print_normalise (delta_time n)\<rparr>)"
    using m'(3) a by (simp add: m1_def)
  moreover have "print_time_list fuel m p = Inr m'"
    using f n m'(1) by (simp add: m1_def)
  ultimately show ?case
    using m' n by (intro exI [of _ m']) (auto simp: entry_at m1_def)
qed

end
