(* ===== verification/TimerQueue.thy ===== *)
theory TimerQueue
  imports DeltaList
begin

text \<open>
  What the list of \<open>DeltaList\<close> means: each timer has a deadline, the time of the last
  update plus the times of the nodes up to its own. The locale \<open>timer_queue\<close> states
  starting, cancelling and updating as operations on a map from numbers to deadlines;
  the store of nodes with \<open>add_timenode\<close>, \<open>delete_timenode\<close> and \<open>update_time_list\<close>
  is an interpretation of it.
\<close>

section \<open>Deadlines\<close>

fun deadlines :: "int \<Rightarrow> timers \<Rightarrow> (int \<times> int) list" where
  "deadlines b [] = []"
| "deadlines b ((i, t) # r) = (i, b + usecs t) # deadlines (b + usecs t) r"

lemma fst_deadlines [simp]: "map fst (deadlines b ts) = map fst ts"
  by (induction b ts rule: deadlines.induct) auto

lemma minus_time_usecs: "usec_ok x \<Longrightarrow> usec_ok y \<Longrightarrow> usecs (minus_time x y) = usecs x - usecs y"
  using carry_usecs [of x y] by (simp add: minus_time_def usecs_def)

lemma negative_usecs:
  assumes "usec_ok x" and "usec_ok y"
  shows "tv_sec x < tv_sec (carry x y) \<Longrightarrow> usecs x \<le> usecs y"
    and "\<not> tv_sec x < tv_sec (carry x y) \<Longrightarrow> usecs y \<le> usecs x"
  using carry_facts [OF assms] by (auto simp: usecs_def)

abbreviation all_ok :: "timers \<Rightarrow> bool" where
  "all_ok ts \<equiv> \<forall>x \<in> set ts. usec_ok (snd x)"

lemma usec_ok_carry:
  assumes "usec_ok x" and "usec_ok y" and "\<bar>tv_usec x\<bar> \<le> 1000000"
  shows "usec_ok (carry x y)"
  using carry_lo [OF assms(1,2)] carry_hi [OF assms(1,2)] assms(3) by (simp add: usec_ok_def)

text \<open>A new timer is put between those with an earlier and those with a later deadline.\<close>

lemma insert_deadlines:
  assumes "all_ok ts" and "0 \<le> tv_usec x" and "tv_usec x \<le> 1000000"
  shows "\<exists>P Q. deadlines b ts = P @ Q \<and> deadlines b (insert_timer i x ts) = P @ (i, b + usecs x) # Q \<and>
    (P \<noteq> [] \<longrightarrow> snd (last P) \<le> b + usecs x) \<and> (Q \<noteq> [] \<longrightarrow> b + usecs x \<le> snd (hd Q))"
  using assms
proof (induction ts arbitrary: b x)
  case (Cons a r)
  obtain j y where a: "a = (j, y)" by (cases a)
  have ok: "usec_ok x" "usec_ok y"
    using Cons.prems a by (simp_all add: usec_ok_def)
  show ?case
  proof (cases "tv_sec x < tv_sec (carry x y)")
    case True
    have y': "usec_ok (carry x y)"
      using usec_ok_carry [OF ok] Cons.prems(2,3) by simp
    have "usecs (carry (carry x y) x) = usecs x" "usecs (minus_time (carry x y) x) = usecs y - usecs x"
      using carry_usecs [OF y' ok(1)] minus_time_usecs [OF y' ok(1)] carry_usecs [OF ok] by simp_all
    with True negative_usecs(1) [OF ok True] show ?thesis
      by (intro exI [of _ "[]"] exI [of _ "deadlines b (a # r)"]) (simp add: a insert_timer_negative)
  next
    case False
    have "0 \<le> tv_usec (minus_time x y)" "tv_usec (minus_time x y) \<le> 1000000"
      using carry_lo [OF ok] carry_hi [OF ok] by (simp_all add: minus_time_def)
    then obtain P Q where PQ: "deadlines (b + usecs y) r = P @ Q"
      "deadlines (b + usecs y) (insert_timer i (minus_time x y) r) = P @ (i, b + usecs x) # Q"
      "P \<noteq> [] \<longrightarrow> snd (last P) \<le> b + usecs x" "Q \<noteq> [] \<longrightarrow> b + usecs x \<le> snd (hd Q)"
      using Cons.IH [of "minus_time x y" "b + usecs y"] Cons.prems(1) minus_time_usecs [OF ok]
      by (auto simp: algebra_simps)
    show ?thesis
      using PQ False negative_usecs(2) [OF ok False] carry_usecs [OF ok]
      by (intro exI [of _ "(j, b + usecs y) # P"] exI [of _ Q]) (simp add: a insert_timer_move)
  qed
qed simp

text \<open>Deleting a timer keeps the deadlines of the others.\<close>

lemma filter_deadlines:
  "i \<notin> fst ` set ts \<Longrightarrow> filter (\<lambda>x. fst x \<noteq> i) (deadlines b ts) = deadlines b ts"
  by (induction b ts rule: deadlines.induct) auto

lemma remove_deadlines:
  "distinct (map fst ts) \<Longrightarrow>
    deadlines b (remove_timer i ts) = filter (\<lambda>x. fst x \<noteq> i) (deadlines b ts)"
proof (induction ts arbitrary: b)
  case (Cons a r)
  then show ?case
    by (cases a; cases r) (auto simp: timeval_add_usecs filter_deadlines algebra_simps)
qed simp

text \<open>Time \<open>t\<close> passes: the timers up to it expire, the others keep their deadlines.\<close>

lemma expire_deadlines:
  assumes "all_ok ts" and "0 \<le> tv_usec t" and "tv_usec t \<le> 1000000"
  shows "\<exists>E R. deadlines b ts = E @ R \<and> map fst E = fst (expire t ts) \<and>
    deadlines (b + usecs t) (snd (expire t ts)) = R \<and>
    (E \<noteq> [] \<longrightarrow> snd (last E) \<le> b + usecs t) \<and> (R \<noteq> [] \<longrightarrow> b + usecs t \<le> snd (hd R))"
  using assms
proof (induction ts arbitrary: b t)
  case (Cons a r)
  obtain j y where a: "a = (j, y)" by (cases a)
  have ok: "usec_ok t" "usec_ok y"
    using Cons.prems a by (simp_all add: usec_ok_def)
  show ?case
  proof (cases "tv_sec t < tv_sec (carry t y)")
    case True
    have y': "usec_ok (carry t y)"
      using usec_ok_carry [OF ok] Cons.prems(2,3) by simp
    have "usecs (minus_time (carry t y) t) = usecs y - usecs t"
      using minus_time_usecs [OF y' ok(1)] carry_usecs [OF ok] by simp
    with True negative_usecs(1) [OF ok True] show ?thesis
      by (intro exI [of _ "[]"] exI [of _ "deadlines b (a # r)"]) (simp add: a expire_negative)
  next
    case False
    have "0 \<le> tv_usec (minus_time t y)" "tv_usec (minus_time t y) \<le> 1000000"
      using carry_lo [OF ok] carry_hi [OF ok] by (simp_all add: minus_time_def)
    then obtain E R where ER: "deadlines (b + usecs y) r = E @ R"
      "map fst E = fst (expire (minus_time t y) r)"
      "deadlines (b + usecs t) (snd (expire (minus_time t y) r)) = R"
      "E \<noteq> [] \<longrightarrow> snd (last E) \<le> b + usecs t" "R \<noteq> [] \<longrightarrow> b + usecs t \<le> snd (hd R)"
      using Cons.IH [of "minus_time t y" "b + usecs y"] Cons.prems(1) minus_time_usecs [OF ok]
      by (auto simp: algebra_simps)
    show ?thesis
      using ER False negative_usecs(2) [OF ok False] carry_usecs [OF ok]
      by (intro exI [of _ "(j, b + usecs y) # E"] exI [of _ R]) (simp add: a expire_next)
  qed
qed simp

section \<open>The microseconds stay small\<close>

text \<open>
  \<open>timeval_subtract\<close> may leave microseconds outside of 0 to 999999 in a node, and deleting
  adds them up: with \<open>n\<close> timers started they stay within \<open>2000000 * n\<close>, where no \<open>int\<close>
  of the carry steps overflows for \<open>n\<close> up to 500.
\<close>

fun tame :: "nat \<Rightarrow> timers \<Rightarrow> bool" where
  "tame n [] \<longleftrightarrow> True"
| "tame n ((i, t) # r) \<longleftrightarrow>
    (\<exists>w < n. \<bar>tv_usec t\<bar> \<le> 2000000 * int (Suc w) \<and> tame (n - Suc w) r)"

lemma tame_mono: "tame n ts \<Longrightarrow> n \<le> m \<Longrightarrow> tame m ts"
proof (induction ts arbitrary: n m)
  case (Cons a r)
  obtain i t where a: "a = (i, t)" by (cases a)
  then obtain w where "w < n" "\<bar>tv_usec t\<bar> \<le> 2000000 * int (Suc w)" "tame (n - Suc w) r"
    using Cons.prems(1) by auto
  with Cons.IH [of "n - Suc w" "m - Suc w"] Cons.prems(2) a show ?case
    by (auto intro!: exI [of _ w])
qed simp

lemma tame_ok: "tame n ts \<Longrightarrow> n \<le> 500 \<Longrightarrow> all_ok ts"
proof (induction n ts rule: tame.induct)
  case (2 n i t r)
  then obtain w where w: "w < n" "\<bar>tv_usec t\<bar> \<le> 2000000 * int (Suc w)" "tame (n - Suc w) r"
    by auto
  have "2000000 * int (Suc w) \<le> 2000000 * 500"
    using w(1) 2(3) by simp
  with w(2) have "\<bar>tv_usec t\<bar> \<le> 2000000 * 500"
    by (rule order_trans)
  with 2 w show ?case
    by (auto simp: usec_ok_def)
qed simp

lemma insert_tame:
  assumes "tame n ts" and "all_ok ts" and "0 \<le> tv_usec x" and "tv_usec x \<le> 1000000"
  shows "tame (Suc n) (insert_timer i x ts)"
  using assms
proof (induction ts arbitrary: n x)
  case (Cons a r)
  obtain j y where a: "a = (j, y)" by (cases a)
  obtain w where w: "w < n" "\<bar>tv_usec y\<bar> \<le> 2000000 * int (Suc w)" "tame (n - Suc w) r"
    using Cons.prems(1) a by auto
  have ok: "usec_ok x" "usec_ok y"
    using Cons.prems a by (simp_all add: usec_ok_def)
  have y': "\<bar>tv_usec (carry x y)\<bar> \<le> 1000000" "usec_ok (carry x y)"
    using carry_lo [OF ok] carry_hi [OF ok] Cons.prems(3,4) usec_ok_carry [OF ok] by auto
  show ?case
  proof (cases "tv_sec x < tv_sec (carry x y)")
    case True
    have m: "\<bar>tv_usec (minus_time (carry x y) x)\<bar> \<le> 1000000"
      using carry_lo [OF y'(2) ok(1)] carry_hi [OF y'(2) ok(1)] by (simp add: minus_time_def)
    have "\<bar>tv_usec (carry (carry x y) x)\<bar> \<le> 2000000"
      using carry_lo [OF y'(2) ok(1)] carry_hi [OF y'(2) ok(1)] y'(1) by linarith
    moreover from m have "\<bar>tv_usec (minus_time (carry x y) x)\<bar> \<le> 2000000 * int (Suc w)"
      by simp
    then have "tame n ((j, minus_time (carry x y) x) # r)"
      using w by (auto intro!: exI [of _ w])
    ultimately show ?thesis
      using True by (simp add: a insert_timer_negative del: tame.simps(2))
        (simp only: tame.simps(2) [of _ i], intro exI [of _ "0::nat"], simp del: tame.simps(2))
  next
    case False
    have "0 \<le> tv_usec (minus_time x y)" "tv_usec (minus_time x y) \<le> 1000000"
      using carry_lo [OF ok] carry_hi [OF ok] by (simp_all add: minus_time_def)
    then have "tame (Suc (n - Suc w)) (insert_timer i (minus_time x y) r)"
      using Cons.IH [OF w(3)] Cons.prems(2) by simp
    with False w y'(1) show ?thesis
      by (auto simp: a insert_timer_move Suc_diff_Suc intro!: exI [of _ w])
  qed
qed auto

lemma remove_tame: "tame n ts \<Longrightarrow> tame n (remove_timer i ts)"
proof (induction n ts rule: tame.induct)
  case (2 n j y r)
  obtain w where w: "w < n" "\<bar>tv_usec y\<bar> \<le> 2000000 * int (Suc w)" "tame (n - Suc w) r"
    using 2(2) by auto
  show ?case
  proof (cases "j = i")
    case False
    then show ?thesis using w 2(1) by auto
  next
    case True
    show ?thesis
    proof (cases r)
      case (Cons b r')
      obtain k z where b: "b = (k, z)" by (cases b)
      obtain v where v: "v < n - Suc w" "\<bar>tv_usec z\<bar> \<le> 2000000 * int (Suc v)" "tame (n - Suc w - Suc v) r'"
        using w(3) Cons b by auto
      have "\<bar>tv_usec (timeval_add z y)\<bar> \<le> 2000000 * int (Suc (Suc (w + v)))"
        using w(2) v(2) by (simp add: timeval_add_def)
      with True Cons b v show ?thesis
        by (auto intro!: exI [of _ "Suc (w + v)"])
    qed (use True in simp)
  qed
qed simp

lemma expire_tame:
  assumes "tame n ts" and "all_ok ts" and "0 \<le> tv_usec t" and "tv_usec t \<le> 1000000"
  shows "tame n (snd (expire t ts))"
  using assms
proof (induction ts arbitrary: n t)
  case (Cons a r)
  obtain j y where a: "a = (j, y)" by (cases a)
  obtain w where w: "w < n" "\<bar>tv_usec y\<bar> \<le> 2000000 * int (Suc w)" "tame (n - Suc w) r"
    using Cons.prems(1) a by auto
  have ok: "usec_ok t" "usec_ok y"
    using Cons.prems a by (simp_all add: usec_ok_def)
  show ?case
  proof (cases "tv_sec t < tv_sec (carry t y)")
    case True
    have y': "usec_ok (carry t y)"
      using usec_ok_carry [OF ok] Cons.prems(3,4) by simp
    have "\<bar>tv_usec (minus_time (carry t y) t)\<bar> \<le> 1000000"
      using carry_lo [OF y' ok(1)] carry_hi [OF y' ok(1)] by (simp add: minus_time_def)
    with True w show ?thesis
      by (auto simp: a expire_negative intro!: exI [of _ w])
  next
    case False
    have "0 \<le> tv_usec (minus_time t y)" "tv_usec (minus_time t y) \<le> 1000000"
      using carry_lo [OF ok] carry_hi [OF ok] by (simp_all add: minus_time_def)
    then have "tame (n - Suc w) (snd (expire (minus_time t y) r))"
      using Cons.IH [OF w(3)] Cons.prems(2) by simp
    with False show ?thesis
      by (auto simp: a expire_next intro: tame_mono)
  qed
qed simp

section \<open>The interface\<close>

text \<open>The timers that may fire at time \<open>t\<close>: all that were due before, none that is due later.\<close>

definition fired :: "(int \<rightharpoonup> int) \<Rightarrow> int \<Rightarrow> int list \<Rightarrow> bool" where
  "fired D t ids \<longleftrightarrow> distinct ids \<and> set ids \<subseteq> dom D \<and> sorted (map (the \<circ> D) ids) \<and>
    (\<forall>i d. D i = Some d \<longrightarrow> (d < t \<longrightarrow> i \<in> set ids) \<and> (i \<in> set ids \<longrightarrow> d \<le> t))"

definition interval_ok :: "timeval \<Rightarrow> bool" where
  "interval_ok x \<longleftrightarrow> 0 \<le> tv_usec x \<and> tv_usec x \<le> 1000000"

definition clock_ok :: "timeval \<Rightarrow> bool" where
  "clock_ok t \<longleftrightarrow> normal t \<and> 0 < usecs t"

text \<open>
  A timer that is started while none runs is due an interval after the clock time; any other
  is due an interval after the last update.
\<close>

definition start_spec :: "int \<Rightarrow> timeval \<Rightarrow> timeval \<Rightarrow> int \<times> (int \<rightharpoonup> int) \<Rightarrow> int \<times> (int \<rightharpoonup> int)" where
  "start_spec i x now = (\<lambda>(b, D).
    if i \<in> dom D then (b, D)
    else if D = Map.empty then (usecs now, [i \<mapsto> usecs now + usecs x])
    else (b, D(i \<mapsto> b + usecs x)))"

datatype timer_op =
    Add int timeval timeval   \<comment> \<open>number, interval, clock\<close>
  | Delete int
  | Elapse timeval            \<comment> \<open>clock\<close>

fun op_ok :: "timer_op \<Rightarrow> bool" where
  "op_ok (Add i x now) \<longleftrightarrow> interval_ok x \<and> clock_ok now"
| "op_ok (Delete i) \<longleftrightarrow> True"
| "op_ok (Elapse now) \<longleftrightarrow> clock_ok now"

definition adds :: "timer_op list \<Rightarrow> nat" where
  "adds ops = length (filter (\<lambda>x. \<not> (case x of Add i x now \<Rightarrow> False | _ \<Rightarrow> True)) ops)"

text \<open>A sequence of operations and, for each, the numbers of the timers that fire.\<close>

inductive spec_run :: "int \<times> (int \<rightharpoonup> int) \<Rightarrow> timer_op list \<Rightarrow> int list list \<Rightarrow> int \<times> (int \<rightharpoonup> int) \<Rightarrow> bool" where
  spec_Nil: "spec_run S [] [] S"
| spec_Add: "spec_run (start_spec i x now S) ops outs S' \<Longrightarrow> spec_run S (Add i x now # ops) ([] # outs) S'"
| spec_Delete: "spec_run (b, D(i := None)) ops outs S' \<Longrightarrow> spec_run (b, D) (Delete i # ops) ([] # outs) S'"
| spec_Elapse: "fired D (usecs now) ids \<Longrightarrow> spec_run (usecs now, D |` (- set ids)) ops outs S' \<Longrightarrow>
    spec_run (b, D) (Elapse now # ops) (ids # outs) S'"

inductive_cases spec_run_cases:
  "spec_run S [] outs S'" "spec_run S (Add i x now # ops) outs S'"
  "spec_run S (Delete i # ops) outs S'" "spec_run S (Elapse now # ops) outs S'"

fun queue_run ::
  "(int \<Rightarrow> timeval \<Rightarrow> timeval \<Rightarrow> 's \<Rightarrow> fault + 's) \<Rightarrow> (int \<Rightarrow> 's \<Rightarrow> fault + 's) \<Rightarrow>
    (timeval \<Rightarrow> 's \<Rightarrow> fault + ('s \<times> int list)) \<Rightarrow> timer_op list \<Rightarrow> 's \<Rightarrow> fault + ('s \<times> int list list)"
where
  "queue_run start cancel update [] s = Inr (s, [])"
| "queue_run start cancel update (x # ops) s =
    bindE (case x of
        Add i t now \<Rightarrow> bindE (start i t now s) (\<lambda>s. Inr (s, []))
      | Delete i \<Rightarrow> bindE (cancel i s) (\<lambda>s. Inr (s, []))
      | Elapse now \<Rightarrow> update now s) (\<lambda>(s, ids).
    bindE (queue_run start cancel update ops s) (\<lambda>(s, outs). Inr (s, ids # outs)))"

locale timer_queue =
  fixes rep :: "'s \<Rightarrow> int \<times> (int \<rightharpoonup> int) \<Rightarrow> bool"
    and used :: "'s \<Rightarrow> nat"
    and start :: "int \<Rightarrow> timeval \<Rightarrow> timeval \<Rightarrow> 's \<Rightarrow> fault + 's"
    and cancel :: "int \<Rightarrow> 's \<Rightarrow> fault + 's"
    and update :: "timeval \<Rightarrow> 's \<Rightarrow> fault + ('s \<times> int list)"
  assumes start_law: "rep s S \<Longrightarrow> used s < 500 \<Longrightarrow> interval_ok x \<Longrightarrow> clock_ok now \<Longrightarrow>
      \<exists>s'. start i x now s = Inr s' \<and> used s' \<le> Suc (used s) \<and> rep s' (start_spec i x now S)"
    and cancel_law: "rep s (b, D) \<Longrightarrow>
      \<exists>s'. cancel i s = Inr s' \<and> used s' = used s \<and> rep s' (b, D(i := None))"
    and update_law: "rep s (b, D) \<Longrightarrow> used s \<le> 500 \<Longrightarrow> clock_ok now \<Longrightarrow>
      \<exists>s' ids. update now s = Inr (s', ids) \<and> used s' = used s \<and> fired D (usecs now) ids \<and>
        rep s' (usecs now, D |` (- set ids))"
begin

lemma run_refines:
  assumes "rep s S" and "\<forall>x \<in> set ops. op_ok x" and "used s + adds ops \<le> 500"
  shows "\<exists>s' outs S'. queue_run start cancel update ops s = Inr (s', outs) \<and>
    spec_run S ops outs S' \<and> rep s' S'"
  using assms
proof (induction ops arbitrary: s S)
  case Nil
  then show ?case using spec_Nil [of S] by (cases S) auto
next
  case (Cons x ops)
  show ?case
  proof (cases x)
    case (Add i t now)
    then obtain s1 where "start i t now s = Inr s1" "used s1 \<le> Suc (used s)" "rep s1 (start_spec i t now S)"
      using start_law [OF Cons.prems(1), of t now i] Cons.prems(2,3) by (auto simp: adds_def)
    with Cons.IH [of s1 "start_spec i t now S"] Cons.prems Add show ?thesis
      by (fastforce simp: adds_def intro: spec_Add)
  next
    case (Delete i)
    obtain b D where S: "S = (b, D)" by (cases S)
    then obtain s1 where "cancel i s = Inr s1" "used s1 = used s" "rep s1 (b, D(i := None))"
      using cancel_law [of s b D i] Cons.prems(1) by auto
    with Cons.IH [of s1 "(b, D(i := None))"] Cons.prems Delete S show ?thesis
      by (fastforce simp: adds_def intro: spec_Delete)
  next
    case (Elapse now)
    obtain b D where S: "S = (b, D)" by (cases S)
    then obtain s1 ids where "update now s = Inr (s1, ids)" "used s1 = used s"
      "fired D (usecs now) ids" "rep s1 (usecs now, D |` (- set ids))"
      using update_law [of s b D now] Cons.prems Elapse by auto
    with Cons.IH [of s1 "(usecs now, D |` (- set ids))"] Cons.prems Elapse S show ?thesis
      by (fastforce simp: adds_def intro: spec_Elapse)
  qed
qed

end

section \<open>The linked list is such a queue\<close>

definition rep_timers :: "timer_state \<Rightarrow> int \<times> (int \<rightharpoonup> int) \<Rightarrow> bool" where
  "rep_timers s = (\<lambda>(b, D). \<exists>ts. holds s ts \<and> tame (allocated s) ts \<and> distinct (map fst ts) \<and>
    sorted (map snd (deadlines b ts)) \<and> D = map_of (deadlines b ts) \<and>
    clock_ok (lasttime s) \<and> b = usecs (lasttime s))"

lemma dom_deadlines: "dom (map_of (deadlines b ts)) = fst ` set ts"
  unfolding dom_map_of_conv_image_fst using fst_deadlines [of b ts] by (metis set_map)

lemma elapsed_clock:
  assumes "clock_ok (lasttime s)" and "clock_ok now"
  shows "0 \<le> tv_usec (elapsed now s)" "tv_usec (elapsed now s) \<le> 1000000"
    "usecs (elapsed now s) = usecs now - usecs (lasttime s)"
proof -
  have ok: "usec_ok now" "usec_ok (lasttime s)"
    using assms by (simp_all add: clock_ok_def normal_usec_ok)
  have "elapsed now s = minus_time now (lasttime s)"
    using assms(1) by (auto simp: elapsed_def clock_ok_def usecs_def subtract_carry)
  then show "0 \<le> tv_usec (elapsed now s)" "tv_usec (elapsed now s) \<le> 1000000"
    "usecs (elapsed now s) = usecs now - usecs (lasttime s)"
    using carry_lo [OF ok] carry_hi [OF ok] minus_time_usecs [OF ok] by (simp_all add: minus_time_def)
qed

text \<open>The numbers of the timers after each operation.\<close>

lemma insert_timer_Cons:
  "insert_timer i x ((j, y) # r) =
    (if tv_sec x < tv_sec (carry x y) then (i, carry (carry x y) x) # (j, minus_time (carry x y) x) # r
     else (j, carry x y) # insert_timer i (minus_time x y) r)"
  by (simp add: insert_timer_negative insert_timer_move)

lemma insert_ids: "fst ` set (insert_timer i x ts) = insert i (fst ` set ts)"
proof (induction ts arbitrary: x)
  case (Cons a r)
  then show ?case by (cases a) (auto simp: insert_timer_Cons)
qed simp

lemma insert_distinct:
  "distinct (map fst ts) \<Longrightarrow> i \<notin> fst ` set ts \<Longrightarrow> distinct (map fst (insert_timer i x ts))"
proof (induction ts arbitrary: x)
  case (Cons a r)
  then show ?case using insert_ids [of i _ r] by (cases a) (auto simp: insert_timer_Cons)
qed simp

lemma add_timenode_refines:
  assumes "holds s ts" and "ts \<noteq> []" and "i \<notin> fst ` set ts" and "interval_ok t" and "all_ok ts"
    and "next_node fresh = Null"
  shows "\<exists>s'. add_timenode fresh now i t pnum s = Inr s' \<and> lasttime s' = lasttime s \<and>
    holds s' (insert_timer i t ts)"
proof -
  obtain as where as: "dlist (nodes s) (head s) as" "set as \<subseteq> {..<allocated s}"
    "ts = entries (nodes s) as"
    using assms(1) by (rule holdsE)
  then obtain a qs where a: "as = a # qs"
    using assms(2) by (cases as) auto
  show ?thesis
  proof (cases "tv_sec t < tv_sec (carry t (snd (entry (nodes s) a)))")
    case True
    then show ?thesis
      using add_timenode_first [of s a qs i t fresh now pnum] as a assms(3) by simp
  next
    case False
    then show ?thesis
      using add_timenode_later [of s a qs i t fresh now pnum] as a assms(3-6)
      by (simp add: interval_ok_def)
  qed
qed

lemma add_allocated:
  "add_timenode fresh now i t pnum s = Inr s' \<Longrightarrow> allocated s' = Suc (allocated s) \<or> s' = s"
  by (auto simp: add_timenode_def Let_def bindE_eq_Inr split: if_splits prod.splits)

lemma map_of_split:
  assumes "A = P @ Q" and "B = P @ (i, d) # Q" and "i \<notin> fst ` set A"
  shows "map_of B = (map_of A)(i \<mapsto> d)"
proof -
  have "map_of P i = None"
    using assms by (auto simp: map_of_eq_None_iff)
  then show ?thesis
    using assms(1,2) by (auto simp: fun_eq_iff map_add_def split: option.splits)
qed

lemma sorted_split:
  fixes d :: int
  assumes "sorted (map snd (P @ Q))" and "P \<noteq> [] \<longrightarrow> snd (last P) \<le> d" and "Q \<noteq> [] \<longrightarrow> d \<le> snd (hd Q)"
  shows "\<forall>x \<in> set P. snd x \<le> d" and "\<forall>x \<in> set Q. d \<le> snd x"
proof -
  have "snd x \<le> snd (last P)" if "x \<in> set P" for x
    using assms(1) that by (induction P) (auto simp: sorted_append)
  then show "\<forall>x \<in> set P. snd x \<le> d"
    using assms(2) by fastforce
  have "snd (hd Q) \<le> snd x" if "x \<in> set Q" for x
    using assms(1) that by (cases Q) (auto simp: sorted_append)
  then show "\<forall>x \<in> set Q. d \<le> snd x"
    using assms(3) by fastforce
qed

definition zeroed :: time_node where
  "zeroed = \<lparr>node_id = 0, delta_time = \<lparr>tv_sec = 0, tv_usec = 0\<rparr>, port_num = 0, forward = Null, next_node = Null\<rparr>"

lemma start_rep:
  assumes "rep_timers s S" and "allocated s < 500" and "interval_ok x" and "clock_ok now"
    and fresh: "next_node fresh = Null"
  shows "\<exists>s'. add_timenode fresh now i x pnum s = Inr s' \<and> allocated s' \<le> Suc (allocated s) \<and>
    rep_timers s' (start_spec i x now S)"
proof -
  obtain b D where S: "S = (b, D)" by (cases S)
  obtain ts where ts: "holds s ts" "tame (allocated s) ts" "distinct (map fst ts)"
    "sorted (map snd (deadlines b ts))" "D = map_of (deadlines b ts)"
    "clock_ok (lasttime s)" "b = usecs (lasttime s)"
    using assms(1) by (auto simp: rep_timers_def S)
  have dom: "dom D = fst ` set ts"
    using ts(5) dom_deadlines by simp
  have ok: "all_ok ts"
    using tame_ok [OF ts(2)] assms(2) by simp
  consider "i \<in> dom D" | "ts = []" | "i \<notin> dom D" "ts \<noteq> []" by blast
  then show ?thesis
  proof cases
    case 1
    then have "add_timenode fresh now i x pnum s = Inr s"
      using add_timenode_duplicate [OF ts(1)] dom by simp
    with 1 assms(1) S show ?thesis by (simp add: start_spec_def)
  next
    case 2
    then have "head s = Null"
      using ts(1) by (auto simp: holds_def dlist_def)
    then obtain s' where s': "add_timenode fresh now i x pnum s = Inr s'" "holds s' [(i, x)]" "lasttime s' = now"
      using add_timenode_empty fresh by blast
    have "allocated s' = Suc (allocated s)"
      using add_allocated [OF s'(1)] s'(2) \<open>head s = Null\<close> by (auto simp: holds_def dlist_def)
    moreover have "tame (Suc (allocated s)) [(i, x)]"
      using assms(3) by (auto simp: interval_ok_def)
    ultimately show ?thesis
      using s' 2 ts(5) assms(4) unfolding S
      by (intro exI [of _ s']) (auto simp: start_spec_def rep_timers_def intro!: exI [of _ "[(i, x)]"])
  next
    case 3
    obtain s' where s': "add_timenode fresh now i x pnum s = Inr s'" "lasttime s' = lasttime s"
      "holds s' (insert_timer i x ts)"
      using add_timenode_refines [OF ts(1) 3(2) _ assms(3) ok fresh] 3(1) dom by blast
    obtain P Q where PQ: "deadlines b ts = P @ Q" "deadlines b (insert_timer i x ts) = P @ (i, b + usecs x) # Q"
      "P \<noteq> [] \<longrightarrow> snd (last P) \<le> b + usecs x" "Q \<noteq> [] \<longrightarrow> b + usecs x \<le> snd (hd Q)"
      using insert_deadlines [OF ok, of x b i] assms(3) by (auto simp: interval_ok_def)
    have "s' \<noteq> s"
    proof
      assume "s' = s"
      then have "i \<in> fst ` set ts"
        using s'(3) ts(1) find_timenode_holds [of s _ i] insert_ids [of i x ts]
        by (metis insertI1 sum.inject(2))
      with 3(1) dom show False by simp
    qed
    then have "allocated s' = Suc (allocated s)"
      using add_allocated [OF s'(1)] by simp
    moreover have "tame (Suc (allocated s)) (insert_timer i x ts)"
      using insert_tame [OF ts(2) ok] assms(3) by (simp add: interval_ok_def)
    moreover have "sorted (map snd (deadlines b (insert_timer i x ts)))"
      using ts(4) sorted_split [of P Q "b + usecs x"] PQ by (auto simp: sorted_append)
    moreover have "map_of (deadlines b (insert_timer i x ts)) = D(i \<mapsto> b + usecs x)"
      unfolding ts(5) by (rule map_of_split [OF PQ(1,2)]) (use 3(1) ts(5) in \<open>simp add: dom_map_of_conv_image_fst\<close>)
    moreover have "D \<noteq> Map.empty"
      using 3(2) dom by auto
    ultimately show ?thesis
      using s' 3(1) dom ts(6,7) insert_distinct [OF ts(3), of i x] unfolding S
      by (intro exI [of _ s']) (auto simp: start_spec_def rep_timers_def intro!: exI [of _ "insert_timer i x ts"])
  qed
qed

lemma remove_distinct:
  assumes "distinct (map fst ts)"
  shows "distinct (map fst (remove_timer i ts))"
proof -
  have "map fst (remove_timer i ts) = map fst (filter (\<lambda>x. fst x \<noteq> i) (deadlines 0 ts))"
    using remove_deadlines [OF assms] fst_deadlines by metis
  with assms show ?thesis
    by (simp only: distinct_map_filter fst_deadlines)
qed

lemma sorted_filter_snd: "sorted (map snd xs) \<Longrightarrow> sorted (map snd (filter P xs))"
  by (rule sorted_filter)

lemma map_of_filter_other:
  "map_of (filter (\<lambda>x. fst x \<noteq> i) xs) = (map_of xs)(i := None)"
  by (induction xs) (auto simp: fun_eq_iff)

lemma cancel_rep:
  assumes "rep_timers s (b, D)"
  shows "\<exists>s'. delete_timenode i s = Inr s' \<and> allocated s' = allocated s \<and> rep_timers s' (b, D(i := None))"
proof -
  obtain ts where ts: "holds s ts" "tame (allocated s) ts" "distinct (map fst ts)"
    "sorted (map snd (deadlines b ts))" "D = map_of (deadlines b ts)"
    "clock_ok (lasttime s)" "b = usecs (lasttime s)"
    using assms by (auto simp: rep_timers_def)
  obtain s' where s': "delete_timenode i s = Inr s'" "holds s' (remove_timer i ts)"
    "lasttime s' = lasttime s" "allocated s' = allocated s"
    using delete_timenode_refines [OF ts(1)] by blast
  have "sorted (map snd (deadlines b (remove_timer i ts)))"
    unfolding remove_deadlines [OF ts(3)] using ts(4) by (rule sorted_filter_snd)
  moreover have "map_of (deadlines b (remove_timer i ts)) = D(i := None)"
    unfolding remove_deadlines [OF ts(3)] map_of_filter_other ts(5) ..
  moreover have "distinct (map fst (remove_timer i ts))"
    using ts(3) by (simp add: remove_distinct)
  ultimately show ?thesis
    using s' remove_tame [OF ts(2), of i] ts(6,7)
    by (auto simp: rep_timers_def intro!: exI [of _ "remove_timer i ts"])
qed

lemma map_of_suffix:
  assumes "A = E @ R" and "distinct (map fst A)"
  shows "map_of R = map_of A |` (- set (map fst E))"
proof
  fix i
  show "map_of R i = (map_of A |` (- set (map fst E))) i"
  proof (cases "i \<in> fst ` set E")
    case True
    then have "i \<notin> fst ` set R"
      using assms by auto
    with True show ?thesis by (simp add: map_of_eq_None_iff)
  next
    case False
    then have "map_of E i = None"
      by (simp add: map_of_eq_None_iff)
    with False assms(1) show ?thesis
      by (simp add: map_add_def)
  qed
qed

lemma fired_prefix:
  assumes "sorted (map snd (E @ R))" and "distinct (map fst (E @ R))"
    and "E \<noteq> [] \<longrightarrow> snd (last E) \<le> t" and "R \<noteq> [] \<longrightarrow> t \<le> snd (hd R)"
  shows "fired (map_of (E @ R)) t (map fst E)"
proof -
  note bounds = sorted_split [OF assms(1,3,4)]
  have D: "map_of (E @ R) (fst x) = Some (snd x)" if "x \<in> set (E @ R)" for x
    using that assms(2) by (intro map_of_is_SomeI) auto
  have eq: "map (the \<circ> map_of (E @ R)) (map fst E) = map snd E"
    using D by auto
  have "sorted (map (the \<circ> map_of (E @ R)) (map fst E))"
    unfolding eq using assms(1) by (simp add: sorted_append)
  moreover have "set (map fst E) \<subseteq> dom (map_of (E @ R))"
    using D by force
  moreover have "(d < t \<longrightarrow> i \<in> fst ` set E) \<and> (i \<in> fst ` set E \<longrightarrow> d \<le> t)"
    if "map_of (E @ R) i = Some d" for i d
  proof -
    have "(i, d) \<in> set (E @ R)"
      using that by (rule map_of_SomeD)
    moreover have "d \<le> t" if "x \<in> set E" "fst x = i" for x
      using that D [of x] bounds(1) \<open>map_of (E @ R) i = Some d\<close> by auto
    ultimately show ?thesis
      using bounds by force
  qed
  ultimately show ?thesis
    using assms(2) by (simp add: fired_def)
qed

lemma update_rep:
  assumes "rep_timers s (b, D)" and "allocated s \<le> 500" and "clock_ok now"
  shows "\<exists>s' ids. update_time_list now s = Inr (s', ids) \<and> allocated s' = allocated s \<and>
    fired D (usecs now) ids \<and> rep_timers s' (usecs now, D |` (- set ids))"
proof -
  obtain ts where ts: "holds s ts" "tame (allocated s) ts" "distinct (map fst ts)"
    "sorted (map snd (deadlines b ts))" "D = map_of (deadlines b ts)"
    "clock_ok (lasttime s)" "b = usecs (lasttime s)"
    using assms(1) by (auto simp: rep_timers_def)
  define t where "t = elapsed now s"
  have t: "0 \<le> tv_usec t" "tv_usec t \<le> 1000000" "b + usecs t = usecs now" "usec_ok t"
    using elapsed_clock [OF ts(6) assms(3)] ts(7) by (simp_all add: t_def usec_ok_def)
  have ok: "all_ok ts"
    using tame_ok [OF ts(2) assms(2)] .
  obtain s' where s': "update_time_list now s = Inr (s', fst (expire t ts))"
    "holds s' (snd (expire t ts))" "lasttime s' = now" "allocated s' = allocated s"
    using update_time_list_refines [OF ts(1), of now] ok t(4) by (auto simp: t_def)
  obtain E R where ER: "deadlines b ts = E @ R" "map fst E = fst (expire t ts)"
    "deadlines (usecs now) (snd (expire t ts)) = R"
    "E \<noteq> [] \<longrightarrow> snd (last E) \<le> usecs now" "R \<noteq> [] \<longrightarrow> usecs now \<le> snd (hd R)"
    using expire_deadlines [OF ok t(1,2), of b] t(3) by auto
  have d: "distinct (map fst (E @ R))" "sorted (map snd (E @ R))"
    using ts(3,4) unfolding ER(1) [symmetric] by simp_all
  have "fired D (usecs now) (fst (expire t ts))"
    unfolding ts(5) ER(1) ER(2) [symmetric] by (rule fired_prefix [OF d(2,1) ER(4,5)])
  moreover have "map_of R = D |` (- set (fst (expire t ts)))"
    unfolding ts(5) ER(2) [symmetric] by (rule map_of_suffix [OF ER(1)]) (simp add: ts(3))
  moreover have "distinct (map fst (snd (expire t ts)))"
    using d(1) ER(3) fst_deadlines [of "usecs now" "snd (expire t ts)"] by simp
  moreover have "sorted (map snd R)"
    using d(2) by (simp add: sorted_append)
  ultimately show ?thesis
    using s' ER(3) expire_tame [OF ts(2) ok t(1,2)] assms(3)
    by (intro exI [of _ s'] exI [of _ "fst (expire t ts)"])
      (auto simp: rep_timers_def intro!: exI [of _ "snd (expire t ts)"])
qed

lemma malloc_queue:
  assumes "\<And>k. next_node (fresh k) = Null"
  shows "timer_queue rep_timers allocated
    (\<lambda>i x now s. add_timenode (fresh (allocated s)) now i x 0 s) delete_timenode update_time_list"
proof
  show "\<exists>s'. add_timenode (fresh (allocated s)) now i x 0 s = Inr s' \<and> allocated s' \<le> Suc (allocated s) \<and>
      rep_timers s' (start_spec i x now S)"
    if "rep_timers s S" "allocated s < 500" "interval_ok x" "clock_ok now" for s S x now i
    using start_rep [OF that assms] .
qed (fact cancel_rep update_rep)+

interpretation tq: timer_queue rep_timers allocated
  "\<lambda>i x now s. add_timenode zeroed now i x 0 s" delete_timenode update_time_list
  by (rule malloc_queue) (simp add: zeroed_def)

lemma rep_empty: "head s = Null \<Longrightarrow> clock_ok (lasttime s) \<Longrightarrow> rep_timers s (usecs (lasttime s), Map.empty)"
  using holds_empty by (auto simp: rep_timers_def intro!: exI [of _ "[]"])

text \<open>
  A time that is written into a node from outside, as \<open>select\<close> may do, keeps the list a
  queue of the same timers; their deadlines may change.
\<close>

lemma sorted_deadlines:
  "sorted (map snd (deadlines b (x # ts))) \<longleftrightarrow> (\<forall>y \<in> snd ` set ts. 0 \<le> usecs y)"
proof (induction ts arbitrary: b x)
  case (Cons y ts)
  obtain i u j v where xy: "x = (i, u)" "y = (j, v)"
    by (cases x; cases y)
  have "sorted (map snd (deadlines b (x # y # ts))) \<longleftrightarrow>
      0 \<le> usecs v \<and> sorted (map snd (deadlines (b + usecs u) (y # ts)))"
    unfolding xy deadlines.simps list.map snd_conv sorted2 by simp
  then show ?case
    unfolding Cons.IH by (simp add: xy)
next
  case Nil
  then show ?case by (cases x) simp
qed

lemma set_time_sorted:
  assumes "sorted (map snd (deadlines b ts))" and "0 \<le> usecs t"
  shows "sorted (map snd (deadlines b (ts[j := (i, t)])))"
proof (cases ts)
  case (Cons x r)
  show ?thesis
  proof (cases j)
    case (Suc k)
    have "set (r[k := (i, t)]) \<subseteq> insert (i, t) (set r)"
      by (rule set_update_subset_insert)
    with assms Cons Suc show ?thesis
      by (fastforce simp: sorted_deadlines simp del: deadlines.simps)
  qed (use assms Cons in \<open>simp add: sorted_deadlines del: deadlines.simps\<close>)
qed simp

lemma set_time_tame:
  assumes "tame n ts" and "\<bar>tv_usec t\<bar> \<le> 2000000"
  shows "tame n (ts[j := (i, t)])"
  using assms
proof (induction n ts arbitrary: j rule: tame.induct)
  case (2 n k u r)
  obtain w where w: "w < n" "\<bar>tv_usec u\<bar> \<le> 2000000 * int (Suc w)" "tame (n - Suc w) r"
    using 2(2) by auto
  show ?case
  proof (cases j)
    case 0
    have "\<bar>tv_usec t\<bar> \<le> 2000000 * int (Suc w)"
      using 2(3) by simp
    with w 0 show ?thesis by auto
  next
    case (Suc l)
    with w 2(1) [OF w(3) 2(3)] show ?thesis by auto
  qed
qed simp

lemma set_time_rep:
  assumes "rep_timers s (b, D)" and "nodes s a = Some n" and "\<bar>tv_usec t\<bar> \<le> 2000000" and "0 \<le> usecs t"
  shows "\<exists>D'. rep_timers (s\<lparr>nodes := (nodes s)(a \<mapsto> n\<lparr>delta_time := t\<rparr>)\<rparr>) (b, D') \<and> dom D' = dom D"
proof -
  let ?m = "(nodes s)(a \<mapsto> n\<lparr>delta_time := t\<rparr>)"
  obtain ts where ts: "holds s ts" "tame (allocated s) ts" "distinct (map fst ts)"
    "sorted (map snd (deadlines b ts))" "D = map_of (deadlines b ts)"
    "clock_ok (lasttime s)" "b = usecs (lasttime s)"
    using assms(1) by (auto simp: rep_timers_def)
  obtain as where as: "dlist (nodes s) (head s) as" "set as \<subseteq> {..<allocated s}" "ts = entries (nodes s) as"
    using ts(1) by (rule holdsE)
  have "dlist ?m (head s) as"
    using as(1) by (rule dlist_same_links) (auto simp: same_links_def assms(2))
  then have holds: "holds (s\<lparr>nodes := ?m\<rparr>) (entries ?m as)"
    using as(2) by (intro holdsI [of _ as]) simp_all
  define us where "us = entries ?m as"
  have us: "us = ts \<or> (\<exists>j < length ts. us = ts[j := (fst (ts ! j), t)])"
  proof (cases "a \<in> set as")
    case False
    then have "us = ts"
      unfolding us_def as(3) by (intro entries_frame) auto
    then show ?thesis ..
  next
    case True
    then obtain j where j: "j < length as" "as ! j = a"
      by (auto simp: in_set_conv_nth)
    have d: "distinct as"
      using as(1) by (simp add: dlist_def)
    have "us = ts[j := (fst (ts ! j), t)]"
    proof (rule nth_equalityI)
      fix k
      assume "k < length us"
      then have "k < length as"
        by (simp add: us_def)
      with j d assms(2) show "us ! k = ts[j := (fst (ts ! j), t)] ! k"
        by (cases "k = j") (auto simp: us_def as(3) entry_def nth_eq_iff_index_eq)
    qed (simp add: us_def as(3))
    with j(1) show ?thesis by (auto simp: as(3))
  qed
  then have fst: "map fst us = map fst ts"
    by (auto simp: map_update list_update_same_conv)
  have "tame (allocated s) us" "sorted (map snd (deadlines b us))"
    using us ts(2,4) set_time_tame [OF ts(2) assms(3)] set_time_sorted [OF ts(4) assms(4)] by auto
  with holds ts fst have "rep_timers (s\<lparr>nodes := ?m\<rparr>) (b, map_of (deadlines b us))"
    unfolding us_def [symmetric] by (auto simp: rep_timers_def)
  moreover have "dom (map_of (deadlines b us)) = dom D"
    unfolding ts(5) dom_deadlines using fst by (metis list.set_map)
  ultimately show ?thesis by blast
qed

section \<open>Properties\<close>

text \<open>
  C12: For up to 500 timers started, if in every piece of memory that \<open>malloc\<close> returns the bytes
  of the next pointer are zero, whatever the others are: every sequence of starts of
  admissible intervals, cancellations and updates runs to its end without a
  fault, and the numbers that fire are those of the abstract queue: at an update all timers
  due before it and none due later, in the order of their deadlines, and once only.
  \<open>add_timenode\<close> does not set the pointer, and without the condition the operation after the first start may
  fault, see \<open>wild_next_faults\<close>.
\<close>

theorem timer_list_refines:
  assumes "\<forall>k. next_node (fresh k) = Null"
    and "head s = Null" and "clock_ok (lasttime s)" and "\<forall>x \<in> set ops. op_ok x"
    and "allocated s + adds ops \<le> 500"
  shows "\<exists>s' outs S'.
    queue_run (\<lambda>i x now s. add_timenode (fresh (allocated s)) now i x 0 s) delete_timenode update_time_list ops s =
      Inr (s', outs) \<and>
    spec_run (usecs (lasttime s), Map.empty) ops outs S' \<and> rep_timers s' S'"
  using timer_queue.run_refines [OF malloc_queue rep_empty [OF assms(2,3)] assms(4,5)] assms(1) by blast

definition idle_list :: timer_state where
  "idle_list = \<lparr>nodes = Map.empty, head = Null, allocated = 0, lasttime = \<lparr>tv_sec = 1000, tv_usec = 0\<rparr>\<rparr>"

theorem timer_list_refines_witness:
  "\<exists>s' outs S'.
    queue_run (\<lambda>i x now s. add_timenode (zeroed\<lparr>node_id := int (allocated s), forward := Wild\<rparr>) now i x 0 s)
      delete_timenode update_time_list
      [Add 7 \<lparr>tv_sec = 5, tv_usec = 600000\<rparr> \<lparr>tv_sec = 1001, tv_usec = 0\<rparr>,
       Add 8 \<lparr>tv_sec = 3, tv_usec = 700000\<rparr> \<lparr>tv_sec = 1002, tv_usec = 0\<rparr>,
       Delete 7, Elapse \<lparr>tv_sec = 1005, tv_usec = 0\<rparr>] idle_list = Inr (s', outs) \<and>
    spec_run (1000000000, Map.empty)
      [Add 7 \<lparr>tv_sec = 5, tv_usec = 600000\<rparr> \<lparr>tv_sec = 1001, tv_usec = 0\<rparr>,
       Add 8 \<lparr>tv_sec = 3, tv_usec = 700000\<rparr> \<lparr>tv_sec = 1002, tv_usec = 0\<rparr>,
       Delete 7, Elapse \<lparr>tv_sec = 1005, tv_usec = 0\<rparr>] outs S' \<and> rep_timers s' S'"
  using timer_list_refines [of "\<lambda>k. zeroed\<lparr>node_id := int k, forward := Wild\<rparr>" idle_list
      "[Add 7 \<lparr>tv_sec = 5, tv_usec = 600000\<rparr> \<lparr>tv_sec = 1001, tv_usec = 0\<rparr>,
       Add 8 \<lparr>tv_sec = 3, tv_usec = 700000\<rparr> \<lparr>tv_sec = 1002, tv_usec = 0\<rparr>,
       Delete 7, Elapse \<lparr>tv_sec = 1005, tv_usec = 0\<rparr>]"]
  by (simp add: idle_list_def zeroed_def clock_ok_def normal_def usecs_def interval_ok_def adds_def)

text \<open>
  C24: On a list that hangs together the loops of \<open>find_timenode\<close>, \<open>print_time_list\<close>,
  \<open>delete_timenode\<close> and \<open>update_time_list\<close> end after at most one pass for each node and one
  more, whatever number is sought and whatever time has passed.
\<close>

theorem list_walks_end:
  assumes "holds s ts" and "length ts < fuel" and "all_ok ts" and "usec_ok t"
  shows "(\<exists>r. find_timenode fuel (nodes s) (head s) i = Inr r) \<and>
    (\<exists>m. print_time_list fuel (nodes s) (head s) = Inr m) \<and>
    (ts \<noteq> [] \<and> fst (hd ts) \<noteq> i \<longrightarrow> (\<exists>m. delete_loop fuel (nodes s) (head s) i = Inr m)) \<and>
    (\<exists>r. expire_loop fuel (nodes s) (head s) t = Inr r)"
proof -
  obtain as where as: "dlist (nodes s) (head s) as" "ts = entries (nodes s) as"
    using assms(1) by (rule holdsE)
  then have seg: "seg (nodes s) None (head s) as Null" "distinct as" "length as < fuel"
    using assms(2) by (simp_all add: dlist_def)
  have "\<exists>m. delete_loop fuel (nodes s) (head s) i = Inr m" if "ts \<noteq> []" "fst (hd ts) \<noteq> i"
    using delete_loop_refines [of "nodes s" "head s" "[]" as i None "head s" fuel] as seg that
    by (cases as) auto
  moreover have "\<exists>r. expire_loop fuel (nodes s) (head s) t = Inr r"
    using expire_loop_refines [OF seg assms(4)] assms(3) as(2) by fastforce
  ultimately show ?thesis
    using find_timenode_seg [OF seg(1,3), of i] print_time_list_refines [OF seg] by auto
qed

definition two_timers :: timer_state where
  "two_timers = \<lparr>nodes = [0 \<mapsto> zeroed\<lparr>node_id := 5, next_node := At 1\<rparr>, 1 \<mapsto> zeroed\<lparr>node_id := 6, forward := At 0\<rparr>],
    head = At 0, allocated = 2, lasttime = \<lparr>tv_sec = 1, tv_usec = 0\<rparr>\<rparr>"

theorem list_walks_end_witness:
  "(\<exists>r. find_timenode 3 (nodes two_timers) (head two_timers) 9 = Inr r) \<and>
    (\<exists>m. print_time_list 3 (nodes two_timers) (head two_timers) = Inr m) \<and>
    (\<exists>m. delete_loop 3 (nodes two_timers) (head two_timers) 9 = Inr m) \<and>
    (\<exists>r. expire_loop 3 (nodes two_timers) (head two_timers) \<lparr>tv_sec = 2, tv_usec = 0\<rparr> = Inr r)"
proof -
  let ?ts = "[(5, \<lparr>tv_sec = 0, tv_usec = 0\<rparr>), (6, \<lparr>tv_sec = 0, tv_usec = 0\<rparr>)]"
  have "holds two_timers ?ts"
    by (rule holdsI [of _ "[0, 1]"]) (auto simp: two_timers_def dlist_def entry_def zeroed_def)
  then show ?thesis
    using list_walks_end [of two_timers ?ts 3 "\<lparr>tv_sec = 2, tv_usec = 0\<rparr>" 9] by (simp add: usec_ok_def)
qed

text \<open>
  \<open>add_timenode\<close> does not set the pointers of a node: when \<open>malloc\<close> returns memory
  that is not zero, starting or cancelling any other timer reads through a wild pointer.
\<close>

theorem wild_next_faults:
  assumes "head s = Null" and "next_node fresh = Wild" and "i \<noteq> j"
  shows "\<exists>s'. add_timenode fresh now i t pnum s = Inr s' \<and>
    add_timenode fresh' now' j t' pnum' s' = Inl OutOfBounds \<and> delete_timenode j s' = Inl OutOfBounds"
proof -
  have "find_timenode (Suc n) m Null k = Inr False" for n m k
    by (simp add: find_timenode.simps)
  moreover have "find_timenode (Suc (Suc n)) m (At a) k = Inl OutOfBounds"
    if "m a = Some x" "next_node x = Wild" "node_id x \<noteq> k" for n m a k x
    using that by (simp add: find_timenode.simps)
  ultimately show ?thesis
    using assms by (simp add: add_timenode_def delete_timenode_def Let_def)
qed

theorem wild_next_faults_witness:
  "\<exists>s'. add_timenode (zeroed\<lparr>next_node := Wild\<rparr>) \<lparr>tv_sec = 1000, tv_usec = 0\<rparr> 1 \<lparr>tv_sec = 1, tv_usec = 0\<rparr> 0 idle_list = Inr s' \<and>
    add_timenode zeroed \<lparr>tv_sec = 1000, tv_usec = 5\<rparr> 2 \<lparr>tv_sec = 1, tv_usec = 0\<rparr> 0 s' = Inl OutOfBounds \<and>
    delete_timenode 2 s' = Inl OutOfBounds"
  by (rule wild_next_faults) (simp_all add: idle_list_def)

end
