(* ===== verification/TimerProcess.thy ===== *)
theory TimerProcess
  imports TimerQueue Messages
begin

text \<open>
  The timer process of \<open>client()\<close> in \<open>project1/tcpd.c\<close>: a loop around \<open>select\<close> on the pipe
  from the driver. Its timeout \<open>timeout1\<close> is a pointer into the list: to the time of the node
  that was the head when the last timer was started, null before the first and after a
  timeout that leaves no timer. \<open>select\<close> reads that time when it is called, does not return
  without a message before it is over, and never if the pointer is null; it fails if the time
  is negative. On Linux it also writes the time not slept back through the pointer: what it
  writes, if anything, is an argument of the step. So are the conversion of the eight bytes of
  a \<open>double\<close> to a \<open>timeval\<close> and the content of new memory.
\<close>

section \<open>The code\<close>

text \<open>\<open>since\<close> is the clock when \<open>select\<close> was called; the program has no such variable.\<close>

record timer_proc =
  timer_list :: timer_state
  timeout1 :: ptr
  since :: timeval

datatype select_result =
    TimedOut
  | SelectFailed
  | Readable "byte list"

text \<open>The timeout of \<open>select\<close>, and the times it refuses with \<open>EINVAL\<close>.\<close>

definition waiting :: "timer_proc \<Rightarrow> fault + timeval option" where
  "waiting p =
    bindE (is_null (timeout1 p)) (\<lambda>null.
    if null then Inr None
    else bindE (deref (nodes (timer_list p)) (timeout1 p)) (\<lambda>n. Inr (Some (delta_time n))))"

definition refused :: "timeval \<Rightarrow> bool" where
  "refused t \<longleftrightarrow> tv_sec t < 0 \<or> tv_usec t < 0"

definition select_writes :: "timeval option \<Rightarrow> timer_proc \<Rightarrow> fault + timer_proc" where
  "select_writes left p =
    (case left of
       None \<Rightarrow> Inr p
     | Some t \<Rightarrow>
         bindE (is_null (timeout1 p)) (\<lambda>null.
         if null then Inr p
         else bindE (update_node (nodes (timer_list p)) (timeout1 p) (\<lambda>n. n\<lparr>delta_time := t\<rparr>)) (\<lambda>m.
              Inr (p\<lparr>timer_list := (timer_list p)\<lparr>nodes := m\<rparr>\<rparr>))))"

text \<open>
  \<open>select\<close> at time \<open>now\<close>, when it would return with \<open>result\<close>: \<open>Waits\<close> if it cannot have
  returned so.
\<close>

definition select ::
  "timeval \<Rightarrow> timeval option \<Rightarrow> select_result \<Rightarrow> timer_proc \<Rightarrow> fault + (select_result \<times> timer_proc)"
where
  "select now left result p =
    bindE (waiting p) (\<lambda>timeout.
    case timeout of
      None \<Rightarrow> if result = TimedOut then Inl Waits else Inr (result, p)
    | Some t \<Rightarrow>
        if refused t then Inr (SelectFailed, p)
        else if result = TimedOut \<and> usecs now < usecs (since p) + usecs t then Inl Waits
        else bindE (select_writes left p) (\<lambda>p. Inr (result, p)))"

text \<open>The rest of an iteration: the new state, the requests written to the driver, whether to go on.\<close>

definition timer_event ::
  "(byte list \<Rightarrow> timeval) \<Rightarrow> time_node \<Rightarrow> timeval \<Rightarrow> select_result \<Rightarrow> timer_proc \<Rightarrow>
    fault + (timer_proc \<times> byte list list \<times> bool)"
where
  "timer_event interval_of fresh now result p =
    (case result of
      TimedOut \<Rightarrow>
        bindE (update_time_list now (timer_list p)) (\<lambda>(s, ids).
        bindE (is_null (head s)) (\<lambda>null.
        Inr (p\<lparr>timer_list := s, timeout1 := (if null then Null else timeout1 p), since := now\<rparr>,
             map resend_message ids, True)))
    | SelectFailed \<Rightarrow> Inl (Exit 1)
    | Readable bufin \<Rightarrow>
        (case decode_request bufin of
           Stop \<Rightarrow> Inr (p, [], False)
         | Start ident time_interval \<Rightarrow>
             bindE (add_timenode fresh now ident (interval_of time_interval) 0 (timer_list p)) (\<lambda>s.
             Inr (p\<lparr>timer_list := s, timeout1 := head s, since := now\<rparr>, [], True))
         | Cancel ident \<Rightarrow>
             bindE (delete_timenode ident (timer_list p)) (\<lambda>s.
             Inr (p\<lparr>timer_list := s, since := now\<rparr>, [], True))
         | Ignored \<Rightarrow> Inr (p\<lparr>since := now\<rparr>, [], True)))"

definition timer_step ::
  "(byte list \<Rightarrow> timeval) \<Rightarrow> time_node \<Rightarrow> timeval \<Rightarrow> timeval option \<Rightarrow> select_result \<Rightarrow> timer_proc \<Rightarrow>
    fault + (timer_proc \<times> byte list list \<times> bool)"
where
  "timer_step interval_of fresh now left result p =
    bindE (select now left result p) (\<lambda>(result, p). timer_event interval_of fresh now result p)"

definition timer_init :: "timeval \<Rightarrow> timer_proc" where
  "timer_init now =
    \<lparr>timer_list = \<lparr>nodes = Map.empty, head = Null, allocated = 0, lasttime = now\<rparr>, timeout1 = Null, since = now\<rparr>"

fun timer_run ::
  "(byte list \<Rightarrow> timeval) \<Rightarrow> time_node \<Rightarrow> (timeval \<times> timeval option \<times> select_result) list \<Rightarrow> timer_proc \<Rightarrow>
    fault + (timer_proc \<times> byte list list)"
where
  "timer_run interval_of fresh [] p = Inr (p, [])"
| "timer_run interval_of fresh ((now, left, result) # es) p =
    bindE (timer_step interval_of fresh now left result p) (\<lambda>(p, out, go).
    if go then bindE (timer_run interval_of fresh es p) (\<lambda>(p, outs). Inr (p, out @ outs))
    else Inr (p, out))"

section \<open>The operations that events stand for\<close>

fun event_ops :: "(byte list \<Rightarrow> timeval) \<Rightarrow> timeval \<times> timeval option \<times> select_result \<Rightarrow> timer_op list" where
  "event_ops interval_of (now, left, TimedOut) = [Elapse now]"
| "event_ops interval_of (now, left, SelectFailed) = []"
| "event_ops interval_of (now, left, Readable buf) =
    (case decode_request buf of
       Start i t \<Rightarrow> [Add i (interval_of t) now]
     | Cancel i \<Rightarrow> [Delete i]
     | _ \<Rightarrow> [])"

definition no_stop :: "timeval \<times> timeval option \<times> select_result \<Rightarrow> bool" where
  "no_stop e \<longleftrightarrow> (case snd (snd e) of TimedOut \<Rightarrow> True | SelectFailed \<Rightarrow> False | Readable buf \<Rightarrow> decode_request buf \<noteq> Stop)"

lemma rep_head:
  assumes "rep_timers s S"
  shows "\<exists>null. is_null (head s) = Inr null"
proof -
  obtain as where "seg (nodes s) None (head s) as Null"
    using assms by (auto simp: rep_timers_def holds_def dlist_def)
  then show ?thesis
    by (cases as) auto
qed

lemma rep_head_null:
  assumes "rep_timers s (b, D)"
  shows "head s = Null \<longleftrightarrow> D = Map.empty" "D \<noteq> Map.empty \<Longrightarrow> \<exists>a \<in> dom (nodes s). head s = At a"
proof -
  obtain ts where ts: "holds s ts" and D: "D = map_of (deadlines b ts)"
    using assms by (auto simp: rep_timers_def)
  obtain as where as: "dlist (nodes s) (head s) as" "ts = entries (nodes s) as"
    using ts by (rule holdsE)
  have "dom D = {} \<longleftrightarrow> as = []"
    unfolding D dom_deadlines as(2) by simp
  then have empty: "D = Map.empty \<longleftrightarrow> as = []"
    by simp
  have seg: "seg (nodes s) None (head s) as Null"
    using as(1) by (simp add: dlist_def)
  then show "head s = Null \<longleftrightarrow> D = Map.empty"
    unfolding empty by (cases as) auto
  show "\<exists>a \<in> dom (nodes s). head s = At a" if "D \<noteq> Map.empty"
    using that seg unfolding empty by (cases as) auto
qed

section \<open>The timeout of select\<close>

text \<open>
  The pointer is null only when there is no timer, and never dangles: nodes are not freed. It
  may point to a node that is not the head any more, or has left the list.
\<close>

definition pointed :: "timer_proc \<Rightarrow> bool" where
  "pointed p \<longleftrightarrow>
    (timeout1 p = Null \<and> head (timer_list p) = Null) \<or> (\<exists>a \<in> dom (nodes (timer_list p)). timeout1 p = At a)"

definition accepted :: "timer_proc \<Rightarrow> bool" where
  "accepted p \<longleftrightarrow> (\<forall>t. waiting p = Inr (Some t) \<longrightarrow> \<not> refused t)"

text \<open>What can be the result of \<open>select\<close> at a time.\<close>

definition returns :: "timeval \<Rightarrow> select_result \<Rightarrow> timer_proc \<Rightarrow> bool" where
  "returns now result p \<longleftrightarrow>
    (result = TimedOut \<longrightarrow> (\<exists>t. waiting p = Inr (Some t) \<and> usecs (since p) + usecs t \<le> usecs now))"

text \<open>The time that \<open>select\<close> writes back, if it does, is a time.\<close>

definition remaining_ok :: "timeval option \<Rightarrow> bool" where
  "remaining_ok left \<longleftrightarrow> (\<forall>t. left = Some t \<longrightarrow> normal t \<and> 0 \<le> tv_sec t)"

lemma remaining_ok_None [simp]: "remaining_ok None"
  by (simp add: remaining_ok_def)

lemma waiting_pointed:
  assumes "pointed p"
  shows "\<exists>t. waiting p = Inr t \<and> (t = None \<longleftrightarrow> timeout1 p = Null)"
  using assms by (auto simp: pointed_def waiting_def)

lemma select_stops:
  assumes "pointed p" and "\<not> (accepted p \<and> returns now result p)"
  shows "select now left result p = Inl Waits \<or> select now left result p = Inr (SelectFailed, p)"
  using waiting_pointed [OF assms(1)] assms(2)
  by (auto simp: select_def accepted_def returns_def split: option.splits)

lemma select_returns:
  assumes rep: "rep_timers (timer_list p) (b, D)" and pt: "pointed p" and acc: "accepted p"
    and ret: "returns now result p" and left: "remaining_ok left"
  shows "\<exists>p' D'. select now left result p = Inr (result, p') \<and> (left = None \<longrightarrow> p' = p \<and> D' = D) \<and>
    rep_timers (timer_list p') (b, D') \<and> dom D' = dom D \<and> pointed p' \<and>
    allocated (timer_list p') = allocated (timer_list p)"
proof -
  obtain t where t: "waiting p = Inr t" "t = None \<longleftrightarrow> timeout1 p = Null"
    using waiting_pointed [OF pt] by blast
  show ?thesis
  proof (cases t)
    case None
    then have "select now left result p = Inr (result, p)"
      using t ret by (auto simp: select_def returns_def)
    with rep pt show ?thesis by blast
  next
    case (Some x)
    then have sel: "select now left result p = bindE (select_writes left p) (\<lambda>p. Inr (result, p))"
      using t acc ret by (auto simp: select_def accepted_def returns_def)
    show ?thesis
    proof (cases left)
      case None
      with sel rep pt show ?thesis
        by (intro exI [of _ p] exI [of _ D]) (simp add: select_writes_def)
    next
      case (Some y)
      obtain a n where a: "timeout1 p = At a" "nodes (timer_list p) a = Some n"
        using pt t(2) \<open>t = Some x\<close> by (auto simp: pointed_def)
      have y: "\<bar>tv_usec y\<bar> \<le> 2000000" "0 \<le> usecs y"
        using left Some by (auto simp: remaining_ok_def normal_def usecs_def)
      define q where "q = p\<lparr>timer_list := (timer_list p)\<lparr>nodes := (nodes (timer_list p))(a \<mapsto> n\<lparr>delta_time := y\<rparr>)\<rparr>\<rparr>"
      obtain D' where D': "rep_timers (timer_list q) (b, D')" "dom D' = dom D"
        using set_time_rep [OF rep a(2) y] by (auto simp: q_def)
      have "select now left result p = Inr (result, q)"
        using sel Some a by (simp add: select_writes_def q_def)
      moreover have "pointed q"
        using a(1) by (auto simp: pointed_def q_def)
      ultimately show ?thesis
        using D' Some by (intro exI [of _ q] exI [of _ D']) (simp add: q_def)
    qed
  qed
qed

section \<open>The branches of an iteration\<close>

lemma event_timeout:
  assumes rep: "rep_timers (timer_list p) (b, D)" and pt: "pointed p" and now: "clock_ok now"
    and "allocated (timer_list p) \<le> 500"
  shows "\<exists>p1 ids. timer_event interval_of fresh now TimedOut p = Inr (p1, map resend_message ids, True) \<and>
    fired D (usecs now) ids \<and> rep_timers (timer_list p1) (usecs now, D |` (- set ids)) \<and> pointed p1 \<and>
    allocated (timer_list p1) = allocated (timer_list p)"
proof -
  obtain s1 ids where u: "update_time_list now (timer_list p) = Inr (s1, ids)"
    "allocated s1 = allocated (timer_list p)" "fired D (usecs now) ids"
    "rep_timers s1 (usecs now, D |` (- set ids))"
    using update_rep [OF rep assms(4) now] by blast
  obtain null where null: "is_null (head s1) = Inr null"
    using rep_head [OF u(4)] ..
  let ?p1 = "p\<lparr>timer_list := s1, timeout1 := (if null then Null else timeout1 p), since := now\<rparr>"
  have "pointed ?p1"
  proof (cases "timeout1 p = Null")
    case True
    then have "D = Map.empty"
      using pt rep_head_null(1) [OF rep] by (auto simp: pointed_def)
    with rep_head_null(1) [OF u(4)] True show ?thesis
      by (simp add: pointed_def)
  next
    case False
    then obtain a where "a \<in> dom (nodes s1)" "timeout1 p = At a"
      using pt update_time_list_dom [OF u(1)] by (auto simp: pointed_def)
    with null show ?thesis
      by (cases "head s1") (auto simp: pointed_def)
  qed
  with u null show ?thesis
    by (intro exI [of _ ?p1] exI [of _ ids]) (simp add: timer_event_def)
qed

lemma start_spec_runs: "i \<in> dom (snd (start_spec i x now S))"
  by (cases S) (auto simp: start_spec_def)

lemma event_start:
  assumes rep: "rep_timers (timer_list p) S" and now: "clock_ok now" and "allocated (timer_list p) < 500"
    and buf: "decode_request buf = Start i t" and "interval_ok (interval_of t)" and "next_node fresh = Null"
  shows "\<exists>p1. timer_event interval_of fresh now (Readable buf) p = Inr (p1, [], True) \<and>
    rep_timers (timer_list p1) (start_spec i (interval_of t) now S) \<and> pointed p1 \<and>
    allocated (timer_list p1) \<le> Suc (allocated (timer_list p))"
proof -
  obtain s1 where u: "add_timenode fresh now i (interval_of t) 0 (timer_list p) = Inr s1"
    "allocated s1 \<le> Suc (allocated (timer_list p))" "rep_timers s1 (start_spec i (interval_of t) now S)"
    using start_rep [OF rep assms(3,5) now assms(6)] by blast
  obtain b D where S: "start_spec i (interval_of t) now S = (b, D)" "D \<noteq> Map.empty"
    using start_spec_runs [of i "interval_of t" now S] by (metis domIff prod.collapse)
  let ?p1 = "p\<lparr>timer_list := s1, timeout1 := head s1, since := now\<rparr>"
  have "pointed ?p1"
    using rep_head_null(2) [OF u(3) [unfolded S(1)] S(2)] by (simp add: pointed_def)
  with u buf show ?thesis
    by (intro exI [of _ ?p1]) (simp add: timer_event_def)
qed

lemma event_cancel:
  assumes rep: "rep_timers (timer_list p) (b, D)" and pt: "pointed p" and buf: "decode_request buf = Cancel i"
  shows "\<exists>p1. timer_event interval_of fresh now (Readable buf) p = Inr (p1, [], True) \<and>
    rep_timers (timer_list p1) (b, D(i := None)) \<and> pointed p1 \<and>
    allocated (timer_list p1) = allocated (timer_list p)"
proof -
  obtain s1 where u: "delete_timenode i (timer_list p) = Inr s1"
    "allocated s1 = allocated (timer_list p)" "rep_timers s1 (b, D(i := None))"
    using cancel_rep [OF rep] by blast
  let ?p1 = "p\<lparr>timer_list := s1, since := now\<rparr>"
  have "head s1 = Null" if "head (timer_list p) = Null"
    using that rep_head_null(1) [OF rep] rep_head_null(1) [OF u(3)] by auto
  then have "pointed ?p1"
    using pt delete_timenode_dom [OF u(1)] by (auto simp: pointed_def)
  with u buf show ?thesis
    by (intro exI [of _ ?p1]) (simp add: timer_event_def)
qed

text \<open>
  As long as \<open>select\<close> leaves its argument alone, the process does to the list what the
  messages say, and writes a request for each timer that fires.
\<close>

lemma timer_step_refines:
  assumes rep: "rep_timers (timer_list p) S" and pt: "pointed p" and "no_stop (now, None, r)"
    and ok: "\<forall>x \<in> set (event_ops interval_of (now, None, r)). op_ok x" and fresh: "next_node fresh = Null"
    and alloc: "allocated (timer_list p) + adds (event_ops interval_of (now, None, r)) \<le> 500"
    and step: "timer_step interval_of fresh now None r p \<notin> {Inl Waits, Inl (Exit 1)}"
  shows "\<exists>p1 ids S1. timer_step interval_of fresh now None r p = Inr (p1, map resend_message ids, True) \<and>
    rep_timers (timer_list p1) S1 \<and> pointed p1 \<and>
    allocated (timer_list p1) \<le> allocated (timer_list p) + adds (event_ops interval_of (now, None, r)) \<and>
    (\<forall>ops outs S'. spec_run S1 ops outs S' \<longrightarrow>
      (\<exists>outs'. spec_run S (event_ops interval_of (now, None, r) @ ops) outs' S' \<and> concat outs' = ids @ concat outs))"
proof -
  obtain b D where S: "S = (b, D)" by (cases S)
  have "accepted p \<and> returns now r p"
  proof (rule ccontr)
    assume "\<not> (accepted p \<and> returns now r p)"
    from select_stops [OF pt this, of None] step show False
      by (auto simp: timer_step_def timer_event_def)
  qed
  then have "select now None r p = Inr (r, p)"
    using select_returns [OF rep [unfolded S] pt, of now r None] by auto
  then have st: "timer_step interval_of fresh now None r p = timer_event interval_of fresh now r p"
    by (simp add: timer_step_def)
  show ?thesis
  proof (cases r)
    case TimedOut
    with event_timeout [OF rep [unfolded S] pt, of now interval_of fresh] ok alloc obtain p1 ids where
      "timer_event interval_of fresh now r p = Inr (p1, map resend_message ids, True)" "fired D (usecs now) ids"
      "rep_timers (timer_list p1) (usecs now, D |` (- set ids))" "pointed p1"
      "allocated (timer_list p1) = allocated (timer_list p)"
      by (auto simp: adds_def)
    note p1 = this
    have "\<exists>outs'. spec_run S (event_ops interval_of (now, None, r) @ ops) outs' S' \<and> concat outs' = ids @ concat outs"
      if "spec_run (usecs now, D |` (- set ids)) ops outs S'" for ops outs S'
      using spec_Elapse [OF p1(2) that, of b] TimedOut S by (intro exI [of _ "ids # outs"]) simp
    with p1 st show ?thesis
      by (intro exI [of _ p1] exI [of _ ids] exI [of _ "(usecs now, D |` (- set ids))"]) simp
  next
    case SelectFailed
    then show ?thesis
      using assms(3) by (simp add: no_stop_def)
  next
    case (Readable buf)
    show ?thesis
    proof (cases "decode_request buf")
      case Stop
      then show ?thesis
        using assms(3) Readable by (simp add: no_stop_def)
    next
      case (Start i t)
      have "clock_ok now" "allocated (timer_list p) < 500" "interval_ok (interval_of t)"
        using ok alloc Readable Start by (simp_all add: adds_def)
      from event_start [where interval_of = interval_of, OF rep this(1,2) Start this(3) fresh] Readable
      obtain p1 where "timer_event interval_of fresh now r p = Inr (p1, [], True)"
        "rep_timers (timer_list p1) (start_spec i (interval_of t) now S)" "pointed p1"
        "allocated (timer_list p1) \<le> Suc (allocated (timer_list p))"
        by blast
      note p1 = this
      have "\<exists>outs'. spec_run S (event_ops interval_of (now, None, r) @ ops) outs' S' \<and> concat outs' = [] @ concat outs"
        if "spec_run (start_spec i (interval_of t) now S) ops outs S'" for ops outs S'
        using spec_Add [OF that] Start Readable by (intro exI [of _ "[] # outs"]) simp
      with p1 Start Readable st show ?thesis
        by (intro exI [of _ p1] exI [of _ "[]"] exI [of _ "start_spec i (interval_of t) now S"]) (simp add: adds_def)
    next
      case (Cancel i)
      obtain p1 where "timer_event interval_of fresh now r p = Inr (p1, [], True)"
        "rep_timers (timer_list p1) (b, D(i := None))" "pointed p1"
        "allocated (timer_list p1) = allocated (timer_list p)"
        using event_cancel [OF rep [unfolded S] pt Cancel, of interval_of fresh now] Readable by auto
      note p1 = this
      have "\<exists>outs'. spec_run S (event_ops interval_of (now, None, r) @ ops) outs' S' \<and> concat outs' = [] @ concat outs"
        if "spec_run (b, D(i := None)) ops outs S'" for ops outs S'
        using spec_Delete [OF that] Cancel Readable S by (intro exI [of _ "[] # outs"]) simp
      with p1 Cancel Readable st show ?thesis
        by (intro exI [of _ p1] exI [of _ "[]"] exI [of _ "(b, D(i := None))"]) (simp add: adds_def)
    next
      case Ignored
      with rep pt Readable st show ?thesis
        by (intro exI [of _ "p\<lparr>since := now\<rparr>"] exI [of _ "[]"] exI [of _ S])
          (auto simp: timer_event_def adds_def pointed_def)
    qed
  qed
qed

lemma adds_append [simp]: "adds (xs @ ys) = adds xs + adds ys"
  by (simp add: adds_def)

lemma timer_run_refines:
  assumes "\<forall>(now, left, r) \<in> set es. left = None" and "\<forall>e \<in> set es. no_stop e" and "next_node fresh = Null"
    and "rep_timers (timer_list p) S" and "pointed p"
    and "\<forall>x \<in> set (concat (map (event_ops interval_of) es)). op_ok x"
    and "allocated (timer_list p) + adds (concat (map (event_ops interval_of) es)) \<le> 500"
    and "timer_run interval_of fresh es p \<notin> {Inl Waits, Inl (Exit 1)}"
  shows "\<exists>p' outs S'. timer_run interval_of fresh es p = Inr (p', map resend_message (concat outs)) \<and>
    spec_run S (concat (map (event_ops interval_of) es)) outs S' \<and> rep_timers (timer_list p') S' \<and> pointed p' \<and>
    allocated (timer_list p') \<le> 500"
  using assms
proof (induction es arbitrary: p S)
  case Nil
  then show ?case
    using spec_Nil [of S] by (cases S) (auto intro!: exI [of _ "[]"])
next
  case (Cons e es)
  obtain now r where e: "e = (now, None, r)"
    using Cons.prems(1) by (cases e) auto
  have "timer_step interval_of fresh now None r p \<notin> {Inl Waits, Inl (Exit 1)}"
    using Cons.prems(8) by (auto simp: e)
  then obtain p1 ids S1 where
    1: "timer_step interval_of fresh now None r p = Inr (p1, map resend_message ids, True)"
      "rep_timers (timer_list p1) S1" "pointed p1"
      "allocated (timer_list p1) \<le> allocated (timer_list p) + adds (event_ops interval_of e)"
      "\<And>ops outs S'. spec_run S1 ops outs S' \<Longrightarrow>
        \<exists>outs'. spec_run S (event_ops interval_of e @ ops) outs' S' \<and> concat outs' = ids @ concat outs"
    using timer_step_refines [OF Cons.prems(4,5), of now r interval_of fresh] Cons.prems(2,3,6,7)
    by (auto simp: e)
  have "timer_run interval_of fresh es p1 \<notin> {Inl Waits, Inl (Exit 1)}"
    using Cons.prems(8) 1(1) by (auto simp: e)
  then obtain p' outs S' where
    2: "timer_run interval_of fresh es p1 = Inr (p', map resend_message (concat outs))"
      "spec_run S1 (concat (map (event_ops interval_of) es)) outs S'" "rep_timers (timer_list p') S'" "pointed p'"
      "allocated (timer_list p') \<le> 500"
    using Cons.IH [OF _ _ Cons.prems(3) 1(2,3)] Cons.prems(1,2,6,7) 1(4) by auto
  obtain outs' where "spec_run S (event_ops interval_of e @ concat (map (event_ops interval_of) es)) outs' S'"
    "concat outs' = ids @ concat outs"
    using 1(5) [OF 2(2)] by blast
  with 1(1) 2 show ?case
    by (intro exI [of _ p'] exI [of _ outs'] exI [of _ S']) (simp add: e)
qed

text \<open>
  While a timer runs, \<open>select\<close> has a timeout, and when it is over the timers that are due are
  taken off and asked for.
\<close>

lemma timer_armed:
  assumes rep: "rep_timers (timer_list p) (b, D)" and pt: "pointed p" and "D \<noteq> Map.empty"
    and "allocated (timer_list p) \<le> 500"
  shows "\<exists>t. waiting p = Inr (Some t) \<and>
    (\<not> refused t \<longrightarrow> (\<forall>now. clock_ok now \<and> usecs (since p) + usecs t \<le> usecs now \<longrightarrow>
      (\<exists>p' ids. timer_step interval_of fresh now None TimedOut p = Inr (p', map resend_message ids, True) \<and>
        fired D (usecs now) ids)))"
proof -
  obtain t where t: "waiting p = Inr (Some t)"
    using waiting_pointed [OF pt] pt rep_head_null(1) [OF rep] assms(3) by (auto simp: pointed_def)
  have "\<exists>p' ids. timer_step interval_of fresh now None TimedOut p = Inr (p', map resend_message ids, True) \<and>
      fired D (usecs now) ids"
    if "\<not> refused t" "clock_ok now" "usecs (since p) + usecs t \<le> usecs now" for now
  proof -
    have "accepted p" "returns now TimedOut p"
      using that t by (simp_all add: accepted_def returns_def)
    then have "select now None TimedOut p = Inr (TimedOut, p)"
      using select_returns [OF rep pt, of now TimedOut None] by auto
    with event_timeout [OF rep pt that(2) assms(4), of interval_of fresh] show ?thesis
      by (auto simp: timer_step_def)
  qed
  with t show ?thesis by blast
qed

section \<open>Properties\<close>

text \<open>
  C13: From its start and for up to 500 timers, if \<open>select\<close> leaves its timeout argument alone and
  new memory has a null \<open>next\<close>, the resend requests that the timer process writes are those of
  the timers that the abstract queue lets fire, for every sequence of messages and timeouts that
  can happen: either one of the timeouts comes too early to be possible (\<open>Waits\<close>), or
  \<open>select\<close> refuses a negative time and the process exits, or the process runs. And while
  timers run it is armed: \<open>select\<close> has a timeout, and when that is over, if it is not negative, the
  timers of the queue that are due are asked for.
\<close>

theorem timer_process_refines:
  assumes "clock_ok start_time" and "\<forall>(now, left, r) \<in> set es. left = None" and "\<forall>e \<in> set es. no_stop e"
    and "\<forall>x \<in> set (concat (map (event_ops interval_of) es)). op_ok x"
    and "adds (concat (map (event_ops interval_of) es)) \<le> 500" and "next_node fresh = Null"
  shows "timer_run interval_of fresh es (timer_init start_time) \<in> {Inl Waits, Inl (Exit 1)} \<or>
    (\<exists>p outs b D.
      timer_run interval_of fresh es (timer_init start_time) = Inr (p, map resend_message (concat outs)) \<and>
      spec_run (usecs start_time, Map.empty) (concat (map (event_ops interval_of) es)) outs (b, D) \<and>
      rep_timers (timer_list p) (b, D) \<and>
      (D \<noteq> Map.empty \<longrightarrow> (\<exists>t. waiting p = Inr (Some t) \<and>
        (\<not> refused t \<longrightarrow> (\<forall>now. clock_ok now \<and> usecs (since p) + usecs t \<le> usecs now \<longrightarrow>
          (\<exists>p' ids. timer_step interval_of fresh now None TimedOut p = Inr (p', map resend_message ids, True) \<and>
            fired D (usecs now) ids))))))"
proof (cases "timer_run interval_of fresh es (timer_init start_time) \<in> {Inl Waits, Inl (Exit 1)}")
  case False
  have "rep_timers (timer_list (timer_init start_time)) (usecs start_time, Map.empty)" "pointed (timer_init start_time)"
    using rep_empty [of "timer_list (timer_init start_time)"] assms(1)
    by (simp_all add: timer_init_def pointed_def)
  from timer_run_refines [OF assms(2,3,6) this assms(4) _ False] assms(5) obtain p outs b D where
    p: "timer_run interval_of fresh es (timer_init start_time) = Inr (p, map resend_message (concat outs))"
      "spec_run (usecs start_time, Map.empty) (concat (map (event_ops interval_of) es)) outs (b, D)"
      "rep_timers (timer_list p) (b, D)" "pointed p" "allocated (timer_list p) \<le> 500"
    by (auto simp: timer_init_def)
  with timer_armed [OF p(3,4) _ p(5), where fresh = fresh and interval_of = interval_of] show ?thesis
    by (intro disjI2 exI [of _ p] exI [of _ outs] exI [of _ b] exI [of _ D]) simp
qed simp

text \<open>A conversion for concrete runs: whole seconds in the first byte.\<close>

definition seconds :: "byte list \<Rightarrow> timeval" where
  "seconds t = \<lparr>tv_sec = uint (hd t), tv_usec = 0\<rparr>"

definition wait_for :: "nat \<Rightarrow> byte list" where
  "wait_for n = word_of_nat n # replicate 7 0"

abbreviation at_time :: "int \<Rightarrow> timeval" where
  "at_time n \<equiv> \<lparr>tv_sec = n, tv_usec = 0\<rparr>"

lemma decode_wait: "is_int32 i \<Longrightarrow> decode_request (starttimer (wait_for n) i) = Start i (wait_for n)"
  by (simp add: decode_starttimer wait_for_def)

lemma seconds_wait: "seconds (wait_for 4) = at_time 4" "seconds (wait_for 10) = at_time 10"
  "seconds (wait_for 15) = at_time 15"
  by (simp_all add: seconds_def wait_for_def)

lemmas run_eval = timer_step_def timer_event_def select_def waiting_def refused_def select_writes_def
  timer_init_def is_int32_def zeroed_def
  add_timenode_def delete_timenode_def update_time_list_def Let_def find_timenode.simps insert_loop.simps
  expire_loop.simps compare_times_def subtract_times_def timeval_subtract_def timeval_subtract_into_def
  carry_up_def carry_down_def usecs_def

lemma one_timer_run:
  "\<exists>p. timer_run seconds zeroed
    [(at_time 1001, None, Readable (starttimer (wait_for 4) 1)), (at_time 1006, None, TimedOut)]
    (timer_init (at_time 1000)) = Inr (p, [resend_message 1])"
  by (simp add: decode_wait run_eval seconds_wait)

theorem timer_process_refines_witness:
  "\<exists>p outs b D.
    timer_run seconds zeroed
      [(at_time 1001, None, Readable (starttimer (wait_for 4) 1)), (at_time 1006, None, TimedOut)]
      (timer_init (at_time 1000)) = Inr (p, map resend_message (concat outs)) \<and>
    spec_run (1000000000, Map.empty) [Add 1 (at_time 4) (at_time 1001), Elapse (at_time 1006)] outs (b, D) \<and>
    rep_timers (timer_list p) (b, D)"
proof -
  obtain p where run: "timer_run seconds zeroed
      [(at_time 1001, None, Readable (starttimer (wait_for 4) 1)), (at_time 1006, None, TimedOut)]
      (timer_init (at_time 1000)) = Inr (p, [resend_message 1])"
    using one_timer_run by blast
  have "next_node zeroed = Null"
    by (simp add: zeroed_def)
  with run timer_process_refines [of "at_time 1000"
      "[(at_time 1001, None, Readable (starttimer (wait_for 4) 1)), (at_time 1006, None, TimedOut)]" seconds zeroed]
  show ?thesis
    by (simp add: decode_wait seconds_wait is_int32_def no_stop_def clock_ok_def
      normal_def usecs_def interval_ok_def adds_def del: timer_run.simps)
      (elim exE conjE, intro exI conjI, assumption+)
qed

text \<open>
  When the timeout becomes negative. \<open>timeval_subtract\<close> carries in its second argument, which is
  the time of a node: starting a timer leaves negative microseconds in the head, or in the new
  node if that becomes the head.
\<close>

definition borrows :: "timeval \<Rightarrow> timeval \<Rightarrow> bool" where
  "borrows x y \<longleftrightarrow> tv_usec y < tv_usec x \<or> (tv_sec y < tv_sec x \<and> tv_usec x < tv_usec y)"

lemma carry_normal:
  assumes "normal x" and "normal y"
  shows "carry x y = (if tv_usec x < tv_usec y then \<lparr>tv_sec = tv_sec y + 1, tv_usec = tv_usec y - 1000000\<rparr> else y)"
proof (cases "tv_usec x < tv_usec y")
  case True
  then have "(tv_usec y - tv_usec x) div 1000000 = 0"
    using assms by (simp add: normal_def)
  then show ?thesis
    using True assms carry_up_exact [OF normal_usec_ok normal_usec_ok, OF assms True]
    by (simp add: carry_def carry_down_def normal_def Let_def)
qed (use assms in \<open>simp add: carry_def carry_up_def carry_down_def normal_def\<close>)

lemma carry_borrowed:
  assumes "normal x" and "normal y" and "tv_usec y < tv_usec x"
  shows "carry \<lparr>tv_sec = s, tv_usec = tv_usec x - 1000000\<rparr> y = \<lparr>tv_sec = tv_sec y + 1, tv_usec = tv_usec y - 1000000\<rparr>"
proof -
  let ?x = "\<lparr>tv_sec = s, tv_usec = tv_usec x - 1000000\<rparr> :: timeval"
  have "(tv_usec y - tv_usec ?x) div 1000000 = 0"
    using assms by (simp add: normal_def)
  then have "carry_up ?x y = \<lparr>tv_sec = tv_sec y + 1, tv_usec = tv_usec y - 1000000\<rparr>"
    using assms carry_up_exact [of ?x y] by (simp add: usec_ok_def normal_def Let_def)
  then show ?thesis
    using assms by (simp add: carry_def carry_down_def normal_def)
qed

lemma head_refused:
  assumes "normal x" and "0 \<le> tv_sec x" and "normal y" and "0 \<le> tv_sec y"
  shows "refused (snd (hd (insert_timer j y ((i, x) # r)))) \<longleftrightarrow> borrows x y"
proof (cases "tv_usec y < tv_usec x")
  case True
  then show ?thesis
    using carry_normal [OF assms(3,1)] carry_borrowed [OF assms(1,3) True] assms
    by (auto simp: insert_timer_Cons borrows_def refused_def normal_def)
next
  case False
  then show ?thesis
    using carry_normal [OF assms(3,1)] carry_normal [OF assms(1,3)] assms
    by (auto simp: insert_timer_Cons borrows_def refused_def normal_def)
qed

lemma holds_head:
  assumes "holds s ((i, x) # r)"
  shows "\<exists>a n. head s = At a \<and> nodes s a = Some n \<and> delta_time n = x"
proof -
  obtain as where "dlist (nodes s) (head s) as" "(i, x) # r = entries (nodes s) as"
    using assms by (rule holdsE)
  then show ?thesis
    by (cases as) (auto simp: dlist_def entry_def)
qed

text \<open>
  C35: The timer process does not survive most of its timers. If a timer is started while
  another one is the head, with \<open>x\<close> left to wait, and has fewer microseconds than \<open>x\<close>, or is
  due in an earlier second and has more, the time that \<open>timeout1\<close> then points to is negative:
  the next \<open>select\<close> fails and the process exits with 1, whatever comes. Otherwise \<open>select\<close>
  accepts it.
\<close>

theorem shorter_timer_stops_process:
  assumes "rep_timers (timer_list p) (b, D)" and "pointed p" and "accepted p"
    and "head (timer_list p) = At a" and "nodes (timer_list p) a = Some n"
    and "normal (delta_time n)" and "0 \<le> tv_sec (delta_time n)"
    and "decode_request m = Start j t" and "j \<notin> dom D"
    and "normal (interval_of t)" and "0 \<le> tv_sec (interval_of t)"
    and "allocated (timer_list p) < 500" and "clock_ok now" and "next_node fresh = Null"
  shows "\<exists>p'. timer_step interval_of fresh now None (Readable m) p = Inr (p', [], True) \<and>
    (accepted p' \<longleftrightarrow> \<not> borrows (delta_time n) (interval_of t)) \<and>
    (borrows (delta_time n) (interval_of t) \<longrightarrow>
      (\<forall>now' left r. timer_step interval_of fresh now' left r p' = Inl (Exit 1)))"
proof -
  obtain ts where ts: "holds (timer_list p) ts" "tame (allocated (timer_list p)) ts" "D = map_of (deadlines b ts)"
    using assms(1) by (auto simp: rep_timers_def)
  obtain as where as: "dlist (nodes (timer_list p)) (head (timer_list p)) as" "ts = entries (nodes (timer_list p)) as"
    using ts(1) by (rule holdsE)
  then obtain i r where r: "ts = (i, delta_time n) # r"
    using assms(4,5) by (cases as) (auto simp: dlist_def entry_def)
  have "all_ok ts" "j \<notin> fst ` set ts" "interval_ok (interval_of t)"
    using tame_ok [OF ts(2)] assms(9,10,12) ts(3) dom_deadlines by (auto simp: interval_ok_def normal_def)
  then obtain s' where s': "add_timenode fresh now j (interval_of t) 0 (timer_list p) = Inr s'"
    "holds s' (insert_timer j (interval_of t) ts)"
    using add_timenode_refines [OF ts(1) _ _ _ _ assms(14), of j "interval_of t" now 0] r by auto
  define p' where "p' = p\<lparr>timer_list := s', timeout1 := head s', since := now\<rparr>"
  have "select now None (Readable m) p = Inr (Readable m, p)"
    using select_returns [OF assms(1-3), of now "Readable m" None] by (auto simp: returns_def)
  then have step: "timer_step interval_of fresh now None (Readable m) p = Inr (p', [], True)"
    using s'(1) assms(8) by (simp add: timer_step_def timer_event_def p'_def)
  obtain k z q where new: "insert_timer j (interval_of t) ts = (k, z) # q"
    unfolding r by (cases "insert_timer j (interval_of t) ((i, delta_time n) # r)")
      (auto simp: insert_timer_Cons split: if_splits)
  then have z: "refused z \<longleftrightarrow> borrows (delta_time n) (interval_of t)"
    using head_refused [OF assms(6,7,10,11), of j i r] by (simp add: r)
  obtain c y where "head s' = At c" "nodes s' c = Some y" "delta_time y = z"
    using holds_head [OF s'(2) [unfolded new]] by blast
  then have w: "waiting p' = Inr (Some z)"
    by (simp add: waiting_def p'_def)
  then have "accepted p' \<longleftrightarrow> \<not> refused z"
    by (simp add: accepted_def)
  moreover have "timer_step interval_of fresh now' left e p' = Inl (Exit 1)" if "refused z" for now' left e
    using w that by (simp add: timer_step_def select_def timer_event_def)
  ultimately show ?thesis
    using step z by blast
qed

text \<open>A timer of 3 seconds runs and one of 1.25 seconds is started: the first byte in quarters of a second.\<close>

definition quarters :: "byte list \<Rightarrow> timeval" where
  "quarters t = \<lparr>tv_sec = uint (hd t) div 4, tv_usec = 250000 * (uint (hd t) mod 4)\<rparr>"

theorem shorter_timer_stops_process_witness:
  "timer_run quarters zeroed
    [(at_time 1001, None, Readable (starttimer (wait_for 12) 1)),
     (at_time 1002, None, Readable (starttimer (wait_for 5) 2)), (at_time 1003, None, Readable [])]
    (timer_init (at_time 1000)) = Inl (Exit 1)"
proof -
  have q: "quarters (wait_for 12) = at_time 3" "quarters (wait_for 5) = \<lparr>tv_sec = 1, tv_usec = 250000\<rparr>"
    by (simp_all add: quarters_def wait_for_def)
  let ?e = "Readable (starttimer (wait_for 12) 1)"
  let ?n = "zeroed\<lparr>node_id := 1, delta_time := at_time 3\<rparr>"
  let ?p = "\<lparr>timer_list = \<lparr>nodes = [0 \<mapsto> ?n], head = At 0, allocated = 1, lasttime = at_time 1001\<rparr>,
    timeout1 = At 0, since = at_time 1001\<rparr>"
  have d: "decode_request (starttimer (wait_for k) i) = Start i (wait_for k)" if "is_int32 i" for k i
    using that by (rule decode_wait)
  have ev: "timer_event quarters zeroed (at_time 1001) ?e (timer_init (at_time 1000)) = Inr (?p, [], True)"
    by (simp add: d run_eval q)
  have init: "rep_timers (timer_list (timer_init (at_time 1000))) (usecs (at_time 1000), Map.empty)"
    using rep_empty [of "timer_list (timer_init (at_time 1000))"]
    by (simp add: timer_init_def clock_ok_def normal_def usecs_def)
  have "rep_timers (timer_list ?p) (start_spec 1 (at_time 3) (at_time 1001) (usecs (at_time 1000), Map.empty))"
    using event_start [OF init, of "at_time 1001" "starttimer (wait_for 12) 1" 1 "wait_for 12" quarters zeroed] ev
    by (simp add: d q is_int32_def clock_ok_def normal_def usecs_def interval_ok_def zeroed_def timer_init_def)
  then have rep: "rep_timers (timer_list ?p) (1001000000, [1 \<mapsto> 1004000000])"
    by (simp add: start_spec_def usecs_def)
  have "pointed ?p" "accepted ?p"
    by (simp_all add: pointed_def accepted_def waiting_def refused_def)
  from shorter_timer_stops_process [OF rep this, of 0 ?n "starttimer (wait_for 5) 2" 2 "wait_for 5" quarters
      "at_time 1002" zeroed]
  obtain p' where p': "timer_step quarters zeroed (at_time 1002) None (Readable (starttimer (wait_for 5) 2)) ?p =
      Inr (p', [], True)"
    "timer_step quarters zeroed (at_time 1003) None (Readable []) p' = Inl (Exit 1)"
    by (auto simp: d q is_int32_def clock_ok_def normal_def usecs_def borrows_def zeroed_def)
  have "timer_step quarters zeroed (at_time 1001) None ?e (timer_init (at_time 1000)) = Inr (?p, [], True)"
    using ev by (simp add: timer_step_def select_def waiting_def timer_init_def)
  with p' show ?thesis by simp
qed

text \<open>
  With the \<open>select\<close> of Linux the time that passes before a message is taken off twice:
  two timers of 10 and 15 seconds are started, a message that changes nothing arrives after
  4 seconds, and both fire after 10 seconds.
\<close>

theorem timer_fires_early:
  "\<exists>p'. timer_run seconds zeroed
      [(at_time 1000, None, Readable (starttimer (wait_for 10) 1)),
       (at_time 1000, Some (at_time 10), Readable (starttimer (wait_for 15) 2)),
       (at_time 1004, Some (at_time 6), Readable (canceltimer 9)),
       (at_time 1010, Some (at_time 0), TimedOut)]
      (timer_init (at_time 1000)) = Inr (p', [resend_message 1, resend_message 2])"
proof -
  have "decode_request (canceltimer 9) = Cancel 9"
    by (simp add: decode_canceltimer strncpy_small int_of_bytes_int_bytes is_int32_def)
  then show ?thesis
    by (simp add: decode_wait run_eval seconds_wait)
qed

end
