(* ===== verification/Retransmission.thy ===== *)
theory Retransmission
  imports Outgoing TimerProcess
begin

text \<open>
  The driver and the timer process of \<open>client()\<close> together, with the two pipes between
  them. The driver writes its start and cancel messages to the first pipe, the timer its
  resend requests to the second; the network and the applications are those of
  \<open>Outgoing\<close>. The bytes of a \<open>double\<close> that the driver writes for a timeout in microseconds,
  and the time the timer makes of them, are parameters. New memory has a null \<open>next\<close>, at most
  500 timers are started, and \<open>select\<close> may write any time back through its pointer.
\<close>

section \<open>The two processes\<close>

text \<open>What the driver writes to the pipe of the timer.\<close>

fun timer_message :: "(u32 \<Rightarrow> byte list) \<Rightarrow> driver_out \<Rightarrow> byte list list" where
  "timer_message interval (Packet_out pkt) = []"
| "timer_message interval (Start_timer r n) = [starttimer (interval r) n]"
| "timer_message interval (Cancel_timer n) = [canceltimer n]"

definition timer_messages :: "(u32 \<Rightarrow> byte list) \<Rightarrow> driver_out list \<Rightarrow> byte list list" where
  "timer_messages interval outs = concat (map (timer_message interval) outs)"

text \<open>The oldest message of a pipe is read, or none.\<close>

definition reads :: "driver_input \<Rightarrow> byte list list \<Rightarrow> byte list list \<Rightarrow> bool" where
  "reads i q q' \<longleftrightarrow> (from_timer i = None \<and> q = q') \<or> (\<exists>m. from_timer i = Some m \<and> q = m # q')"

inductive timed_run ::
  "(u32 \<Rightarrow> byte list) \<Rightarrow> (byte list \<Rightarrow> timeval) \<Rightarrow> (nat \<Rightarrow> byte list) \<Rightarrow> (nat \<Rightarrow> byte list) \<Rightarrow>
    driver_state \<Rightarrow> nat \<Rightarrow> nat \<Rightarrow> nat set \<Rightarrow> timer_proc \<Rightarrow> byte list list \<Rightarrow> byte list list \<Rightarrow> bool"
  for interval interval_of msg blk
where
  timed_start: "blocks_ok bs \<Longrightarrow> length pkt = packet_size \<Longrightarrow> length b = BUFFER_SIZE \<Longrightarrow> clock_ok t \<Longrightarrow>
    timed_run interval interval_of msg blk (driver_init bs pkt b) 0 0 {} (timer_init t) [] []"
| timed_driver: "timed_run interval interval_of msg blk s R N A p q1 q2 \<Longrightarrow> reads i q2 q2' \<Longrightarrow>
    timer_ok i R N \<Longrightarrow> ftpc_ok msg blk i s R \<Longrightarrow> acks_ok i R N a \<Longrightarrow> driver_step i s = Inr (s', out) \<Longrightarrow>
    timed_run interval interval_of msg blk s' (if bufpos s' = bufpos s then R else Suc R)
      (if lfs s' = lfs s then N else Suc N) (A \<union> a) p (q1 @ timer_messages interval out) q2'"
| timed_message: "timed_run interval interval_of msg blk s R N A p (m # q1) q2 \<Longrightarrow> clock_ok now \<Longrightarrow>
    allocated (timer_list p) < 500 \<Longrightarrow> next_node fresh = Null \<Longrightarrow> remaining_ok left \<Longrightarrow>
    timer_step interval_of fresh now left (Readable m) p = Inr (p', out, go) \<Longrightarrow>
    timed_run interval interval_of msg blk s R N A p' q1 (q2 @ out)"
| timed_timeout: "timed_run interval interval_of msg blk s R N A p q1 q2 \<Longrightarrow> clock_ok now \<Longrightarrow>
    allocated (timer_list p) \<le> 500 \<Longrightarrow> remaining_ok left \<Longrightarrow>
    timer_step interval_of fresh now left TimedOut p = Inr (p', out, go) \<Longrightarrow>
    timed_run interval interval_of msg blk s R N A p' q1 (q2 @ out)"

section \<open>What the messages in a pipe will do\<close>

definition effect :: "byte list \<Rightarrow> int set \<Rightarrow> int set" where
  "effect m = request_effect (decode_request m)"

definition running :: "timer_proc \<Rightarrow> int set" where
  "running p = {i. find_timenode (Suc (allocated (timer_list p))) (nodes (timer_list p)) (head (timer_list p)) i = Inr True}"

lemma running_dom:
  assumes "rep_timers (timer_list p) (b, D)"
  shows "running p = dom D"
proof -
  obtain ts where "holds (timer_list p) ts" and D: "D = map_of (deadlines b ts)"
    using assms by (auto simp: rep_timers_def)
  from find_timenode_holds [OF this(1)] have "running p = fst ` set ts"
    unfolding running_def by simp
  then show ?thesis
    unfolding D dom_deadlines .
qed

definition number_ok :: "int \<Rightarrow> bool" where
  "number_ok n \<longleftrightarrow> 0 \<le> n \<and> n < 64"

lemma effect_start:
  "length (interval r) = 8 \<Longrightarrow> number_ok n \<Longrightarrow> effect (starttimer (interval r) n) D = insert n D"
  unfolding effect_def by (rule pipe.start_runs) (simp_all add: number_ok_def)

lemma effect_cancel: "number_ok n \<Longrightarrow> effect (canceltimer n) D = D - {n}"
  unfolding effect_def by (rule pipe.cancel_stops) (simp add: number_ok_def)

lemma number_ok_slot [simp]: "number_ok (slot k)"
  by (simp add: number_ok_def)

text \<open>The messages that are in the pipe.\<close>

definition message_ok :: "(u32 \<Rightarrow> byte list) \<Rightarrow> byte list \<Rightarrow> bool" where
  "message_ok interval m \<longleftrightarrow>
    (\<exists>r n. number_ok n \<and> m = starttimer (interval r) n) \<or> (\<exists>n. number_ok n \<and> m = canceltimer n)"

section \<open>The outputs of an iteration\<close>

lemma driver_outputs:
  assumes inv: "out_inv blk s R N A"
    and ok: "timer_ok i R N" "acks_ok i R N a"
    and step: "driver_step i s = Inr (s', out)"
  shows "\<exists>out1 out2 out3. out = out1 @ out2 @ out3 \<and>
    (from_timer i = None \<and> out1 = [] \<or>
      (\<exists>k < N. from_timer i = Some (resend_message (slot k)) \<and>
        (\<exists>pkt r. out1 = [Packet_out pkt, Start_timer r (slot k)]))) \<and>
    (a = {} \<and> out2 = [] \<or> (\<exists>k < N. R < k + 64 \<and> a = {k} \<and> out2 = [Cancel_timer (slot k)])) \<and>
    (lfs s' = lfs s \<and> out3 = [] \<or> lfs s' \<noteq> lfs s \<and> (\<exists>pkt r. out3 = [Packet_out pkt, Start_timer r (slot N)]))"
  using step
proof (rule driver_step_split)
  fix s1 out1 s2 u out2 v out3
  assume 1: "(case from_timer i of None \<Rightarrow> Inr (s, [])
        | Some msg \<Rightarrow> resend_step (sending i) (clock_resend i) msg s) = Inr (s1, out1)"
    and 2: "(case from_ftpc i of None \<Rightarrow> Inr s1 | Some r \<Rightarrow> ftpc_step r s1) = Inr s2"
    and 3: "(case from_troll i of None \<Rightarrow> Inr (s2, []) | Some r \<Rightarrow> ack_step (clock_ack i) r s2) = Inr (u, out2)"
    and 4: "send_next (sending i) (clock_send i) u = Inr (v, out3)"
    and s': "s' = v\<lparr>packet := clear_packet (packet v)\<rparr>" and out: "out = out1 @ out2 @ out3"
  have s: "driver_inv s" "phase (lar s) (lfs s) (int R) (int N)"
    using inv by (simp_all add: out_inv_def)
  have s1: "driver_inv s1" "lfs s1 = lfs s"
    using 1 s(1) resend_step_frame by (auto split: option.splits)
  have s2: "driver_inv s2" "lfs s2 = lfs s"
    using 2 s1 ftpc_step_frame [OF s1(1)] by (auto split: option.splits)
  have u: "driver_inv u" "lfs u = lfs s"
    using 3 s2 ack_step_frame [OF s2(1), of "clock_ack i" _ u out2] by (auto split: option.splits)
  have o1: "from_timer i = None \<and> out1 = [] \<or> (\<exists>k < N. from_timer i = Some (resend_message (slot k)) \<and>
      (\<exists>pkt r. out1 = [Packet_out pkt, Start_timer r (slot k)]))"
    using ok(1) unfolding timer_ok_def
  proof (elim disjE exE conjE)
    fix k
    assume k: "k < N" "from_timer i = Some (resend_message (slot k))"
    then have "resend_step (sending i) (clock_resend i) (resend_message (slot k)) s = Inr (s1, out1)"
      using 1 by simp
    from resend_result [OF s(1) slot_bounds this] k show ?thesis by blast
  qed (use 1 in simp)
  have o2: "a = {} \<and> out2 = [] \<or> (\<exists>k < N. R < k + 64 \<and> a = {k} \<and> out2 = [Cancel_timer (slot k)])"
    using ok(2) unfolding acks_ok_def
  proof (elim disjE exE conjE)
    fix d k
    assume d: "from_troll i = Some (Some d)" "good_ack d (slot k)" and k: "k < N" "R < k + 64" "a = {k}"
    then have "out2 = [Cancel_timer (slot k)]"
      using 3 ack_step_good [OF d(2), of s2] driver_invD(2) [OF s2(1)] by (auto simp: bindE_eq_Inr)
    with k show ?thesis by blast
  qed (use 3 in \<open>auto simp: ack_step_def Let_def split: if_splits\<close>)
  have "lfs s + 1 = slot N"
    using phase_slot [OF s(2)] .
  then have o3: "lfs s' = lfs s \<and> out3 = [] \<or> lfs s' \<noteq> lfs s \<and> (\<exists>pkt r. out3 = [Packet_out pkt, Start_timer r (slot N)])"
    using send_next_result [OF u(1) 4] u(2) s' next_lfs_neq [of "lfs s"]
    by (auto simp: transmit_result split: if_splits)
  from out o1 o2 o3 show ?thesis by blast
qed

section \<open>No frame is forgotten\<close>

definition watched :: "nat \<Rightarrow> nat set \<Rightarrow> int set \<Rightarrow> byte list list \<Rightarrow> byte list list \<Rightarrow> bool" where
  "watched N A X q1 q2 \<longleftrightarrow>
    (\<forall>k < N. k \<notin> A \<longrightarrow> slot k \<in> fold effect q1 X \<or> resend_message (slot k) \<in> set q2)"

lemma timer_messages_append [simp]:
  "timer_messages f (a @ b) = timer_messages f a @ timer_messages f b"
  by (simp add: timer_messages_def)

lemma resend_slot_eq: "resend_message (slot j) = resend_message (slot k) \<Longrightarrow> slot j = slot k"
  using slot_bounds [of j] slot_bounds [of k]
  by (intro pipe.resend_inj [of "slot j" "slot k"]) (linarith | assumption)+

lemma driver_watched:
  assumes inv: "out_inv blk s R N A"
    and ok: "timer_ok i R N" "acks_ok i R N a"
    and step: "driver_step i s = Inr (s', out)"
    and len: "\<forall>r. length (interval r) = 8"
    and rd: "reads i q2 q2'" and w: "watched N A X q1 q2"
  shows "watched (if lfs s' = lfs s then N else Suc N) (A \<union> a) X (q1 @ timer_messages interval out) q2'"
  unfolding watched_def
proof (intro allI impI)
  fix k
  assume k: "k < (if lfs s' = lfs s then N else Suc N)" "k \<notin> A \<union> a"
  obtain out1 out2 out3 where out: "out = out1 @ out2 @ out3"
    and 1: "from_timer i = None \<and> out1 = [] \<or>
      (\<exists>k < N. from_timer i = Some (resend_message (slot k)) \<and>
        (\<exists>pkt r. out1 = [Packet_out pkt, Start_timer r (slot k)]))"
    and 2: "a = {} \<and> out2 = [] \<or> (\<exists>k < N. R < k + 64 \<and> a = {k} \<and> out2 = [Cancel_timer (slot k)])"
    and 3: "lfs s' = lfs s \<and> out3 = [] \<or> lfs s' \<noteq> lfs s \<and> (\<exists>pkt r. out3 = [Packet_out pkt, Start_timer r (slot N)])"
    using driver_outputs [OF inv ok step] by blast
  have s: "A \<subseteq> {..<N}" "N \<le> R" "held blk (sendbuf s) R A"
    using inv by (simp_all add: out_inv_def)
  define Y where "Y = fold effect q1 X"
  define Y1 where "Y1 = fold effect (timer_messages interval out1) Y"
  define Y2 where "Y2 = fold effect (timer_messages interval out2) Y1"
  define Y3 where "Y3 = fold effect (timer_messages interval out3) Y2"
  have start: "fold effect (timer_messages interval [Packet_out pkt, Start_timer r (slot j)]) Z = insert (slot j) Z"
    for pkt r j Z
    using len by (simp add: timer_messages_def effect_start)
  have Y1: "Y \<subseteq> Y1" "\<And>j. from_timer i = Some (resend_message (slot j)) \<Longrightarrow> slot j \<in> Y1"
    using 1 by (auto simp: Y1_def start dest: resend_slot_eq) (auto simp: timer_messages_def)
  have Y2: "Y2 = Y1 \<or> (\<exists>j < N. R < j + 64 \<and> j \<in> a \<and> Y2 = Y1 - {slot j})"
    using 2 by (auto simp: Y2_def timer_messages_def effect_cancel)
  have Y3: "Y2 \<subseteq> Y3" "lfs s' \<noteq> lfs s \<Longrightarrow> slot N \<in> Y3"
    using 3 by (auto simp: Y3_def start) (auto simp: timer_messages_def)
  have later: "slot k \<in> Y3" if "k < N" "slot k \<in> Y1"
  proof -
    have "R \<le> k + 64"
      using s that(1) k(2) by (auto simp: held_def)
    have "slot j \<noteq> slot k" if "j < N" "R < j + 64" "j \<in> a" for j
    proof -
      have "j \<noteq> k" using that(3) k(2) by blast
      moreover have "j < k + 64" "k < j + 64"
        using that(1,2) s(2) \<open>k < N\<close> \<open>R \<le> k + 64\<close> by linarith+
      ultimately have "nat (slot j) \<noteq> nat (slot k)"
        by (rule slot_distinct)
      then show ?thesis by auto
    qed
    with Y2 that(2) have "slot k \<in> Y2" by (metis DiffI singletonD)
    with Y3(1) show ?thesis by blast
  qed
  have "slot k \<in> Y3 \<or> resend_message (slot k) \<in> set q2'"
  proof (cases "k < N")
    case False
    then have "k = N" "lfs s' \<noteq> lfs s"
      using k(1) by (auto split: if_splits)
    with Y3(2) show ?thesis by blast
  next
    case True
    then consider "slot k \<in> Y" | "from_timer i = Some (resend_message (slot k))"
      | "resend_message (slot k) \<in> set q2'"
    proof -
      have "slot k \<in> Y \<or> resend_message (slot k) \<in> set q2"
        using w k(2) True by (simp add: watched_def Y_def)
      moreover have "m \<in> set q2 \<Longrightarrow> from_timer i = Some m \<or> m \<in> set q2'" for m
        using rd by (auto simp: reads_def)
      ultimately show thesis using that by blast
    qed
    then show ?thesis
      using later [OF True] Y1 by cases auto
  qed
  then show "slot k \<in> fold effect (q1 @ timer_messages interval out) X \<or> resend_message (slot k) \<in> set q2'"
    by (simp add: out Y3_def Y2_def Y1_def Y_def)
qed

lemma driver_messages_ok:
  assumes "out_inv blk s R N A" and "timer_ok i R N" "acks_ok i R N a"
    and "driver_step i s = Inr (s', out)"
  shows "\<forall>m \<in> set (timer_messages interval out). message_ok interval m"
  using driver_outputs [OF assms] number_ok_slot unfolding message_ok_def
  by (fastforce simp: timer_messages_def)

text \<open>The numbers of the frames sent. Every number that the two processes pass on is one.\<close>

definition known :: "nat \<Rightarrow> int set" where
  "known N = slot ` {..<N}"

definition adds_known :: "nat \<Rightarrow> byte list \<Rightarrow> bool" where
  "adds_known N m \<longleftrightarrow> (\<forall>D. effect m D \<subseteq> D \<union> known N)"

definition numbers_known :: "nat \<Rightarrow> int set \<Rightarrow> byte list list \<Rightarrow> byte list list \<Rightarrow> bool" where
  "numbers_known N X q1 q2 \<longleftrightarrow> X \<subseteq> known N \<and> (\<forall>m \<in> set q1. adds_known N m) \<and>
    set q2 \<subseteq> resend_message ` known N"

lemma known_mono: "N \<le> N' \<Longrightarrow> known N \<subseteq> known N'"
  by (auto simp: known_def)

lemma numbers_known_mono: "numbers_known N X q1 q2 \<Longrightarrow> N \<le> N' \<Longrightarrow> numbers_known N' X q1 q2"
  unfolding numbers_known_def adds_known_def using known_mono [of N N'] by blast

lemma driver_numbers:
  assumes inv: "out_inv blk s R N A"
    and ok: "timer_ok i R N" "acks_ok i R N a"
    and step: "driver_step i s = Inr (s', out)"
    and len: "\<forall>r. length (interval r) = 8"
    and rd: "reads i q2 q2'" and w: "numbers_known N X q1 q2"
  shows "numbers_known (if lfs s' = lfs s then N else Suc N) X (q1 @ timer_messages interval out) q2'"
proof -
  define N' where "N' = (if lfs s' = lfs s then N else Suc N)"
  have N': "N \<le> N'" by (simp add: N'_def)
  have slots: "slot k \<in> known N'" if "k < N" for k
    using that N' by (auto simp: known_def)
  have start: "effect (starttimer (interval r) (slot k)) D = insert (slot k) D" for r k D
    using len by (simp add: effect_start)
  have cancel: "effect (canceltimer (slot k)) D = D - {slot k}" for k D
    by (simp add: effect_cancel)
  have "\<forall>m \<in> set (timer_messages interval out). adds_known N' m"
    unfolding adds_known_def
  proof (intro ballI allI)
    fix m D
    assume m: "m \<in> set (timer_messages interval out)"
    have new: "slot N \<in> known N'" if "lfs s' \<noteq> lfs s"
      using that by (simp add: N'_def known_def)
    obtain out1 out2 out3 where out: "out = out1 @ out2 @ out3"
      and 1: "from_timer i = None \<and> out1 = [] \<or>
        (\<exists>k < N. from_timer i = Some (resend_message (slot k)) \<and>
          (\<exists>pkt r. out1 = [Packet_out pkt, Start_timer r (slot k)]))"
      and 2: "a = {} \<and> out2 = [] \<or> (\<exists>k < N. R < k + 64 \<and> a = {k} \<and> out2 = [Cancel_timer (slot k)])"
      and 3: "lfs s' = lfs s \<and> out3 = [] \<or> lfs s' \<noteq> lfs s \<and> (\<exists>pkt r. out3 = [Packet_out pkt, Start_timer r (slot N)])"
      using driver_outputs [OF inv ok step] by blast
    from m consider (a) "m \<in> set (timer_messages interval out1)" | (b) "m \<in> set (timer_messages interval out2)"
      | (c) "m \<in> set (timer_messages interval out3)"
      by (auto simp: out)
    then show "effect m D \<subseteq> D \<union> known N'"
    proof cases
      case a
      with 1 slots show ?thesis by (auto simp: timer_messages_def start)
    next
      case b
      with 2 show ?thesis by (auto simp: timer_messages_def cancel)
    next
      case c
      with 3 new show ?thesis by (auto simp: timer_messages_def start)
    qed
  qed
  moreover have "numbers_known N' X q1 q2'"
    using numbers_known_mono [OF w N'] rd by (auto simp: numbers_known_def reads_def)
  ultimately show ?thesis
    unfolding N'_def [symmetric] by (auto simp: numbers_known_def)
qed

section \<open>The steps of the timer\<close>

definition intervals_ok :: "(u32 \<Rightarrow> byte list) \<Rightarrow> (byte list \<Rightarrow> timeval) \<Rightarrow> bool" where
  "intervals_ok interval interval_of \<longleftrightarrow>
    (\<forall>r. length (interval r) = 8 \<and> interval_ok (interval_of (interval r)))"

lemma timer_step_select:
  assumes "pointed p" and "timer_step interval_of fresh now left result p = Inr x"
  shows "accepted p" "returns now result p"
proof -
  have "accepted p \<and> returns now result p"
  proof (rule ccontr)
    assume "\<not> (accepted p \<and> returns now result p)"
    from select_stops [OF assms(1) this, of left] assms(2) show False
      by (auto simp: timer_step_def timer_event_def)
  qed
  then show "accepted p" "returns now result p" by simp_all
qed

text \<open>If \<open>select\<close> accepts its timeout, the timer does not fault on a message of the driver, nor when it is due.\<close>

lemma timer_reads:
  assumes m: "message_ok interval m" and rep: "rep_timers (timer_list p) S" and pt: "pointed p"
    and acc: "accepted p" and now: "clock_ok now" and alloc: "allocated (timer_list p) < 500"
    and iv: "intervals_ok interval interval_of" and fresh: "next_node fresh = Null" and left: "remaining_ok left"
  shows "\<exists>p'. timer_step interval_of fresh now left (Readable m) p = Inr (p', [], True) \<and>
    (\<exists>S'. rep_timers (timer_list p') S') \<and> pointed p' \<and> running p' = effect m (running p) \<and>
    allocated (timer_list p') \<le> Suc (allocated (timer_list p))"
proof -
  obtain b D where S: "S = (b, D)" by (cases S)
  have "returns now (Readable m) p"
    by (simp add: returns_def)
  from select_returns [OF rep [unfolded S] pt acc this left] obtain u E where
    u: "select now left (Readable m) p = Inr (Readable m, u)" "rep_timers (timer_list u) (b, E)" "dom E = dom D"
      "pointed u" "allocated (timer_list u) = allocated (timer_list p)"
    by blast
  have run: "running u = running p" "running u = dom E"
    using running_dom [OF u(2)] running_dom [OF rep [unfolded S]] u(3) by simp_all
  have st: "timer_step interval_of fresh now left (Readable m) p = timer_event interval_of fresh now (Readable m) u"
    using u(1) by (simp add: timer_step_def)
  from m consider (start) r n where "number_ok n" "m = starttimer (interval r) n"
    | (cancel) n where "number_ok n" "m = canceltimer n"
    unfolding message_ok_def by blast
  then show ?thesis
  proof cases
    case start
    then have d: "decode_request m = Start n (interval r)"
      using iv by (simp add: decode_starttimer number_ok_def is_int32_def intervals_ok_def)
    have iv': "interval_ok (interval_of (interval r))" "allocated (timer_list u) < 500"
      using iv alloc u(5) by (simp_all add: intervals_ok_def)
    from event_start [where interval_of = interval_of, OF u(2) now iv'(2) d iv'(1) fresh] obtain p1 where
      p1: "timer_event interval_of fresh now (Readable m) u = Inr (p1, [], True)"
        "rep_timers (timer_list p1) (start_spec n (interval_of (interval r)) now (b, E))" "pointed p1"
        "allocated (timer_list p1) \<le> Suc (allocated (timer_list u))"
      by blast
    obtain b' D' where S': "start_spec n (interval_of (interval r)) now (b, E) = (b', D')"
      by (cases "start_spec n (interval_of (interval r)) now (b, E)")
    then have "dom D' = insert n (dom E)"
      by (auto simp: start_spec_def split: if_splits)
    then have "running p1 = effect m (running p)"
      using running_dom [of p1 b' D'] p1(2) S' run by (simp add: effect_def request_effect_def d)
    with st p1 u(5) show ?thesis
      by (intro exI [of _ p1]) (simp del: split_paired_Ex, blast)
  next
    case cancel
    then have d: "decode_request m = Cancel n"
      using pipe.decode_cancel [of n] by (simp add: number_ok_def)
    from event_cancel [OF u(2,4) d, of interval_of fresh now] obtain p1 where
      p1: "timer_event interval_of fresh now (Readable m) u = Inr (p1, [], True)"
        "rep_timers (timer_list p1) (b, E(n := None))" "pointed p1"
        "allocated (timer_list p1) = allocated (timer_list u)"
      by blast
    have "running p1 = effect m (running p)"
      using running_dom [OF p1(2)] run by (simp add: effect_def request_effect_def d)
    with st p1 u(5) show ?thesis
      by (intro exI [of _ p1]) (simp del: split_paired_Ex, blast)
  qed
qed

lemma timer_times_out:
  assumes rep: "rep_timers (timer_list p) S" and pt: "pointed p" and acc: "accepted p"
    and ret: "returns now TimedOut p" and now: "clock_ok now" and alloc: "allocated (timer_list p) \<le> 500"
    and left: "remaining_ok left"
  shows "\<exists>p' out. timer_step interval_of fresh now left TimedOut p = Inr (p', out, True) \<and>
    (\<exists>S'. rep_timers (timer_list p') S') \<and> pointed p' \<and>
    (\<forall>n \<in> running p - running p'. resend_message n \<in> set out) \<and>
    running p' \<subseteq> running p \<and> set out \<subseteq> resend_message ` running p"
proof -
  obtain b D where S: "S = (b, D)" by (cases S)
  from select_returns [OF rep [unfolded S] pt acc ret left] obtain u E where
    u: "select now left TimedOut p = Inr (TimedOut, u)" "rep_timers (timer_list u) (b, E)" "dom E = dom D"
      "pointed u" "allocated (timer_list u) = allocated (timer_list p)"
    by blast
  have run: "running p = dom E"
    using running_dom [OF rep [unfolded S]] u(3) by simp
  have alloc': "allocated (timer_list u) \<le> 500"
    using alloc u(5) by simp
  from event_timeout [OF u(2,4) now alloc', of interval_of fresh] obtain p1 ids where
    p1: "timer_event interval_of fresh now TimedOut u = Inr (p1, map resend_message ids, True)"
      "fired E (usecs now) ids" "rep_timers (timer_list p1) (usecs now, E |` (- set ids))" "pointed p1"
    by blast
  have "running p1 = dom E - set ids"
    using running_dom [OF p1(3)] by auto
  moreover have "timer_step interval_of fresh now left TimedOut p = Inr (p1, map resend_message ids, True)"
    using u(1) p1(1) by (simp add: timer_step_def)
  ultimately show ?thesis
    using p1 run by (intro exI [of _ p1] exI [of _ "map resend_message ids"] conjI
        exI [of _ "(usecs now, E |` (- set ids))"]) (auto simp: fired_def)
qed

section \<open>Runs of both\<close>

definition joint_inv ::
  "(u32 \<Rightarrow> byte list) \<Rightarrow> (nat \<Rightarrow> byte list) \<Rightarrow> driver_state \<Rightarrow> nat \<Rightarrow> nat \<Rightarrow> nat set \<Rightarrow>
    timer_proc \<Rightarrow> byte list list \<Rightarrow> byte list list \<Rightarrow> bool"
where
  "joint_inv interval blk s R N A p q1 q2 \<longleftrightarrow>
    out_inv blk s R N A \<and> (\<exists>S. rep_timers (timer_list p) S) \<and> pointed p \<and>
    (\<forall>m \<in> set q1. message_ok interval m) \<and> watched N A (running p) q1 q2 \<and>
    numbers_known N (running p) q1 q2"

lemma out_inv_init:
  assumes "blocks_ok bs" and "length pkt = packet_size" and "length b = BUFFER_SIZE"
  shows "out_inv blk (driver_init bs pkt b) 0 0 {}"
  using sender_run_inv [OF sender_run.start [OF assms], of "\<lambda>_. ones"]
  by (simp add: is_stream_def out_inv_def held_def)

lemma timed_run_inv:
  assumes "timed_run interval interval_of msg blk s R N A p q1 q2" and st: "is_stream blk"
    and iv: "intervals_ok interval interval_of"
  shows "joint_inv interval blk s R N A p q1 q2"
  using assms(1)
proof (induction rule: timed_run.induct)
  case (timed_start bs pkt b t)
  have "rep_timers (timer_list (timer_init t)) (usecs t, Map.empty)"
    using rep_empty [of "timer_list (timer_init t)"] timed_start(4) by (simp add: timer_init_def)
  then show ?case
    using out_inv_init [OF timed_start(1-3)] running_dom [of "timer_init t"]
    by (auto simp: joint_inv_def watched_def numbers_known_def) (simp add: pointed_def timer_init_def)
next
  case (timed_driver s R N A p q1 q2 i q2' a s' out)
  have inv: "out_inv blk s R N A" "watched N A (running p) q1 q2" "numbers_known N (running p) q1 q2"
    using timed_driver.IH by (simp_all add: joint_inv_def)
  have len: "\<forall>r. length (interval r) = 8"
    using iv by (simp add: intervals_ok_def)
  note next_inv = out_inv_step [OF inv(1) st timed_driver.hyps(3-6)]
  note watch = driver_watched [OF inv(1) timed_driver.hyps(3,5,6) len timed_driver.hyps(2) inv(2)]
  note numbers = driver_numbers [OF inv(1) timed_driver.hyps(3,5,6) len timed_driver.hyps(2) inv(3)]
  note msgs = driver_messages_ok [OF inv(1) timed_driver.hyps(3,5,6), of interval]
  show ?case
    unfolding joint_inv_def using next_inv watch numbers msgs timed_driver.IH by (auto simp: joint_inv_def)
next
  case (timed_message s R N A p m q1 q2 now fresh left p' out go)
  then obtain S where S: "rep_timers (timer_list p) S" "message_ok interval m" "pointed p"
    by (auto simp: joint_inv_def)
  note sel = timer_step_select [OF S(3) timed_message.hyps(6)]
  from timer_reads [OF S(2,1,3) sel(1) timed_message.hyps(2,3) iv timed_message.hyps(4,5)] timed_message.hyps(6)
  have "\<exists>S'. rep_timers (timer_list p') S'" "running p' = effect m (running p)" "out = []" "pointed p'"
    by auto
  moreover have "adds_known N m"
    using timed_message.IH by (simp add: joint_inv_def numbers_known_def)
  then have "effect m (running p) \<subseteq> running p \<union> known N"
    unfolding adds_known_def by blast
  ultimately show ?case
    using timed_message.IH by (auto simp: joint_inv_def watched_def numbers_known_def)
next
  case (timed_timeout s R N A p q1 q2 now left fresh p' out go)
  then obtain S where S: "rep_timers (timer_list p) S" "pointed p"
    by (auto simp: joint_inv_def)
  note sel = timer_step_select [OF S(2) timed_timeout.hyps(5)]
  from timer_times_out [OF S sel timed_timeout.hyps(2-4), of interval_of fresh] timed_timeout.hyps(5)
  have pt: "pointed p'" and "\<exists>S'. rep_timers (timer_list p') S'" "\<forall>n \<in> running p - running p'. resend_message n \<in> set out"
    "running p' \<subseteq> running p" "set out \<subseteq> resend_message ` running p"
    by auto
  moreover have "watched N A (running p') q1 (q2 @ out)"
    unfolding watched_def
  proof (intro allI impI)
    fix k
    assume "k < N" "k \<notin> A"
    then consider "slot k \<in> fold effect q1 (running p)" | "resend_message (slot k) \<in> set q2"
      using timed_timeout.IH by (auto simp: joint_inv_def watched_def)
    then show "slot k \<in> fold effect q1 (running p') \<or> resend_message (slot k) \<in> set (q2 @ out)"
      using pipe.requests_other [of "slot k" q1 "running p" "running p'", folded effect_def] calculation(3) by cases auto
  qed
  moreover have "set out \<subseteq> resend_message ` known N"
    using calculation(5) image_mono [of "running p" "known N" resend_message] timed_timeout.IH
    by (auto simp: joint_inv_def numbers_known_def)
  ultimately show ?case
    using pt timed_timeout.IH by (auto simp: joint_inv_def numbers_known_def)
qed

text \<open>The first frame is sent, and then its timer started.\<close>

definition first_timer :: timer_proc where
  "first_timer =
    \<lparr>timer_list = \<lparr>nodes = [0 \<mapsto> zeroed\<lparr>node_id := 0, delta_time := at_time 1\<rparr>], head = At 0, allocated = 1,
       lasttime = at_time 1000\<rparr>, timeout1 = At 0, since = at_time 1000\<rparr>"

lemma first_timer_facts:
  "waiting first_timer = Inr (Some (at_time 1))" "accepted first_timer" "allocated (timer_list first_timer) = 1"
  "returns (at_time 2000) TimedOut first_timer"
  by (simp_all add: first_timer_def waiting_def accepted_def refused_def returns_def usecs_def)

lemma first_timer_step:
  "timer_step (\<lambda>_. at_time 1) zeroed (at_time 1000) None (Readable (starttimer (replicate 8 0) 0))
    (timer_init (at_time 1000)) = Inr (first_timer, [], True)"
  by (simp add: decode_starttimer run_eval first_timer_def)

lemma first_outputs:
  assumes "out_inv blk s 0 0 {}" and "from_timer i = None" and "from_troll i = None"
    and "driver_step i s = Inr (s', out)" and "lfs s' \<noteq> lfs s"
  shows "\<exists>pkt r. out = [Packet_out pkt, Start_timer r 0]"
proof -
  have "timer_ok i 0 0" "acks_ok i 0 0 {}"
    using assms(2,3) by (simp_all add: timer_ok_def acks_ok_def)
  from driver_outputs [OF assms(1) this assms(4)] assms(2,5) show ?thesis
    by (auto simp: slot_def)
qed

lemma timed_run_one:
  "\<exists>s. timed_run (\<lambda>_. replicate 8 0) (\<lambda>_. at_time 1) (\<lambda>_. ones) (\<lambda>_. ones) s 1 1 {}
    (timer_init (at_time 1000)) [starttimer (replicate 8 0) 0] []"
proof -
  have r: "timed_run (\<lambda>_. replicate 8 0) (\<lambda>_. at_time 1) (\<lambda>_. ones) (\<lambda>_. ones) empty_driver 0 0 {}
      (timer_init (at_time 1000)) [] []"
    unfolding empty_driver_def
    by (rule timed_run.timed_start)
      (simp_all add: blocks_ok_replicate clock_ok_def normal_def usecs_def)
  have inv: "out_inv (\<lambda>_. ones) empty_driver 0 0 {}"
    unfolding empty_driver_def by (rule out_inv_init) (simp_all add: blocks_ok_replicate)
  have e: "lfs empty_driver = -1" "bufpos empty_driver = 0"
    by (simp_all add: empty_driver_def driver_init_def)
  obtain s' out where step: "driver_step block_arrives empty_driver = Inr (s', out)" "lfs s' = 0" "bufpos s' = 1"
    using first_block_step by blast
  have "timer_messages (\<lambda>_. replicate 8 0) out = [starttimer (replicate 8 0) 0]"
    using first_outputs [OF inv _ _ step(1)] step(2) e by (auto simp: timer_messages_def block_arrives_def)
  with timed_run.timed_driver [OF r _ _ first_arrives _ step(1), of "[]" "{}"] step(2,3) e show ?thesis
    by (auto simp: timer_ok_def acks_ok_def block_arrives_def reads_def)
qed

lemma timed_run_first:
  "\<exists>s. timed_run (\<lambda>_. replicate 8 0) (\<lambda>_. at_time 1) (\<lambda>_. ones) (\<lambda>_. ones) s 1 1 {} first_timer [] []"
proof -
  have "clock_ok (at_time 1000)" "allocated (timer_list (timer_init (at_time 1000))) < 500" "next_node zeroed = Null"
    by (simp_all add: clock_ok_def normal_def usecs_def timer_init_def zeroed_def)
  from timed_run.timed_message [OF _ this remaining_ok_None first_timer_step] timed_run_one show ?thesis
    by fastforce
qed

section \<open>Properties\<close>

text \<open>The timer is armed while timers run, and can go on if \<open>select\<close> accepts the time.\<close>

lemma joint_armed:
  assumes "joint_inv interval blk s R N A p q1 q2" and "running p \<noteq> {}"
  shows "\<exists>t. waiting p = Inr (Some t)"
proof -
  obtain b D where rep: "rep_timers (timer_list p) (b, D)" and pt: "pointed p"
    using assms(1) by (auto simp: joint_inv_def)
  have "D \<noteq> Map.empty"
    using running_dom [OF rep] assms(2) by auto
  then show ?thesis
    using waiting_pointed [OF pt] pt rep_head_null(1) [OF rep] by (auto simp: pointed_def)
qed

lemma timer_goes_on:
  assumes "joint_inv interval blk s R N A p q1 q2" and "intervals_ok interval interval_of"
    and "clock_ok now" and "allocated (timer_list p) < 500" and "next_node fresh = Null" and "remaining_ok left"
    and "returns now result p" and "result = TimedOut \<or> (\<exists>m. m \<in> set q1 \<and> result = Readable m)" and "accepted p"
  shows "\<exists>p' out. timer_step interval_of fresh now left result p = Inr (p', out, True)"
proof -
  obtain S where S: "rep_timers (timer_list p) S" "pointed p" and q1: "\<forall>m \<in> set q1. message_ok interval m"
    using assms(1) by (auto simp: joint_inv_def)
  from assms(8) show ?thesis
  proof (elim disjE exE conjE)
    assume "result = TimedOut"
    then show ?thesis
      using timer_times_out [OF S assms(9) _ assms(3) less_imp_le [OF assms(4)] assms(6), of interval_of fresh]
        assms(7) by blast
  next
    fix m
    assume "m \<in> set q1" "result = Readable m"
    then show ?thesis
      using timer_reads [OF _ S assms(9,3,4,2,5,6), of m] q1 by blast
  qed
qed



end
