(* ===== verification/ProtoTimer.thy ===== *)
theory ProtoTimer
  imports TimerProcess
begin

text \<open>
  \<open>proj1/timmer.c\<close>, the timer on its own from which the one in \<open>project1/tcpd.c\<close> was
  made. \<open>find_timenode\<close>, \<open>print_time_list\<close> and the messages are written a little differently
  and do the same, the time functions are the same; the loops over the list are translated on
  their own and shown to do what those of \<open>tcpd.c\<close> do, without sending; \<open>add_timenode\<close> prints
  the list, which normalises it, \<open>delete_timenode\<close> does not look for the number first and does
  not mend the back link of the next node, and the main loop updates the list on every event
  and ends with the first timeout.
\<close>

section \<open>The code\<close>

text \<open>\<open>stack\<close> is the content of \<open>bufout\<close> before \<open>bzero\<close>.\<close>

definition proto_starttimer :: "byte list \<Rightarrow> byte list \<Rightarrow> int \<Rightarrow> byte list" where
  "proto_starttimer stack time_interval ident =
    (let operation = char_array OPT_SIZE ''start'';
         buf = char_array INFO_SIZE ''This is a test string'';
         bufout = zero_bytes 0 BUFFER_SIZE stack;
         bufout = put_bytes 0 (c_strncpy OPT_SIZE operation) bufout;
         bufout = put_bytes OPT_SIZE (int_bytes ident) bufout;
         bufout = put_bytes (OPT_SIZE + ID_SIZE) time_interval bufout
     in put_bytes (OPT_SIZE + ID_SIZE + 8) (c_strncpy INFO_SIZE buf) bufout)"

definition proto_canceltimer :: "byte list \<Rightarrow> int \<Rightarrow> byte list" where
  "proto_canceltimer stack ident =
    (let operation = char_array OPT_SIZE ''cancel'';
         bufout = zero_bytes 0 BUFFER_SIZE stack;
         bufout = put_bytes 0 (c_strncpy OPT_SIZE operation) bufout
     in put_bytes OPT_SIZE (c_strncpy ID_SIZE (int_bytes ident)) bufout)"

definition proto_stop_timing :: "byte list \<Rightarrow> byte list" where
  "proto_stop_timing stack =
    (let operation = char_array OPT_SIZE ''stop''
     in put_bytes 0 (c_strncpy OPT_SIZE operation) stack)"

text \<open>The parameter \<open>head\<close> walks down the list.\<close>

fun proto_find_timenode :: "nat \<Rightarrow> store \<Rightarrow> ptr \<Rightarrow> int \<Rightarrow> fault + bool" where
  "proto_find_timenode 0 m h ident = Inl Diverges"
| "proto_find_timenode (Suc fuel) m h ident =
    bindE (is_null h) (\<lambda>null.
    if null then Inr False
    else
      bindE (deref m h) (\<lambda>n.
      if node_id n = ident then Inr True else proto_find_timenode fuel m (next_node n) ident))"

fun proto_print_time_list :: "nat \<Rightarrow> store \<Rightarrow> ptr \<Rightarrow> fault + store" where
  "proto_print_time_list 0 m h = Inl Diverges"
| "proto_print_time_list (Suc fuel) m h =
    bindE (is_null h) (\<lambda>null.
    if null then Inr m
    else
      bindE (deref m h) (\<lambda>n.
      bindE (if tv_usec (delta_time n) < 0 then
               update_node m h (\<lambda>n. n\<lparr>delta_time := (delta_time n)\<lparr>tv_sec := tv_sec (delta_time n) - 1,
                 tv_usec := tv_usec (delta_time n) + 1000000\<rparr>\<rparr>)
             else Inr m) (\<lambda>m.
      proto_print_time_list fuel m (next_node n))))"

definition print_list :: "timer_state \<Rightarrow> fault + timer_state" where
  "print_list s =
    bindE (proto_print_time_list (Suc (allocated s)) (nodes s) (head s)) (\<lambda>m. Inr (s\<lparr>nodes := m\<rparr>))"

text \<open>The search for the place of a new node that is not the first.\<close>

fun proto_insert_loop :: "nat \<Rightarrow> store \<Rightarrow> ptr \<Rightarrow> ptr \<Rightarrow> fault + store" where
  "proto_insert_loop 0 m node_to_add node = Inl Diverges"
| "proto_insert_loop (Suc fuel) m node_to_add node =
    bindE (is_null node) (\<lambda>null.
    if null then Inr m
    else
      bindE (deref m node) (\<lambda>n.
      bindE (is_null (next_node n)) (\<lambda>last.
      bindE (if last then compare_times m node_to_add node else Inr (True, m)) (\<lambda>(negative, m).
      if last \<and> \<not> negative then
        bindE (subtract_times m node_to_add node) (\<lambda>m.
        bindE (update_node m node (\<lambda>x. x\<lparr>next_node := node_to_add\<rparr>)) (\<lambda>m.
        update_node m node_to_add (\<lambda>x. x\<lparr>forward := node\<rparr>)))
      else
        bindE (compare_times m node_to_add node) (\<lambda>(negative, m).
        if negative then
          bindE (deref m node) (\<lambda>n.
          bindE (update_node m (forward n) (\<lambda>x. x\<lparr>next_node := node_to_add\<rparr>)) (\<lambda>m.
          bindE (deref m node) (\<lambda>n.
          bindE (update_node m node_to_add (\<lambda>x. x\<lparr>forward := forward n\<rparr>)) (\<lambda>m.
          bindE (update_node m node_to_add (\<lambda>x. x\<lparr>next_node := node\<rparr>)) (\<lambda>m.
          bindE (update_node m node (\<lambda>x. x\<lparr>forward := node_to_add\<rparr>)) (\<lambda>m.
          subtract_times m node node_to_add))))))
        else if last then proto_insert_loop fuel m node_to_add node
        else
          bindE (compare_times m node_to_add node) (\<lambda>(negative, m).
          if negative then proto_insert_loop fuel m node_to_add node
          else
            bindE (subtract_times m node_to_add node) (\<lambda>m.
            bindE (deref m node) (\<lambda>n. proto_insert_loop fuel m node_to_add (next_node n)))))))))"

text \<open>The list is printed at the end, but not for a duplicate and not for the first node.\<close>

definition proto_add_timenode ::
  "time_node \<Rightarrow> timeval \<Rightarrow> int \<Rightarrow> timeval \<Rightarrow> int \<Rightarrow> timer_state \<Rightarrow> fault + timer_state"
where
  "proto_add_timenode fresh now ident dtime pnum s =
    bindE (proto_find_timenode (Suc (allocated s)) (nodes s) (head s) ident) (\<lambda>found.
    if found then Inr s
    else
      let node = head s;
          node_to_add = At (allocated s);
          m = (nodes s)(allocated s \<mapsto>
                fresh\<lparr>node_id := ident, delta_time := dtime, port_num := pnum\<rparr>);
          s = s\<lparr>nodes := m, allocated := Suc (allocated s)\<rparr>
      in
        bindE (is_null node) (\<lambda>null.
        if null then Inr (s\<lparr>lasttime := now, head := node_to_add\<rparr>)
        else
          bindE (compare_times m node_to_add node) (\<lambda>(negative, m).
          if negative then
            bindE (update_node m node_to_add (\<lambda>x. x\<lparr>next_node := node\<rparr>)) (\<lambda>m.
            bindE (update_node m node (\<lambda>x. x\<lparr>forward := node_to_add\<rparr>)) (\<lambda>m.
            bindE (subtract_times m node node_to_add) (\<lambda>m.
            print_list (s\<lparr>nodes := m, head := node_to_add\<rparr>))))
          else
            bindE (proto_insert_loop (allocated s) m node_to_add node) (\<lambda>m.
            print_list (s\<lparr>nodes := m\<rparr>)))))"

fun proto_delete_loop :: "nat \<Rightarrow> store \<Rightarrow> ptr \<Rightarrow> int \<Rightarrow> fault + store" where
  "proto_delete_loop 0 m node ident = Inl Diverges"
| "proto_delete_loop (Suc fuel) m node ident =
    bindE (is_null node) (\<lambda>null.
    if null then Inr m
    else
      bindE (deref m node) (\<lambda>n.
      if node_id n = ident then
        bindE (update_node m (forward n) (\<lambda>x. x\<lparr>next_node := next_node n\<rparr>)) (\<lambda>m.
        bindE (deref m node) (\<lambda>n.
        add_time m (next_node n) (delta_time n)))
      else proto_delete_loop fuel m (next_node n) ident))"

definition proto_delete_timenode :: "int \<Rightarrow> timer_state \<Rightarrow> fault + timer_state" where
  "proto_delete_timenode ident s =
    bindE (deref (nodes s) (head s)) (\<lambda>n.
    bindE (if node_id n = ident then
             bindE (add_time (nodes s) (next_node n) (delta_time n)) (\<lambda>m.
             Inr (s\<lparr>nodes := m, head := next_node n\<rparr>))
           else
             bindE (proto_delete_loop (Suc (allocated s)) (nodes s) (head s) ident) (\<lambda>m.
             Inr (s\<lparr>nodes := m\<rparr>))) print_list)"

text \<open>Nothing is sent for an expired node here.\<close>

fun proto_expire_loop :: "nat \<Rightarrow> store \<Rightarrow> ptr \<Rightarrow> timeval \<Rightarrow> fault + (store \<times> ptr)" where
  "proto_expire_loop 0 m h dtime = Inl Diverges"
| "proto_expire_loop (Suc fuel) m h dtime =
    bindE (is_null h) (\<lambda>null.
    if null then Inr (m, h)
    else
      bindE (deref m h) (\<lambda>n.
      let (negative, r, d) = timeval_subtract dtime (delta_time n)
      in bindE (update_node m h (\<lambda>n. n\<lparr>delta_time := d\<rparr>)) (\<lambda>m.
         if \<not> negative then
           let (_, dtime, d) = timeval_subtract_into dtime d
           in bindE (update_node m h (\<lambda>n. n\<lparr>delta_time := d\<rparr>)) (\<lambda>m.
              proto_expire_loop fuel m (next_node n) dtime)
         else
           let (_, r, dtime) = timeval_subtract_into d dtime
           in bindE (update_node m h (\<lambda>n. n\<lparr>delta_time := r\<rparr>)) (\<lambda>m. Inr (m, h)))))"

definition proto_update_time_list :: "timeval \<Rightarrow> timer_state \<Rightarrow> fault + timer_state" where
  "proto_update_time_list now s =
    (let dtime = (if tv_sec (lasttime s) = 0 \<and> tv_usec (lasttime s) = 0 then lasttime s
                  else fst (snd (timeval_subtract now (lasttime s))))
     in bindE (proto_expire_loop (Suc (allocated s)) (nodes s) (head s) dtime) (\<lambda>(m, h).
          Inr (s\<lparr>nodes := m, head := h, lasttime := now\<rparr>)))"

text \<open>One iteration of the timer in \<open>main\<close>, and whether it goes on.\<close>

definition proto_step ::
  "(byte list \<Rightarrow> timeval) \<Rightarrow> time_node \<Rightarrow> timeval \<Rightarrow> select_result \<Rightarrow> timer_state \<Rightarrow> fault + (timer_state \<times> bool)"
where
  "proto_step interval_of fresh now result s =
    bindE (proto_update_time_list now s) (\<lambda>s.
    case result of
      TimedOut \<Rightarrow> Inr (s, False)
    | SelectFailed \<Rightarrow> Inl (Exit 1)
    | Readable bufin \<Rightarrow>
        (case decode_request bufin of
           Stop \<Rightarrow> Inr (s, False)
         | Start ident time_interval \<Rightarrow>
             bindE (proto_add_timenode fresh now ident (interval_of time_interval) 0 s) (\<lambda>s. Inr (s, True))
         | Cancel ident \<Rightarrow> bindE (proto_delete_timenode ident s) (\<lambda>s. Inr (s, True))
         | Ignored \<Rightarrow> Inr (s, True)))"

text \<open>The local \<open>head\<close> is not initialised; the global \<open>lasttime\<close> is zero.\<close>

definition proto_init :: "ptr \<Rightarrow> timer_state" where
  "proto_init h = \<lparr>nodes = Map.empty, head = h, allocated = 0, lasttime = \<lparr>tv_sec = 0, tv_usec = 0\<rparr>\<rparr>"

fun proto_run ::
  "(byte list \<Rightarrow> timeval) \<Rightarrow> time_node \<Rightarrow> (timeval \<times> select_result) list \<Rightarrow> timer_state \<Rightarrow>
    fault + (timer_state \<times> bool)"
where
  "proto_run interval_of fresh [] s = Inr (s, True)"
| "proto_run interval_of fresh ((now, result) # es) s =
    bindE (proto_step interval_of fresh now result s) (\<lambda>(s, go).
    if go then proto_run interval_of fresh es s else Inr (s, False))"

text \<open>The messages that the driver in \<open>main\<close> writes; \<open>double\<close> gives the bytes of a constant.\<close>

definition proto_driver :: "(string \<Rightarrow> byte list) \<Rightarrow> byte list \<Rightarrow> byte list list" where
  "proto_driver double stack =
    [proto_starttimer stack (double ''3.123'') 3, proto_starttimer stack (double ''3.123'') 3,
     proto_starttimer stack (double ''30.456'') 2, proto_starttimer stack (double ''22.0'') 1,
     proto_starttimer stack (double ''20.0'') 4, proto_canceltimer stack 2,
     proto_starttimer stack (double ''18.0'') 5, proto_canceltimer stack 4, proto_canceltimer stack 8,
     proto_stop_timing stack]"

section \<open>The functions that both programs have\<close>

lemma zero_all: "length stack = n \<Longrightarrow> zero_bytes 0 n stack = replicate n 0"
  by (simp add: zero_bytes_def put_bytes_def)

text \<open>The messages of the driver are those of \<open>tcpd.c\<close>, which its timer decodes as meant.\<close>

lemma proto_messages:
  assumes "length stack = BUFFER_SIZE"
  shows "proto_starttimer stack t i = starttimer t i" "proto_canceltimer stack i = canceltimer i"
    "proto_stop_timing stack = stop_timing stack"
  using assms by (simp_all add: proto_starttimer_def starttimer_def proto_canceltimer_def canceltimer_def
      proto_stop_timing_def stop_timing_def zero_all Let_def)

lemma proto_find_same: "proto_find_timenode fuel m p ident = find_timenode fuel m p ident"
  by (induction fuel arbitrary: p) (simp_all add: find_timenode.simps cong: if_cong)

lemma proto_print_same: "proto_print_time_list fuel m p = print_time_list fuel m p"
proof (induction fuel arbitrary: m p)
  case (Suc fuel)
  show ?case
  proof (cases p)
    case (At a)
    then show ?thesis
      by (cases "m a") (simp_all add: Suc print_time_list.simps update_node_def deref_def print_normalise_def map_upd_triv)
  qed (simp_all add: print_time_list.simps update_node_def deref_def)
qed (simp add: print_time_list.simps)

text \<open>The two loops over the list do the same as those of \<open>tcpd.c\<close>, but send nothing.\<close>

lemma proto_insert_same: "proto_insert_loop fuel m new node = insert_loop fuel m new node"
proof (induction fuel arbitrary: m node)
  case (Suc fuel)
  have swap: "(if b then x else y) = (if \<not> b then y else x)" for b and x y :: "fault + store"
    by simp
  show ?case
    unfolding proto_insert_loop.simps(2) insert_loop.simps(2) Suc.IH swap [of _ "insert_loop fuel _ new node"] ..
qed (simp add: insert_loop.simps)

lemma proto_expire_same:
  "proto_expire_loop fuel m h t = bindE (expire_loop fuel m h t) (\<lambda>(m, h, ids). Inr (m, h))"
proof (induction fuel arbitrary: m h t)
  case (Suc fuel)
  then show ?case
    by (simp add: expire_loop.simps Let_def bindE_def split_beta split: sum.splits)
qed (simp add: expire_loop.simps)

lemma proto_add_same:
  assumes "is_null (head s) = Inr null"
  shows "proto_add_timenode fresh now ident dtime pnum s =
    bindE (find_timenode (Suc (allocated s)) (nodes s) (head s) ident) (\<lambda>found.
    bindE (add_timenode fresh now ident dtime pnum s) (\<lambda>s'.
    if found \<or> null then Inr s' else print_list s'))"
proof (cases "find_timenode (Suc (allocated s)) (nodes s) (head s) ident")
  case (Inr found)
  show ?thesis
  proof (cases "found \<or> null")
    case True
    then show ?thesis
      using assms Inr by (auto simp: proto_add_timenode_def add_timenode_def Let_def proto_find_same)
  next
    case False
    let ?m = "(nodes s)(allocated s \<mapsto> fresh\<lparr>node_id := ident, delta_time := dtime, port_num := pnum\<rparr>)"
    show ?thesis
    proof (cases "compare_times ?m (At (allocated s)) (head s)")
      case Inl
      then show ?thesis
        using assms Inr False by (simp add: proto_add_timenode_def add_timenode_def Let_def proto_find_same)
    next
      case cmp: (Inr x)
      obtain negative m where "x = (negative, m)" by (cases x)
      then show ?thesis
        using assms Inr False cmp
        by (cases negative) (simp_all add: proto_add_timenode_def add_timenode_def Let_def proto_find_same
            proto_insert_same bindE_def split: sum.splits)
    qed
  qed
qed (simp add: proto_add_timenode_def proto_find_same)

declare proto_find_timenode.simps [simp del] proto_print_time_list.simps [simp del]
  proto_insert_loop.simps [simp del] proto_expire_loop.simps [simp del]
declare proto_find_same [simp] proto_print_same [simp] proto_insert_same [simp] proto_expire_same [simp]

section \<open>The list that can be reached\<close>

fun reached :: "nat \<Rightarrow> store \<Rightarrow> ptr \<Rightarrow> fault + timers" where
  "reached 0 m node = Inl Diverges"
| "reached (Suc fuel) m node =
    bindE (is_null node) (\<lambda>null.
    if null then Inr []
    else bindE (deref m node) (\<lambda>n.
         bindE (reached fuel m (next_node n)) (\<lambda>ts. Inr ((node_id n, delta_time n) # ts))))"

lemma reached_seg: "seg m prev p as Null \<Longrightarrow> length as < fuel \<Longrightarrow> reached fuel m p = Inr (entries m as)"
proof (induction as arbitrary: prev p fuel)
  case Nil
  then show ?case by (cases fuel) auto
next
  case (Cons a as)
  then show ?case by (cases fuel) (auto simp: entry_def)
qed

lemmas proto_eval = proto_add_timenode_def proto_delete_timenode_def proto_delete_loop.simps
  proto_update_time_list_def print_list_def print_time_list.simps print_normalise_def
  add_timenode_def delete_timenode_def delete_loop.simps update_time_list_def find_timenode.simps insert_loop.simps expire_loop.simps
  compare_times_def subtract_times_def add_time_def timeval_add_def timeval_subtract_def
  timeval_subtract_into_def carry_up_def carry_down_def Let_def zeroed_def

section \<open>Printing keeps the deadlines\<close>

lemma print_normalise_usecs: "usecs (print_normalise t) = usecs t"
  by (simp add: print_normalise_def usecs_def)

lemma print_deadlines:
  "deadlines b (map (\<lambda>(i, t). (i, print_normalise t)) ts) = deadlines b ts"
  by (induction b ts rule: deadlines.induct) (auto simp: print_normalise_usecs)

lemma print_tame: "tame n ts \<Longrightarrow> tame n (map (\<lambda>(i, t). (i, print_normalise t)) ts)"
proof (induction n ts rule: tame.induct)
  case (2 n i t r)
  then obtain w where w: "w < n" "\<bar>tv_usec t\<bar> \<le> 2000000 * int (Suc w)" "tame (n - Suc w) r"
    by auto
  then have "\<bar>tv_usec (print_normalise t)\<bar> \<le> 2000000 * int (Suc w)"
    by (auto simp: print_normalise_def)
  with 2 w show ?case by auto
qed simp

lemma print_list_rep:
  assumes "rep_timers s S"
  shows "\<exists>s'. print_list s = Inr s' \<and> allocated s' = allocated s \<and> rep_timers s' S"
proof -
  obtain b D where S: "S = (b, D)" by (cases S)
  obtain ts where ts: "holds s ts" "tame (allocated s) ts" "distinct (map fst ts)"
    "sorted (map snd (deadlines b ts))" "D = map_of (deadlines b ts)"
    "clock_ok (lasttime s)" "b = usecs (lasttime s)"
    using assms by (auto simp: rep_timers_def S)
  obtain as where as: "dlist (nodes s) (head s) as" "set as \<subseteq> {..<allocated s}"
    "ts = entries (nodes s) as" "length as \<le> allocated s"
    using ts(1) by (rule holdsE)
  have "seg (nodes s) None (head s) as Null" "distinct as" "length as < Suc (allocated s)"
    using as(1,4) by (simp_all add: dlist_def)
  from print_time_list_refines [OF this]
  obtain m where m: "print_time_list (Suc (allocated s)) (nodes s) (head s) = Inr m"
    "seg m None (head s) as Null" "entries m as = map (\<lambda>(i, t). (i, print_normalise t)) ts"
    unfolding as(3) by blast
  have "holds (s\<lparr>nodes := m\<rparr>) (map (\<lambda>(i, t). (i, print_normalise t)) ts)"
    using m as(1,2) by (intro holdsI [of _ as]) (simp_all add: dlist_def)
  moreover have "fst \<circ> (\<lambda>(i, t). (i, print_normalise t)) = (fst :: int \<times> timeval \<Rightarrow> int)"
    by auto
  ultimately show ?thesis
    using m(1) ts print_tame [OF ts(2)] unfolding S
    by (intro exI [of _ "s\<lparr>nodes := m\<rparr>"])
      (simp add: print_list_def rep_timers_def, intro exI [of _ "map (\<lambda>(i, t). (i, print_normalise t)) ts"],
        simp add: print_deadlines)
qed

lemma proto_update_same: "proto_update_time_list now s = bindE (update_time_list now s) (\<lambda>(s, ids). Inr s)"
  by (simp add: proto_update_time_list_def update_time_list_def proto_expire_same Let_def bindE_def split: sum.splits)

section \<open>Properties\<close>

definition three_timers :: "timer_state" where
  "three_timers =
    \<lparr>nodes = [0 \<mapsto> zeroed\<lparr>node_id := 1, delta_time := at_time 10, next_node := At 1\<rparr>,
       1 \<mapsto> zeroed\<lparr>node_id := 2, delta_time := at_time 10, forward := At 0, next_node := At 2\<rparr>,
       2 \<mapsto> zeroed\<lparr>node_id := 3, delta_time := at_time 10, forward := At 1\<rparr>],
     head = At 0, allocated = 3, lasttime = at_time 1000\<rparr>"

text \<open>
  The back link that \<open>timmer.c\<close> leaves behind loses a timer: with timers of 10, 20 and
  30 seconds the second is deleted and one of 25 seconds is started; the new node is hung
  behind the deleted one and cannot be reached from the head, and the third timer is left
  due after 15 seconds instead of 30. In \<open>tcpd.c\<close>, where
  \<open>delete_timenode\<close> mends the link, the same calls leave all three.
\<close>

theorem proto_delete_loses_timer:
  "bindE (proto_delete_timenode 2 three_timers) (\<lambda>s.
     bindE (proto_add_timenode zeroed now 4 (at_time 25) 0 s) (\<lambda>s.
     reached (Suc (allocated s)) (nodes s) (head s))) = Inr [(1, at_time 10), (3, at_time 5)] \<and>
   bindE (delete_timenode 2 three_timers) (\<lambda>s.
     bindE (add_timenode zeroed now 4 (at_time 25) 0 s) (\<lambda>s.
     reached (Suc (allocated s)) (nodes s) (head s))) =
     Inr [(1, at_time 10), (4, at_time 15), (3, at_time 5)]"
  by (simp add: proto_eval three_timers_def eval_nat_numeral cong: bindE_weak_cong)

text \<open>
  C23: Starting a timer and letting time pass do the same in \<open>timmer.c\<close> as in \<open>tcpd.c\<close>:
  printing changes how the times are written in the nodes, and no deadline. Both are
  translated from their own source; the list is well formed, fewer than 500 timers have been
  started, and new memory has a null \<open>next\<close>.
\<close>

theorem proto_same_queue:
  assumes "rep_timers s (b, D)" and "allocated s < 500" and "interval_ok x" and "clock_ok now"
    and "next_node fresh = Null"
  shows "(\<exists>s1 s2. add_timenode fresh now i x pnum s = Inr s1 \<and> rep_timers s1 (start_spec i x now (b, D)) \<and>
      proto_add_timenode fresh now i x pnum s = Inr s2 \<and> rep_timers s2 (start_spec i x now (b, D))) \<and>
    (\<exists>s' ids. update_time_list now s = Inr (s', ids) \<and> fired D (usecs now) ids \<and>
      proto_update_time_list now s = Inr s')"
proof -
  obtain s1 where s1: "add_timenode fresh now i x pnum s = Inr s1"
    "rep_timers s1 (start_spec i x now (b, D))"
    using start_rep [OF assms] by blast
  obtain null where null: "is_null (head s) = Inr null"
    using rep_head [OF assms(1)] ..
  obtain ts where "holds s ts"
    using assms(1) by (auto simp: rep_timers_def)
  note find = find_timenode_holds [OF this, of i]
  obtain s2 where s2: "print_list s1 = Inr s2" "rep_timers s2 (start_spec i x now (b, D))"
    using print_list_rep [OF s1(2)] by blast
  have "\<exists>s2. proto_add_timenode fresh now i x pnum s = Inr s2 \<and> rep_timers s2 (start_spec i x now (b, D))"
    using s1 s2 find by (simp add: proto_add_same [OF null])
  moreover have "\<exists>s' ids. update_time_list now s = Inr (s', ids) \<and> fired D (usecs now) ids \<and>
      proto_update_time_list now s = Inr s'"
    using update_rep [OF assms(1) _ assms(4)] assms(2) by (fastforce simp: proto_update_same)
  ultimately show ?thesis
    using s1 by blast
qed

theorem proto_same_queue_witness:
  "(\<exists>s1 s2. add_timenode zeroed (at_time 1001) 7 (at_time 5) 0 idle_list = Inr s1 \<and>
      rep_timers s1 (1001000000, [7 \<mapsto> 1006000000]) \<and>
      proto_add_timenode zeroed (at_time 1001) 7 (at_time 5) 0 idle_list = Inr s2 \<and>
      rep_timers s2 (1001000000, [7 \<mapsto> 1006000000])) \<and>
    (\<exists>s' ids. update_time_list (at_time 1001) idle_list = Inr (s', ids) \<and>
      fired Map.empty 1001000000 ids \<and> proto_update_time_list (at_time 1001) idle_list = Inr s')"
  using proto_same_queue [of idle_list 1000000000 Map.empty "at_time 5" "at_time 1001" zeroed 7 0]
    rep_empty [of idle_list]
  by (simp add: idle_list_def clock_ok_def normal_def usecs_def interval_ok_def zeroed_def start_spec_def)

text \<open>
  The timer of \<open>timmer.c\<close> starts with an uninitialised \<open>head\<close>: unless the memory
  happens to hold a null pointer its first iteration reads through it. With a null pointer
  the first iteration is harmless, and a request to cancel a timer while none runs reads
  through the null pointer.
\<close>

theorem proto_uninitialised_head:
  "(h \<noteq> Null \<longrightarrow> proto_run interval_of fresh ((now, result) # es) (proto_init h) = Inl OutOfBounds) \<and>
   proto_run interval_of fresh [(now, Readable (canceltimer ident))] (proto_init Null) = Inl OutOfBounds"
proof -
  have "is_null h = Inl OutOfBounds \<or> deref Map.empty h = Inl OutOfBounds" if "h \<noteq> Null"
    using that by (cases h) (simp_all add: deref_def)
  then have "expire_loop (Suc 0) Map.empty h t = Inl OutOfBounds" if "h \<noteq> Null" for t
    using that by (cases h) (auto simp: expire_loop.simps(2))
  moreover have "expire_loop (Suc 0) Map.empty Null t = Inr (Map.empty, Null, [])" for t
    by (simp add: expire_loop.simps(2))
  ultimately show ?thesis
    by (auto simp: proto_step_def proto_update_time_list_def proto_init_def decode_canceltimer
        proto_delete_timenode_def deref_def)
qed

theorem proto_uninitialised_head_witness:
  "proto_run seconds zeroed [(at_time 1000, TimedOut)] (proto_init Wild) = Inl OutOfBounds \<and>
   proto_run seconds zeroed [(at_time 1000, Readable (canceltimer 3))] (proto_init Null) = Inl OutOfBounds"
  using proto_uninitialised_head [where h = Wild and interval_of = seconds and fresh = zeroed and
      now = "at_time 1000" and result = TimedOut and es = "[]" and ident = 3]
    proto_uninitialised_head [where interval_of = seconds and fresh = zeroed and now = "at_time 1000" and ident = 3]
  by blast

end
