(* ===== verification/FileTransfer.thy ===== *)
theory FileTransfer
  imports Messages
begin

text \<open>
  The applications: \<open>ftpc\<close> and \<open>ftps\<close> of \<open>project1\<close>, which talk to \<open>tcpd\<close> in blocks of
  1000 bytes, and of \<open>lab2\<close>, over a TCP connection in blocks of 4096 bytes. A call that reads a file or a socket is an
  argument: the file of a name, what each \<open>RECV\<close> gives (\<open>None\<close> for an error), whether a
  \<open>SEND\<close> succeeds, how much \<open>fwrite\<close> writes.
\<close>

section \<open>The clients\<close>

abbreviation FILE_NAME_SIZE :: nat where "FILE_NAME_SIZE \<equiv> 20"
abbreviation FILE_BYTES_SIZE :: nat where "FILE_BYTES_SIZE \<equiv> 4"

text \<open>A character array used as a string: without a terminator the use reads past its end.\<close>

definition c_str :: "byte list \<Rightarrow> fault + byte list" where
  "c_str mem = (if 0 \<in> set mem then Inr (c_string mem) else Inl OutOfBounds)"

text \<open>\<open>argument\<close> is the content of \<open>argv[3]\<close> up to its terminator.\<close>

definition set_filename :: "byte list \<Rightarrow> byte list" where
  "set_filename argument =
    put_bytes 0 (take (if length argument > FILE_NAME_SIZE then FILE_NAME_SIZE else length argument) argument)
      (replicate FILE_NAME_SIZE 0)"

text \<open>\<open>strncpy (buf, (char* ) &size, FILE_BYTES_SIZE)\<close> stops at a zero byte of the size.\<close>

definition file_information :: "nat \<Rightarrow> int \<Rightarrow> byte list \<Rightarrow> byte list" where
  "file_information buffsize filesize name =
    (let buf = replicate buffsize 0;
         buf = put_bytes 0 (c_strncpy FILE_BYTES_SIZE (int_bytes filesize)) buf
     in put_bytes FILE_BYTES_SIZE name buf)"

text \<open>The blocks that \<open>fread\<close> gives until it returns 0.\<close>

function file_blocks :: "nat \<Rightarrow> byte list \<Rightarrow> byte list list" where
  "file_blocks n content = (if n = 0 \<or> content = [] then [] else take n content # file_blocks n (drop n content))"
  by auto
termination
  by (relation "measure (\<lambda>(n, content). length content)") auto

declare file_blocks.simps [simp del]

text \<open>The calls of \<open>SEND\<close> in order; the program exits after one that fails.\<close>

definition send_all :: "(nat \<Rightarrow> bool) \<Rightarrow> byte list list \<Rightarrow> fault + byte list list" where
  "send_all send_ok msgs = (if list_all send_ok [0..<length msgs] then Inr msgs else Inl (Exit 1))"

definition ftpc ::
  "int \<Rightarrow> byte list \<Rightarrow> (byte list \<Rightarrow> byte list option) \<Rightarrow> (nat \<Rightarrow> bool) \<Rightarrow> fault + byte list list"
where
  "ftpc argc argument fopen send_ok =
    (if argc < 4 then Inl (Exit 1)
     else
       bindE (c_str (set_filename argument)) (\<lambda>name.
       case fopen name of
         None \<Rightarrow> Inl (Exit 1)
       | Some content \<Rightarrow>
           send_all send_ok (file_information 1000 (int (length content)) name # file_blocks 1000 content)))"

text \<open>
  \<open>lab2/ftpc.c\<close> sends the part of the name after the last slash, which the loop over \<open>t\<close>
  looks for from the end: the result is \<open>t + 1\<close>.
\<close>

fun last_slash :: "byte list \<Rightarrow> nat \<Rightarrow> nat" where
  "last_slash filename 0 = 0"
| "last_slash filename (Suc t) = (if filename ! t = 47 then Suc t else last_slash filename t)"

definition lab_messages :: "nat \<Rightarrow> byte list \<Rightarrow> byte list \<Rightarrow> byte list list" where
  "lab_messages buffsize name content =
    file_information buffsize (int (length content)) (drop (last_slash name (length name)) name) #
      file_blocks buffsize content"

text \<open>\<open>reply\<close> is the result of the last \<open>read\<close>, negative for an error.\<close>

definition lab2_ftpc ::
  "byte list \<Rightarrow> (byte list \<Rightarrow> byte list option) \<Rightarrow> (nat \<Rightarrow> bool) \<Rightarrow> int \<Rightarrow> fault + byte list list"
where
  "lab2_ftpc argument fopen send_ok reply =
    bindE (c_str (set_filename argument)) (\<lambda>name.
    case fopen name of
      None \<Rightarrow> Inl (Exit 1)
    | Some content \<Rightarrow>
        bindE (send_all send_ok (lab_messages 4096 name content)) (\<lambda>msgs.
        if reply < 0 then Inl (Exit 1) else Inr msgs))"

text \<open>Calls that give a value each; the first fault ends the program.\<close>

fun send_each :: "(byte list \<Rightarrow> fault + 'b) \<Rightarrow> byte list list \<Rightarrow> fault + 'b list" where
  "send_each send [] = Inr []"
| "send_each send (m # ms) =
    bindE (send m) (\<lambda>c. bindE (send_each send ms) (\<lambda>cs. Inr (c # cs)))"

text \<open>Each block lies in \<open>buf\<close>, 1000 bytes that were zeroed before.\<close>

definition pad_block :: "nat \<Rightarrow> byte list \<Rightarrow> byte list" where
  "pad_block n b = put_bytes 0 b (replicate n 0)"

section \<open>The servers\<close>

text \<open>The size and the name in the first block, as \<open>project1/ftps.c\<close> reads them.\<close>

definition read_information :: "byte list \<Rightarrow> byte list \<Rightarrow> fault + (int \<times> byte list)" where
  "read_information filename buf =
    bindE (c_strlen (drop FILE_BYTES_SIZE buf)) (\<lambda>n.
    Inr (int_of_bytes (take FILE_BYTES_SIZE buf),
      put_bytes 0 (take (if n > FILE_NAME_SIZE then FILE_NAME_SIZE else n) (drop FILE_BYTES_SIZE buf)) filename))"

text \<open>\<open>char dir[30] = "./receive"\<close>, then two calls of \<open>strcat\<close>.\<close>

definition receive_path :: "byte list \<Rightarrow> fault + byte list" where
  "receive_path filename =
    bindE (c_str filename) (\<lambda>name.
    let dir = bytes_of_string ''./receive'' @ bytes_of_string ''/'' @ name
    in if length dir < 30 then Inr dir else Inl OutOfBounds)"

text \<open>
  The receive loop of \<open>project1/ftps.c\<close>: the bytes still to come and the file. If the
  results of \<open>RECV\<close> run out it waits for another.
\<close>

fun ftps_loop :: "(nat \<Rightarrow> nat) \<Rightarrow> int \<Rightarrow> byte list option list \<Rightarrow> byte list \<Rightarrow> fault + (int \<times> byte list)" where
  "ftps_loop fwrite filesize [] content = Inr (filesize, content)"
| "ftps_loop fwrite filesize (None # rs) content = (if filesize > 0 then Inl (Exit 1) else Inr (filesize, content))"
| "ftps_loop fwrite filesize (Some r # rs) content =
    (if filesize > 0 then
       let received = int (length r);
           actual = nat (if filesize > received then received else filesize)
       in if fwrite actual < actual then Inl (Exit 1)
          else ftps_loop fwrite (filesize - received) rs (content @ take actual r)
     else Inr (filesize, content))"

definition ftps ::
  "bool \<Rightarrow> bool \<Rightarrow> (nat \<Rightarrow> nat) \<Rightarrow> byte list option list \<Rightarrow> fault + (byte list \<times> int \<times> byte list)"
where
  "ftps dir_ok fopen_ok fwrite rs =
    (case rs of
       [] \<Rightarrow> Inr ([], 0, [])
     | None # rs \<Rightarrow> Inl (Exit 1)
     | Some r # rs \<Rightarrow>
         bindE (read_information (replicate FILE_NAME_SIZE 0) (pad_block 1000 r)) (\<lambda>(filesize, filename).
         if \<not> dir_ok then Inl (Exit 1)
         else
           bindE (receive_path filename) (\<lambda>path.
           if \<not> fopen_ok then Inl (Exit 1)
           else bindE (ftps_loop fwrite filesize rs []) (\<lambda>(filesize, content). Inr (path, filesize, content)))))"

text \<open>
  \<open>lab2/ftps.c\<close> subtracts the result of \<open>recv\<close> before it looks at it and writes all that has
  arrived; \<open>filename\<close> is not initialised. The answer to the client is 1024 bytes from an
  array of 40.
\<close>

fun lab2_loop :: "(nat \<Rightarrow> nat) \<Rightarrow> int \<Rightarrow> byte list option list \<Rightarrow> byte list \<Rightarrow> fault + (int \<times> byte list)" where
  "lab2_loop fwrite filesize [] content = Inr (filesize, content)"
| "lab2_loop fwrite filesize (None # rs) content = (if filesize > 0 then Inl (Exit 1) else Inr (filesize, content))"
| "lab2_loop fwrite filesize (Some r # rs) content =
    (if filesize > 0 then
       let filesize = filesize - int (length r)
       in if fwrite (length r) < length r then Inl (Exit 1)
          else lab2_loop fwrite filesize rs (content @ r)
     else Inr (filesize, content))"

definition lab2_reply :: "fault + byte list" where
  "lab2_reply =
    (let buf2 = char_array 40 (''Transfer file finished!'' @ [CHR 0x0A])
     in if 1024 \<le> length buf2 then Inr (take 1024 buf2) else Inl OutOfBounds)"

definition lab2_ftps ::
  "byte list \<Rightarrow> bool \<Rightarrow> bool \<Rightarrow> (nat \<Rightarrow> nat) \<Rightarrow> byte list option list \<Rightarrow> fault + (byte list \<times> int \<times> byte list)"
where
  "lab2_ftps stack dir_ok fopen_ok fwrite rs =
    (case rs of
       [] \<Rightarrow> Inr ([], 0, [])
     | None # rs \<Rightarrow> Inl (Exit 1)
     | Some r # rs \<Rightarrow>
         bindE (read_information stack (pad_block 4096 r)) (\<lambda>(filesize, filename).
         if \<not> dir_ok then Inl (Exit 1)
         else
           bindE (receive_path filename) (\<lambda>path.
           if \<not> fopen_ok then Inl (Exit 1)
           else bindE (lab2_loop fwrite filesize rs []) (\<lambda>(filesize, content).
                if filesize > 0 then Inr (path, filesize, content)
                else bindE lab2_reply (\<lambda>reply. Inr (path, filesize, content))))))"

section \<open>Names\<close>

definition file_name :: "byte list \<Rightarrow> bool" where
  "file_name name \<longleftrightarrow> 0 \<notin> set name \<and> length name < FILE_NAME_SIZE"

lemma put_bytes_front: "length b \<le> n \<Longrightarrow> put_bytes 0 b (replicate n 0) = b @ replicate (n - length b) 0"
  by (simp add: put_bytes_def)

lemma set_filename_short: "file_name name \<Longrightarrow> set_filename name = name @ replicate (FILE_NAME_SIZE - length name) 0"
  by (simp add: set_filename_def file_name_def put_bytes_front)

lemma c_str_padded: "0 \<notin> set s \<Longrightarrow> 0 < k \<Longrightarrow> c_str (s @ replicate k 0) = Inr s"
  by (simp add: c_str_def c_string_replicate_zero)

lemma c_str_set_filename: "file_name name \<Longrightarrow> c_str (set_filename name) = Inr name"
  by (simp add: set_filename_short c_str_padded file_name_def)

lemma c_str_long: "0 \<notin> set name \<Longrightarrow> FILE_NAME_SIZE \<le> length name \<Longrightarrow> c_str (set_filename name) = Inl OutOfBounds"
  by (auto simp: c_str_def set_filename_def put_bytes_def dest: in_set_takeD)

lemma receive_path_name:
  assumes "file_name name"
  shows "receive_path (name @ replicate (FILE_NAME_SIZE - length name) 0) =
    Inr (bytes_of_string ''./receive/'' @ name)"
  using assms by (simp add: receive_path_def c_str_padded file_name_def bytes_of_string_def)

text \<open>The first block: the size as far as \<open>strncpy\<close> copies it, and the name.\<close>

definition size_read :: "int \<Rightarrow> int" where
  "size_read n = int_of_bytes (c_strncpy FILE_BYTES_SIZE (int_bytes n))"

lemma read_file_information:
  assumes "file_name name" and "24 \<le> n"
  shows "read_information (replicate FILE_NAME_SIZE 0) (file_information n k name) =
    Inr (size_read k, name @ replicate (FILE_NAME_SIZE - length name) 0)"
proof -
  have f: "file_information n k name =
      c_strncpy FILE_BYTES_SIZE (int_bytes k) @ name @ replicate (n - FILE_BYTES_SIZE - length name) 0"
    using assms by (simp add: file_information_def put_bytes_def file_name_def)
  have "c_strlen (name @ replicate (n - FILE_BYTES_SIZE - length name) 0) = Inr (length name)"
    using assms by (auto simp: c_strlen_def file_name_def c_string_replicate_zero)
  with assms show ?thesis
    unfolding f by (simp add: read_information_def file_name_def put_bytes_front size_read_def)
qed

lemma length_file_information:
  assumes "file_name name" and "24 \<le> n"
  shows "length (file_information n k name) = n"
  using assms by (simp add: file_information_def mem_simps file_name_def)

lemma pad_block_full: "length b = n \<Longrightarrow> pad_block n b = b"
  by (simp add: pad_block_def put_bytes_front)

section \<open>Blocks\<close>

lemma file_blocks_Nil [simp]: "file_blocks n [] = []"
  by (simp add: file_blocks.simps)

lemma file_blocks_Cons: "0 < n \<Longrightarrow> content \<noteq> [] \<Longrightarrow> file_blocks n content = take n content # file_blocks n (drop n content)"
  by (simp add: file_blocks.simps)

lemma concat_file_blocks: "0 < n \<Longrightarrow> concat (file_blocks n content) = content"
proof (induction n content rule: file_blocks.induct)
  case (1 n content)
  then show ?case by (cases "content = []") (simp_all add: file_blocks_Cons)
qed

lemma file_blocks_length: "0 < n \<Longrightarrow> b \<in> set (file_blocks n content) \<Longrightarrow> 0 < length b \<and> length b \<le> n"
proof (induction n content rule: file_blocks.induct)
  case (1 n content)
  then show ?case by (cases "content = []") (auto simp: file_blocks_Cons)
qed

lemma ftps_loop_blocks:
  assumes "0 < n" and "\<forall>k. fwrite k = k"
  shows "\<exists>m \<le> 0. ftps_loop fwrite (int (length xs)) (map (Some \<circ> pad_block n) (file_blocks n xs)) content = Inr (m, content @ xs)"
  using assms(1)
proof (induction n xs arbitrary: content rule: file_blocks.induct)
  case (1 n xs)
  show ?case
  proof (cases "xs = []")
    case True
    then show ?thesis by simp
  next
    case False
    have len: "length (pad_block n (take n xs)) = n"
      using 1(2) by (simp add: pad_block_def put_bytes_front)
    have pad: "take (min n (length xs)) (pad_block n (take n xs)) = take n xs"
      using 1(2) by (simp add: pad_block_def put_bytes_front min_def)
    show ?thesis
    proof (cases "length xs \<le> n")
      case True
      moreover from this have "take (length xs) (pad_block n xs) = xs"
        using pad by (simp add: min_def split: if_splits)
      ultimately show ?thesis
        using False 1(2) len assms(2) by (auto simp: file_blocks_Cons Let_def)
    next
      case le: False
      then obtain m where "m \<le> 0" "ftps_loop fwrite (int (length (drop n xs)))
          (map (Some \<circ> pad_block n) (file_blocks n (drop n xs))) (content @ take n xs) = Inr (m, content @ xs)"
        using 1(1) [of "content @ take n xs"] 1(2) False by (auto simp: o_def)
      moreover have "ftps_loop fwrite (int (length xs)) (map (Some \<circ> pad_block n) (file_blocks n xs)) content =
          ftps_loop fwrite (int (length (drop n xs))) (map (Some \<circ> pad_block n) (file_blocks n (drop n xs)))
            (content @ take n xs)"
        unfolding file_blocks_Cons [OF 1(2) False]
        using False le len pad assms(2) by (simp add: Let_def min_def of_nat_diff)
      ultimately show ?thesis by (auto simp: o_def)
    qed
  qed
qed

lemma lab2_loop_segments:
  assumes "\<forall>k. fwrite k = k" and "\<forall>r \<in> set rs. r \<noteq> []"
  shows "lab2_loop fwrite (int (length (concat rs))) (map Some rs) content = Inr (0, content @ concat rs)"
  using assms(2) by (induction rs arbitrary: content) (auto simp: assms(1) Let_def add_pos_nonneg)

section \<open>Properties\<close>

text \<open>
  C29: What \<open>ftpc\<close> sends is one block of exactly 1000 bytes and then the file, cut into
  blocks of 1 to 1000 bytes.
\<close>

theorem ftpc_messages:
  assumes "file_name name" and "fopen name = Some content" and "4 \<le> argc" and "\<forall>k. send_ok k"
  shows "\<exists>h bs. ftpc argc name fopen send_ok = Inr (h # bs) \<and> length h = 1000 \<and> concat bs = content \<and>
    (\<forall>b \<in> set bs. 0 < length b \<and> length b \<le> 1000)"
  using assms length_file_information [OF assms(1), of 1000 "int (length content)"]
    concat_file_blocks [of 1000 content] file_blocks_length [of 1000 _ content]
  by (auto simp: ftpc_def c_str_set_filename send_all_def list_all_iff)

theorem ftpc_messages_witness:
  "\<exists>h bs. ftpc 4 [97] (\<lambda>_. Some [1, 2, 3]) (\<lambda>_. True) = Inr (h # bs) \<and> length h = 1000 \<and>
    concat bs = [1, 2, 3] \<and> (\<forall>b \<in> set bs. 0 < length b \<and> length b \<le> 1000)"
  by (rule ftpc_messages) (simp_all add: file_name_def)

text \<open>
  If \<open>tcpd\<close> delivers the blocks of \<open>ftpc\<close>, each filled up with zero bytes to 1000,
  and the size survives \<open>strncpy\<close>, then \<open>ftps\<close> writes the same file under the same name and
  leaves its loop.
\<close>

theorem file_transfer_roundtrip:
  assumes "file_name name" and "fopen name = Some content" and "4 \<le> argc" and "\<forall>k. send_ok k"
    and "\<forall>k. fwrite k = k" and "size_read (int (length content)) = int (length content)"
  shows "\<exists>msgs rest. ftpc argc name fopen send_ok = Inr msgs \<and>
    ftps True True fwrite (map (Some \<circ> pad_block 1000) msgs) =
      Inr (bytes_of_string ''./receive/'' @ name, rest, content) \<and> rest \<le> 0"
proof -
  let ?h = "file_information 1000 (int (length content)) name"
  obtain m where m: "m \<le> 0"
    "ftps_loop fwrite (int (length content)) (map (Some \<circ> pad_block 1000) (file_blocks 1000 content)) [] = Inr (m, content)"
    using ftps_loop_blocks [of 1000 fwrite content "[]"] assms(5) by auto
  have "ftpc argc name fopen send_ok = Inr (?h # file_blocks 1000 content)"
    using assms(1-4) by (simp add: ftpc_def c_str_set_filename send_all_def list_all_iff)
  moreover have "pad_block 1000 (pad_block 1000 ?h) = ?h"
    using length_file_information [OF assms(1), of 1000 "int (length content)"] by (simp add: pad_block_full)
  ultimately show ?thesis
    using m read_file_information [OF assms(1), of 1000 "int (length content)"] receive_path_name [OF assms(1)]
    by (simp add: ftps_def assms(6))
qed

lemma size_read_small: "0 \<le> n \<Longrightarrow> n < 256 \<Longrightarrow> size_read n = n"
  by (simp add: size_read_def strncpy_small int_of_bytes_int_bytes is_int32_def)

theorem file_transfer_roundtrip_witness:
  "\<exists>msgs rest. ftpc 4 [97] (\<lambda>_. Some [1, 2, 3]) (\<lambda>_. True) = Inr msgs \<and>
    ftps True True (\<lambda>k. k) (map (Some \<circ> pad_block 1000) msgs) =
      Inr (bytes_of_string ''./receive/'' @ [97], rest, [1, 2, 3]) \<and> rest \<le> 0"
  by (rule file_transfer_roundtrip) (simp_all add: file_name_def size_read_small)

lemma size_read_low_byte_zero:
  "ucast (word_of_int n :: u32) = (0 :: byte) \<Longrightarrow> size_read n = 0"
  by (simp add: size_read_def strncpy_low_byte_zero int_of_bytes_int_bytes is_int32_def)

lemma low_byte_of_multiple: "ucast (word_of_int (256 * k) :: u32) = (0 :: byte)"
proof -
  have "(256 :: int) * k = push_bit 8 k"
    by (simp add: push_bit_eq_mult)
  then have "word_of_int (256 * k) = (push_bit 8 (word_of_int k) :: u32)"
    by (simp only:) (rule bit_word_eqI, auto simp: bit_simps)
  then show ?thesis
    by (simp only:) (rule bit_word_eqI, auto simp: bit_simps)
qed

text \<open>
  \<open>ftpc\<close> writes the size with \<open>strncpy\<close>, which stops at a zero byte: of a file whose
  size is a multiple of 256, \<open>ftps\<close> reads the size 0, takes none of its blocks and leaves an
  empty file.
\<close>

theorem multiple_of_256_arrives_empty:
  assumes "file_name name" and "fopen name = Some content" and "4 \<le> argc" and "\<forall>k. send_ok k"
    and "length content = 256 * k"
  shows "\<exists>msgs. ftpc argc name fopen send_ok = Inr msgs \<and>
    ftps True True fwrite (map (Some \<circ> pad_block 1000) msgs) =
      Inr (bytes_of_string ''./receive/'' @ name, 0, [])"
proof -
  let ?h = "file_information 1000 (int (length content)) name"
  have loop: "ftps_loop fwrite 0 rs [] = Inr (0, [])" for rs
    by (cases rs; cases "hd rs") auto
  have "size_read (int (length content)) = 0"
    unfolding assms(5) of_nat_mult using low_byte_of_multiple [of "int k"]
    by (intro size_read_low_byte_zero) simp
  moreover have "ftpc argc name fopen send_ok = Inr (?h # file_blocks 1000 content)"
    using assms(1-4) by (simp add: ftpc_def c_str_set_filename send_all_def list_all_iff)
  moreover have "pad_block 1000 (pad_block 1000 ?h) = ?h"
    using length_file_information [OF assms(1), of 1000 "int (length content)"] by (simp add: pad_block_full)
  ultimately show ?thesis
    using read_file_information [OF assms(1), of 1000 "int (length content)"] receive_path_name [OF assms(1)] loop
    by (simp add: ftps_def)
qed

theorem multiple_of_256_arrives_empty_witness:
  "\<exists>msgs. ftpc 4 [97] (\<lambda>_. Some (replicate 512 7)) (\<lambda>_. True) = Inr msgs \<and>
    ftps True True (\<lambda>k. k) (map (Some \<circ> pad_block 1000) msgs) =
      Inr (bytes_of_string ''./receive/'' @ [97], 0, [])"
  by (rule multiple_of_256_arrives_empty [where content = "replicate 512 7" and k = 2]) (simp_all add: file_name_def)

text \<open>
  A name of 20 bytes or more leaves \<open>filename\<close> without a terminator: \<open>ftpc\<close> and the
  client of \<open>lab2\<close> read past it when they open the file. So does \<open>ftps\<close> for
  a name of 20 bytes or more in its first block.
\<close>

theorem long_name_faults:
  assumes "0 \<notin> set name" and "FILE_NAME_SIZE \<le> length name"
  shows "ftpc argc name fopen send_ok = Inl (if argc < 4 then Exit 1 else OutOfBounds) \<and>
    lab2_ftpc name fopen send_ok reply = Inl OutOfBounds \<and>
    (length header = 4 \<and> length name < 996 \<longrightarrow>
      ftps True True fwrite (Some (header @ name) # rs) = Inl OutOfBounds)"
proof -
  have "ftps True True fwrite (Some (header @ name) # rs) = Inl OutOfBounds"
    if h: "length header = 4" "length name < 996"
  proof -
    have p: "pad_block 1000 (header @ name) = header @ name @ replicate (996 - length name) 0"
      using h by (simp add: pad_block_def put_bytes_front)
    have "c_strlen (name @ replicate (996 - length name) 0) = Inr (length name)"
      using assms(1) h by (simp add: c_strlen_def c_string_replicate_zero)
    then have "read_information (replicate FILE_NAME_SIZE 0) (pad_block 1000 (header @ name)) =
        Inr (int_of_bytes header, take FILE_NAME_SIZE name)"
      unfolding p using h assms(2) by (simp add: read_information_def put_bytes_def)
    moreover have "c_str (take FILE_NAME_SIZE name) = Inl OutOfBounds"
      using assms(1) by (auto simp: c_str_def dest: in_set_takeD)
    ultimately show ?thesis
      by (simp add: ftps_def receive_path_def)
  qed
  then show ?thesis
    using c_str_long [OF assms] by (simp add: ftpc_def lab2_ftpc_def)
qed

theorem long_name_faults_witness:
  "ftpc 4 (replicate 20 97) (\<lambda>_. None) (\<lambda>_. True) = Inl OutOfBounds \<and>
    lab2_ftpc (replicate 20 97) (\<lambda>_. None) (\<lambda>_. True) 0 = Inl OutOfBounds \<and>
    ftps True True (\<lambda>k. k) [Some ([5, 0, 0, 0] @ replicate 20 97)] = Inl OutOfBounds"
  using long_name_faults [of "replicate 20 97" 4 "\<lambda>_. None" "\<lambda>_. True" 0 "[5, 0, 0, 0]" "\<lambda>k. k" "[]"]
  by simp

text \<open>
  C30: Over TCP, where \<open>recv\<close> gives the stream in any pieces, the loop of \<open>lab2/ftps.c\<close>
  writes the file that was sent. When the connection ends early, \<open>recv\<close> gives 0 bytes for
  ever and the loop stays where it is. When it is done, its answer reads 1024 bytes from an
  array of 40.
\<close>

theorem lab2_receives_stream:
  assumes "\<forall>k. fwrite k = k" and "\<forall>r \<in> set rs. r \<noteq> []"
  shows "lab2_loop fwrite (int (length (concat rs))) (map Some rs) [] = Inr (0, concat rs) \<and>
    (length (concat rs) < n \<longrightarrow> lab2_loop fwrite (int n) (map Some rs @ replicate k (Some [])) [] =
      Inr (int n - int (length (concat rs)), concat rs)) \<and>
    lab2_reply = Inl OutOfBounds"
proof -
  have stay: "lab2_loop fwrite m (replicate k (Some [])) content = Inr (m, content)" for m content
    using assms(1) by (induction k) (auto simp: Let_def)
  have "lab2_loop fwrite m (map Some rs @ replicate k (Some [])) content =
      Inr (m - int (length (concat rs)), content @ concat rs)" if "int (length (concat rs)) < m" for m content
    using that assms(2)
  proof (induction rs arbitrary: m content)
    case (Cons r rs)
    then show ?case
      using assms(1) Cons.IH [of "m - int (length r)" "content @ r"] by (auto simp: Let_def)
  qed (simp add: stay)
  from this [of "int n" "[]"] show ?thesis
    using lab2_loop_segments [OF assms, of "[]"]
    by (simp add: lab2_reply_def char_array_def bytes_of_string_def Let_def)
qed

theorem lab2_receives_stream_witness:
  "lab2_loop (\<lambda>k. k) 3 [Some [1], Some [2, 3]] [] = Inr (0, [1, 2, 3]) \<and>
    lab2_loop (\<lambda>k. k) 7 [Some [1], Some [2, 3], Some [], Some []] [] = Inr (4, [1, 2, 3]) \<and>
    lab2_reply = Inl OutOfBounds"
  using lab2_receives_stream [of "\<lambda>k. k" "[[1], [2, 3]]" 7 2] by (simp add: numeral_eq_Suc)

text \<open>The loop over \<open>t\<close> finds the name behind the last slash.\<close>

lemma last_slash_basename:
  "t \<le> length s \<Longrightarrow> drop (last_slash s t) (take t s) = rev (takeWhile (\<lambda>c. c \<noteq> 47) (rev (take t s)))"
proof (induction t)
  case (Suc t)
  then have "take (Suc t) s = take t s @ [s ! t]"
    by (simp add: take_Suc_conv_app_nth)
  moreover have "last_slash s t \<le> t"
    by (induction t) auto
  ultimately show ?case
    using Suc by (cases "s ! t = 47") auto
qed simp


end
