(* ===== verification/Startup.thy ===== *)
theory Startup
  imports FileTransfer
begin

text \<open>
  How the programs start: their arguments, the lookup of hosts, the sockets they open, the
  addresses they bind and send to, and the exit code of each failing call; \<open>main\<close> of
  \<open>tcpd.c\<close>, the start of \<open>client()\<close> and \<open>server()\<close>, the programs of \<open>lab2\<close> and \<open>project1\<close>,
  and \<open>SEND\<close> of \<open>lib.c\<close>. Whether a call succeeds, and the address of a host, are arguments.
\<close>

section \<open>Addresses\<close>

text \<open>A \<open>short\<close> in network byte order.\<close>

definition htons :: "u16 \<Rightarrow> u16" where
  "htons w = push_bit 8 w OR drop_bit 8 w"

record sockaddr_in =
  sin_family :: u16
  sin_port :: u16
  sin_addr :: u32

abbreviation AF_INET :: u16 where "AF_INET \<equiv> 2"
abbreviation INADDR_ANY :: u32 where "INADDR_ANY \<equiv> 0"
definition TCPDC_LOCAL_PORT :: u16 where [simp]: "TCPDC_LOCAL_PORT = 10002"
definition TROLLC_PORT :: u16 where [simp]: "TROLLC_PORT = 10003"
definition TCPDS_REMOTE_PORT :: u16 where [simp]: "TCPDS_REMOTE_PORT = 10004"
definition FTPS_PORT :: u16 where [simp]: "FTPS_PORT = 10005"
definition TROLLS_PORT :: u16 where [simp]: "TROLLS_PORT = 10006"
definition TCPDC_REMOTE_PORT :: u16 where [simp]: "TCPDC_REMOTE_PORT = 10007"

definition inet_address :: "u16 \<Rightarrow> u32 \<Rightarrow> sockaddr_in" where
  "inet_address port addr = \<lparr>sin_family = AF_INET, sin_port = htons port, sin_addr = addr\<rparr>"

text \<open>The header that the troll looks at has its family in network byte order.\<close>

definition troll_header :: "u16 \<Rightarrow> u32 \<Rightarrow> sockaddr_in" where
  "troll_header port addr = \<lparr>sin_family = htons AF_INET, sin_port = htons port, sin_addr = addr\<rparr>"

text \<open>A call that ends the program when it fails.\<close>

definition require :: "bool \<Rightarrow> int \<Rightarrow> fault + unit" where
  "require ok code = (if ok then Inr () else Inl (Exit code))"

lemma require_simps [simp]: "require True code = Inr ()" "require False code = Inl (Exit code)"
  by (simp_all add: require_def)

lemma require_eq_Inr: "require ok code = Inr u \<longleftrightarrow> ok"
  by (simp add: require_def)

section \<open>lab2\<close>

text \<open>
  \<open>memcpy ((char* ) &port, argv[k], sizeof (int))\<close>: the port is made of the characters of
  the argument and not of its digits.
\<close>

definition argument_port :: "byte list \<Rightarrow> fault + u16" where
  "argument_port argument =
    (let mem = argument @ [0]
     in if length mem < 4 then Inl OutOfBounds else Inr (word_of_int (int_of_bytes (take 4 mem))))"

definition lab2_ftpc_start ::
  "int \<Rightarrow> byte list \<Rightarrow> byte list \<Rightarrow> bool \<Rightarrow> (byte list \<Rightarrow> u32 option) \<Rightarrow> (sockaddr_in \<Rightarrow> bool) \<Rightarrow>
    fault + sockaddr_in"
where
  "lab2_ftpc_start argc host port socket_ok gethostbyname connect_ok =
    (if argc < 4 then Inl (Exit 1)
     else
       bindE (require socket_ok 1) (\<lambda>_.
       case gethostbyname host of
         None \<Rightarrow> Inl (Exit 2)
       | Some addr \<Rightarrow>
           bindE (argument_port port) (\<lambda>p.
           bindE (require (connect_ok (inet_address p addr)) 1) (\<lambda>_.
           Inr (inet_address p addr)))))"

definition lab2_ftps_start ::
  "int \<Rightarrow> byte list \<Rightarrow> bool \<Rightarrow> (sockaddr_in \<Rightarrow> bool) \<Rightarrow> bool \<Rightarrow> fault + sockaddr_in"
where
  "lab2_ftps_start argc port socket_ok bind_ok accept_ok =
    (if argc < 2 then Inl (Exit 1)
     else
       bindE (require socket_ok 1) (\<lambda>_.
       bindE (argument_port port) (\<lambda>p.
       bindE (require (bind_ok (inet_address p INADDR_ANY)) 1) (\<lambda>_.
       bindE (require accept_ok 1) (\<lambda>_.
       Inr (inet_address p INADDR_ANY))))))"

section \<open>project1: ftpc and ftps\<close>

definition ftpc_start :: "int \<Rightarrow> bool \<Rightarrow> fault + unit" where
  "ftpc_start argc socket_ok = (if argc < 4 then Inl (Exit 1) else require socket_ok 1)"

text \<open>The port that is copied from the argument is not used.\<close>

definition ftps_start :: "int \<Rightarrow> byte list \<Rightarrow> bool \<Rightarrow> (sockaddr_in \<Rightarrow> bool) \<Rightarrow> fault + sockaddr_in" where
  "ftps_start argc port socket_ok bind_ok =
    (if argc < 2 then Inl (Exit 1)
     else
       bindE (require socket_ok 1) (\<lambda>_.
       bindE (argument_port port) (\<lambda>_.
       bindE (require (bind_ok (inet_address FTPS_PORT INADDR_ANY)) 1) (\<lambda>_.
       Inr (inet_address FTPS_PORT INADDR_ANY)))))"

text \<open>\<open>SEND\<close> of \<open>lib.c\<close>: where the datagram goes, or \<open>None\<close> if \<open>sendto\<close> fails.\<close>

definition project_SEND ::
  "(byte list \<Rightarrow> u32 option) \<Rightarrow> (sockaddr_in \<Rightarrow> byte list \<Rightarrow> bool) \<Rightarrow> byte list \<Rightarrow>
    fault + (sockaddr_in \<times> byte list) option"
where
  "project_SEND gethostbyname sendto buffer =
    (case gethostbyname (bytes_of_string ''0'') of
       None \<Rightarrow> Inl (Exit 3)
     | Some addr \<Rightarrow>
         let destination = inet_address TCPDC_LOCAL_PORT addr
         in Inr (if sendto destination buffer then Some (destination, buffer) else None))"

text \<open>\<open>RECV\<close>: the datagram \<open>recvfrom\<close> gives, if the lookup before it succeeds.\<close>

definition project_RECV ::
  "(byte list \<Rightarrow> u32 option) \<Rightarrow> byte list option \<Rightarrow> fault + byte list option"
where
  "project_RECV gethostbyname received =
    (case gethostbyname (bytes_of_string ''127.0.0.1'') of
       None \<Rightarrow> Inl (Exit 3)
     | Some addr \<Rightarrow> Inr received)"

text \<open>The whole client: every block goes through \<open>SEND\<close>, a failure ends the program.\<close>

definition ftpc_main ::
  "int \<Rightarrow> bool \<Rightarrow> (byte list \<Rightarrow> u32 option) \<Rightarrow> (sockaddr_in \<Rightarrow> byte list \<Rightarrow> bool) \<Rightarrow>
    byte list \<Rightarrow> (byte list \<Rightarrow> byte list option) \<Rightarrow> fault + (sockaddr_in \<times> byte list) list"
where
  "ftpc_main argc socket_ok gethostbyname sendto argument fopen =
    bindE (ftpc_start argc socket_ok) (\<lambda>_.
    bindE (ftpc argc argument fopen (\<lambda>_. True)) (\<lambda>msgs.
    send_each (\<lambda>m. bindE (project_SEND gethostbyname sendto m) (\<lambda>sent.
      case sent of None \<Rightarrow> Inl (Exit 1) | Some d \<Rightarrow> Inr d)) msgs))"

section \<open>project1: tcpd\<close>

datatype role = Client | Server

text \<open>\<open>main\<close> of \<open>tcpd.c\<close>; without an argument \<open>argv[1]\<close> is the null pointer.\<close>

definition tcpd_role :: "byte list option \<Rightarrow> fault + role" where
  "tcpd_role arg =
    (case arg of
       None \<Rightarrow> Inl OutOfBounds
     | Some a \<Rightarrow>
         if a = bytes_of_string ''client'' then Inr Client
         else if a = bytes_of_string ''server'' then Inr Server
         else Inl (Exit 1))"

record driver_net =
  troll :: sockaddr_in             \<comment> \<open>where packets are sent\<close>
  packet_header :: sockaddr_in     \<comment> \<open>where the troll shall send them on\<close>
  ftpc_bound :: sockaddr_in
  troll_bound :: sockaddr_in

text \<open>
  The second lookup is not tested: the test repeats that of \<open>hp\<close>, and a host that is not
  found is a null pointer that is followed.
\<close>

definition driver_start ::
  "u32 option \<Rightarrow> u32 option \<Rightarrow> bool \<Rightarrow> bool \<Rightarrow> (sockaddr_in \<Rightarrow> bool) \<Rightarrow> bool \<Rightarrow> fault + driver_net"
where
  "driver_start hp hps ftpc_socket_ok troll_socket_ok bind_ok getsockname_ok =
    (case hp of
       None \<Rightarrow> Inl (Exit 3)
     | Some local \<Rightarrow>
         (case hps of
            None \<Rightarrow> Inl OutOfBounds
          | Some remote \<Rightarrow>
              let net = \<lparr>troll = inet_address TROLLC_PORT local,
                         packet_header = troll_header TCPDS_REMOTE_PORT remote,
                         ftpc_bound = inet_address TCPDC_LOCAL_PORT INADDR_ANY,
                         troll_bound = inet_address TCPDC_REMOTE_PORT INADDR_ANY\<rparr>
              in bindE (require ftpc_socket_ok 1) (\<lambda>_.
                 bindE (require troll_socket_ok 1) (\<lambda>_.
                 bindE (require (bind_ok (ftpc_bound net)) 1) (\<lambda>_.
                 bindE (require (bind_ok (troll_bound net)) 1) (\<lambda>_.
                 bindE (require getsockname_ok 3) (\<lambda>_.
                 Inr net)))))))"

record server_net =
  ack_troll :: sockaddr_in
  ack_header :: sockaddr_in
  ftps_addr :: sockaddr_in
  server_bound :: sockaddr_in

definition server_start ::
  "u32 option \<Rightarrow> u32 option \<Rightarrow> bool \<Rightarrow> (sockaddr_in \<Rightarrow> bool) \<Rightarrow> fault + server_net"
where
  "server_start hp hps socket_ok bind_ok =
    (case hp of
       None \<Rightarrow> Inl (Exit 3)
     | Some host \<Rightarrow>
         (case hps of
            None \<Rightarrow> Inl OutOfBounds
          | Some host2 \<Rightarrow>
              let net = \<lparr>ack_troll = inet_address TROLLS_PORT host2,
                         ack_header = troll_header TCPDC_REMOTE_PORT host,
                         ftps_addr = inet_address FTPS_PORT host,
                         server_bound = inet_address TCPDS_REMOTE_PORT INADDR_ANY\<rparr>
              in bindE (require socket_ok 1) (\<lambda>_.
                 bindE (require (bind_ok (server_bound net)) 1) (\<lambda>_.
                 Inr net))))"

section \<open>What a start that succeeds has done\<close>

lemma htons_htons [simp]: "htons (htons w) = w"
  by (rule bit_word_eqI) (auto simp: htons_def bit_simps)

lemma htons_eq [simp]: "htons v = htons w \<longleftrightarrow> v = w"
  by (metis htons_htons)

lemma driver_start_net:
  "driver_start hp hps a b bind_ok c = Inr net \<Longrightarrow>
    sin_port (packet_header net) = htons TCPDS_REMOTE_PORT \<and>
    sin_port (ftpc_bound net) = htons TCPDC_LOCAL_PORT \<and> sin_port (troll_bound net) = htons TCPDC_REMOTE_PORT \<and>
    bind_ok (ftpc_bound net) \<and> bind_ok (troll_bound net) \<and>
    hp = Some (sin_addr (troll net)) \<and> hps = Some (sin_addr (packet_header net))"
  by (auto simp: driver_start_def Let_def bindE_eq_Inr require_eq_Inr inet_address_def troll_header_def
      split: option.splits)

lemma server_start_net:
  "server_start hp hps a bind_ok = Inr net \<Longrightarrow>
    sin_port (ack_header net) = htons TCPDC_REMOTE_PORT \<and> sin_port (ftps_addr net) = htons FTPS_PORT \<and>
    sin_port (server_bound net) = htons TCPDS_REMOTE_PORT \<and> bind_ok (server_bound net)"
  by (auto simp: server_start_def Let_def bindE_eq_Inr require_eq_Inr inet_address_def troll_header_def
      split: option.splits)

lemma ftps_start_port:
  "ftps_start argc port a bind_ok = Inr addr \<Longrightarrow> sin_port addr = htons FTPS_PORT \<and> bind_ok addr"
  by (auto simp: ftps_start_def bindE_eq_Inr require_eq_Inr inet_address_def split: if_splits)

lemma send_each_all: "send_each f ms = Inr out \<Longrightarrow> list_all2 (\<lambda>m y. f m = Inr y) ms out"
  by (induction ms arbitrary: out) (auto simp: bindE_eq_Inr)

lemma ftpc_main_sent:
  assumes "ftpc_main argc a gethostbyname sendto argument fopen = Inr out"
  shows "ftpc argc argument fopen (\<lambda>_. True) = Inr (map snd out)"
    "\<forall>(to, m) \<in> set out. sin_port to = htons TCPDC_LOCAL_PORT \<and> sendto to m"
proof -
  define f where "f m = bindE (project_SEND gethostbyname sendto m) (\<lambda>sent.
      case sent of None \<Rightarrow> Inl (Exit 1) | Some d \<Rightarrow> Inr d)" for m
  obtain msgs where m: "ftpc argc argument fopen (\<lambda>_. True) = Inr msgs" "send_each f msgs = Inr out"
    using assms unfolding f_def by (auto simp: ftpc_main_def bindE_eq_Inr)
  have f: "f m = Inr y \<Longrightarrow> snd y = m \<and> sin_port (fst y) = htons TCPDC_LOCAL_PORT \<and> sendto (fst y) m" for m y
    by (auto simp: f_def project_SEND_def bindE_eq_Inr Let_def inet_address_def split: option.splits if_splits)
  have "list_all2 (\<lambda>m y. f m = Inr y) msgs out"
    by (rule send_each_all [OF m(2)])
  then have "map snd out = msgs \<and> (\<forall>(to, m) \<in> set out. sin_port to = htons TCPDC_LOCAL_PORT \<and> sendto to m)"
    by (induction msgs out rule: list_all2_induct) (auto dest!: f)
  with m(1) show "ftpc argc argument fopen (\<lambda>_. True) = Inr (map snd out)"
    "\<forall>(to, m) \<in> set out. sin_port to = htons TCPDC_LOCAL_PORT \<and> sendto to m"
    by auto
qed

text \<open>Only the first two characters count.\<close>

lemma argument_port_two:
  assumes "3 \<le> length argument"
  shows "argument_port argument = Inr (ucast (argument ! 0) OR push_bit 8 (ucast (argument ! 1)))"
proof -
  obtain a b c r where arg: "argument = a # b # c # r"
    using assms by (cases argument; cases "tl argument"; cases "tl (tl argument)") auto
  obtain d where "take 4 (argument @ [0]) = [a, b, c, d]"
    unfolding arg by (cases r) auto
  moreover have "word_of_int (sint (le_word [a, b, c, d] :: u32)) = (ucast a OR push_bit 8 (ucast b) :: u16)"
    unfolding le_word.simps by (rule bit_word_eqI) (auto simp: bit_simps dest: bit_imp_le_length)
  ultimately have "word_of_int (int_of_bytes (take 4 (argument @ [0]))) = (ucast a OR push_bit 8 (ucast b) :: u16)"
    by (simp only: int_of_bytes_def)
  then show ?thesis
    by (simp add: argument_port_def arg)
qed

lemma two_bytes_eq:
  "(ucast a OR push_bit 8 (ucast b) :: u16) = ucast c OR push_bit 8 (ucast d) \<longleftrightarrow> a = (c :: byte) \<and> b = (d :: byte)"
proof
  assume eq: "(ucast a OR push_bit 8 (ucast b) :: u16) = ucast c OR push_bit 8 (ucast d)"
  have "ucast (ucast x OR push_bit 8 (ucast y) :: u16) = x"
    "ucast (drop_bit 8 (ucast x OR push_bit 8 (ucast y) :: u16)) = y" for x y :: byte
    by (rule bit_word_eqI; auto simp: bit_simps dest: bit_imp_le_length)+
  note low_high = this
  show "a = c \<and> b = d"
    using arg_cong [OF eq, of "\<lambda>w. ucast w :: byte"] arg_cong [OF eq, of "\<lambda>w. ucast (drop_bit 8 w) :: byte"]
    unfolding low_high by (rule conjI)
qed simp

lemma take_two: "3 \<le> length p \<Longrightarrow> take 2 p = [p ! 0, p ! 1]"
  by (cases p; cases "tl p") auto

lemma send_each_map: "(\<And>m. m \<in> set ms \<Longrightarrow> f m = Inr (g m)) \<Longrightarrow> send_each f ms = Inr (map g ms)"
  by (induction ms) auto

lemma ftpc_main_runs:
  assumes "ftpc argc argument fopen (\<lambda>_. True) = Inr msgs" and "4 \<le> argc"
    and "gethostbyname (bytes_of_string ''0'') = Some addr"
  shows "ftpc_main argc True gethostbyname (\<lambda>_ _. True) argument fopen =
    Inr (map (Pair (inet_address TCPDC_LOCAL_PORT addr)) msgs)"
  using assms by (simp add: ftpc_main_def ftpc_start_def project_SEND_def Let_def send_each_map)

section \<open>Properties\<close>

text \<open>
  C18: The five sockets of a transfer are wired up: \<open>ftpc\<close> sends its blocks to the
  address the driver of \<open>tcpd\<close> is bound to, packets are marked for the server, the
  acknowledgements for the driver, and the server hands its blocks to \<open>ftps\<close>; the four
  bound ports are different.
\<close>

theorem ports_wired:
  assumes "driver_start hp hps a b bind_ok c = Inr d" and "server_start hp' hps' a' bind_ok' = Inr s"
    and "ftps_start n port a'' bind_ok'' = Inr f"
    and "ftpc_main argc a3 gethostbyname sendto argument fopen = Inr sent"
  shows "ftpc argc argument fopen (\<lambda>_. True) = Inr (map snd sent) \<and>
    (\<forall>(to, m) \<in> set sent. sin_port to = sin_port (ftpc_bound d)) \<and>
    sin_port (packet_header d) = sin_port (server_bound s) \<and>
    sin_port (ack_header s) = sin_port (troll_bound d) \<and>
    sin_port (ftps_addr s) = sin_port f \<and>
    distinct [sin_port (ftpc_bound d), sin_port (troll_bound d), sin_port (server_bound s), sin_port f]"
  using driver_start_net [OF assms(1)] server_start_net [OF assms(2)] ftps_start_port [OF assms(3)]
    ftpc_main_sent [OF assms(4)]
  by auto

theorem ports_wired_witness:
  "\<exists>d s f sent. driver_start (Some 1) (Some 2) True True (\<lambda>_. True) True = Inr d \<and>
    server_start (Some 2) (Some 2) True (\<lambda>_. True) = Inr s \<and>
    ftps_start 2 [49, 50, 51] True (\<lambda>_. True) = Inr f \<and>
    ftpc_main 4 True (\<lambda>_. Some 1) (\<lambda>_ _. True) [97] (\<lambda>_. Some [1, 2, 3]) = Inr sent \<and> sent \<noteq> [] \<and>
    sin_port (fst (hd sent)) = sin_port (ftpc_bound d)"
proof -
  obtain d where d: "driver_start (Some 1) (Some 2) True True (\<lambda>_. True) True = Inr d"
    by (simp add: driver_start_def Let_def)
  obtain s where s: "server_start (Some 2) (Some 2) True (\<lambda>_. True) = Inr s"
    by (simp add: server_start_def Let_def)
  obtain f where f: "ftps_start 2 [49, 50, 51] True (\<lambda>_. True) = Inr f"
    by (simp add: ftps_start_def argument_port_def)
  have "file_name [97]"
    by (simp add: file_name_def)
  then have "ftpc 4 [97] (\<lambda>_. Some [1, 2, 3]) (\<lambda>_. True) =
      Inr (file_information 1000 3 [97] # file_blocks 1000 [1, 2, 3])"
    by (simp add: ftpc_def c_str_set_filename send_all_def list_all_iff)
  from ftpc_main_runs [OF this, of "\<lambda>_. Some 1" 1]
  obtain sent where sent: "ftpc_main 4 True (\<lambda>_. Some 1) (\<lambda>_ _. True) [97] (\<lambda>_. Some [1, 2, 3]) = Inr sent"
    "sent \<noteq> []"
    by auto
  from ports_wired [OF d s f sent(1)] sent(2) have "sin_port (fst (hd sent)) = sin_port (ftpc_bound d)"
    by (cases sent) auto
  with d s f sent show ?thesis by blast
qed

text \<open>
  The port of \<open>lab2\<close> is what its first two characters are as a 16-bit number:
  client and server meet if and only if their arguments agree in these, whatever follows.
\<close>

theorem lab2_ports:
  assumes "lab2_ftpc_start argc host p a gethostbyname connect_ok = Inr to"
    and "lab2_ftps_start argc' q a' bind_ok accept_ok = Inr bound"
    and "3 \<le> length p" and "3 \<le> length q"
  shows "sin_port to = sin_port bound \<longleftrightarrow> take 2 p = take 2 q"
proof -
  have "argument_port p = Inr (htons (sin_port to))" "argument_port q = Inr (htons (sin_port bound))"
    using assms(1,2) by (auto simp: lab2_ftpc_start_def lab2_ftps_start_def bindE_eq_Inr inet_address_def
        split: if_splits option.splits)
  then have "htons (sin_port to) = ucast (p ! 0) OR push_bit 8 (ucast (p ! 1))"
    "htons (sin_port bound) = ucast (q ! 0) OR push_bit 8 (ucast (q ! 1))"
    using assms(3,4) by (simp_all add: argument_port_two)
  then have "htons (sin_port to) = htons (sin_port bound) \<longleftrightarrow> p ! 0 = q ! 0 \<and> p ! 1 = q ! 1"
    by (simp only: two_bytes_eq)
  then show ?thesis
    using assms(3,4) by (simp add: take_two)
qed

theorem lab2_ports_witness:
  "\<exists>to bound. lab2_ftpc_start 4 [] (bytes_of_string ''5000'') True (\<lambda>_. Some 1) (\<lambda>_. True) = Inr to \<and>
    lab2_ftps_start 2 (bytes_of_string ''5099'') True (\<lambda>_. True) True = Inr bound \<and> sin_port to = sin_port bound"
proof -
  obtain to where to: "lab2_ftpc_start 4 [] (bytes_of_string ''5000'') True (\<lambda>_. Some 1) (\<lambda>_. True) = Inr to"
    by (simp add: lab2_ftpc_start_def argument_port_def bytes_of_string_def)
  obtain bound where bound: "lab2_ftps_start 2 (bytes_of_string ''5099'') True (\<lambda>_. True) True = Inr bound"
    by (simp add: lab2_ftps_start_def argument_port_def bytes_of_string_def)
  from lab2_ports [OF to bound] have "sin_port to = sin_port bound"
    by (simp add: bytes_of_string_def)
  with to bound show ?thesis by blast
qed

end
