(* ===== verification/WholeTransfer.thy ===== *)
theory WholeTransfer
  imports EndToEnd FileTransfer
begin

text \<open>
  A file on its whole way: \<open>ftpc\<close>, the driver and the server of \<open>tcpd\<close> with the network
  between them, and \<open>ftps\<close>. The driver takes the datagrams of \<open>ftpc\<close>, the last of which
  may be short; what lies behind it in the buffer is sent with it and does not matter. The last part shows that such transfers exist.
\<close>

section \<open>ftps on blocks that carry a file\<close>

lemma ftps_loop_carried:
  assumes "n = BUFFSIZE" and "\<forall>k. fwrite k = k" and "list_all2 carries (file_blocks n xs) rs"
  shows "\<exists>m \<le> 0. ftps_loop fwrite (int (length xs)) (map Some rs) content = Inr (m, content @ xs)"
  using assms(1,3)
proof (induction n xs arbitrary: content rs rule: file_blocks.induct)
  case (1 n xs)
  show ?case
  proof (cases "xs = []")
    case True
    then show ?thesis using 1(3) by simp
  next
    case False
    have n: "0 < n" using 1(2) by simp
    then obtain r rs' where rs: "rs = r # rs'" "carries (take n xs) r" "list_all2 carries (file_blocks n (drop n xs)) rs'"
      using 1(3) False by (auto simp: file_blocks_Cons list_all2_Cons1)
    then have r: "length r = n" "take (min (length xs) n) r = take n xs"
      using 1(2) by (simp_all add: carries_def)
    obtain m where m: "m \<le> 0" "ftps_loop fwrite (int (length (drop n xs))) (map Some rs') (content @ take n xs) =
        Inr (m, content @ xs)"
      using 1(1) [of rs' "content @ take n xs"] False n 1(2) rs(3) by auto
    show ?thesis
    proof (cases "length xs \<le> n")
      case True
      then have "rs' = []" "take (length xs) r = xs"
        using rs(3) r(2) by simp_all
      with rs(1) r(1) True False assms(2) show ?thesis
        by (auto simp: Let_def)
    next
      case le: False
      then have "take n r = take n xs"
        using r by simp
      then have "ftps_loop fwrite (int (length xs)) (map Some rs) content =
          ftps_loop fwrite (int (length (drop n xs))) (map Some rs') (content @ take n xs)"
        using rs(1) r(1) le False assms(2) by (simp add: Let_def of_nat_diff)
      with m show ?thesis by auto
    qed
  qed
qed

lemma ftps_carried:
  assumes "file_name name" and "fopen name = Some content" and "\<forall>k. fwrite k = k"
    and "size_read (int (length content)) = int (length content)"
    and "ftpc argc name fopen sends = Inr msgs" and "list_all2 carries msgs rs"
  shows "\<exists>rest. ftps True True fwrite (map Some rs) =
    Inr (bytes_of_string ''./receive/'' @ name, rest, content) \<and> rest \<le> 0"
proof -
  let ?h = "file_information 1000 (int (length content)) name"
  have "msgs = ?h # file_blocks BUFFSIZE content"
    using assms(1,2,5) by (auto simp: ftpc_def c_str_set_filename send_all_def split: if_splits)
  then obtain r rs' where rs: "rs = r # rs'" "carries ?h r" "list_all2 carries (file_blocks BUFFSIZE content) rs'"
    using assms(6) by (auto simp: list_all2_Cons1)
  have "length ?h = 1000"
    by (rule length_file_information [OF assms(1)]) simp
  with rs(2) have r: "r = ?h"
    by (metis carries_def order_refl take_all)
  obtain m where "m \<le> 0" "ftps_loop fwrite (int (length content)) (map Some rs') [] = Inr (m, content)"
    using ftps_loop_carried [OF refl assms(3) rs(3), of "[]"] by auto
  moreover have "pad_block 1000 ?h = ?h"
    using length_file_information [OF assms(1), of 1000] by (simp add: pad_block_full)
  ultimately show ?thesis
    using read_file_information [OF assms(1), of 1000 "int (length content)"] receive_path_name [OF assms(1)]
    by (simp add: ftps_def rs(1) r assms(4))
qed

section \<open>Undisturbed transfers\<close>

definition arriving :: "byte list \<Rightarrow> driver_input" where
  "arriving b = block_arrives\<lparr>from_ftpc := Some (Some b)\<rparr>"

text \<open>The first 20 blocks are sent as they come; the slots behind them are empty.\<close>

definition first_blocks :: "driver_state \<Rightarrow> nat \<Rightarrow> bool" where
  "first_blocks s k \<longleftrightarrow> driver_inv s \<and> lar s = -1 \<and> lfs s = int k - 1 \<and> bufpos s = int k \<and>
    (\<forall>j. k \<le> j \<and> j < 64 \<longrightarrow> sendbuf s ! j = zero_block)"

text \<open>The stream is what the datagrams are in an empty buffer.\<close>

definition padded :: "(nat \<Rightarrow> byte list) \<Rightarrow> (nat \<Rightarrow> byte list) \<Rightarrow> bool" where
  "padded msg blk \<longleftrightarrow> (\<forall>k. length (msg k) \<le> BUFFSIZE \<and> put_bytes 0 (msg k) zero_block = blk k)"

lemma padded_whole: "\<forall>k. length (blk k) = BUFFSIZE \<Longrightarrow> padded blk blk"
  by (simp add: padded_def put_bytes_def zero_block_def)

lemma next_block_step:
  assumes "first_blocks s k" and "k < 20" and "length b \<le> BUFFSIZE"
  shows "\<exists>s' out. driver_step (arriving b) s = Inr (s', out) \<and> first_blocks s' (Suc k)"
proof -
  have inv: "driver_inv s" and f: "lar s = -1" "lfs s = int k - 1" "bufpos s = int k"
    and empty: "\<forall>j. k \<le> j \<and> j < 64 \<longrightarrow> sendbuf s ! j = zero_block"
    using assms(1) by (simp_all add: first_blocks_def)
  note len = driver_invD(2) [OF inv]
  define t where "t = s\<lparr>sendbuf := (sendbuf s)[k := put_bytes 0 b (sendbuf s ! k)], bufpos := int k + 1\<rparr>"
  have t: "ftpc_step (Some b) s = Inr t"
    using f assms(2,3) len by (simp add: ftpc_step_def can_store_def write_block_def Let_def t_def)
  have inv': "driver_inv t"
    using ftpc_step_frame [OF inv t] by simp
  have c: "can_send t"
    using f assms(2) by (simp add: can_send_def t_def)
  obtain v out where v: "send_next (\<lambda>_. True) \<lparr>tv_sec = 0, tv_usec = 0\<rparr> t = Inr (v, out)"
    using send_next_good [OF inv' c, of "\<lambda>_. True" "\<lparr>tv_sec = 0, tv_usec = 0\<rparr>"] by blast
  have "driver_step (arriving b) s = Inr (v\<lparr>packet := clear_packet (packet v)\<rparr>, out)"
    using t v by (simp add: driver_step_def arriving_def block_arrives_def)
  moreover have "first_blocks (v\<lparr>packet := clear_packet (packet v)\<rparr>) (Suc k)"
    using send_next_frame [OF inv' v] c f assms(2) empty by (simp add: first_blocks_def t_def next_lfs_def)
  ultimately show ?thesis by blast
qed

lemma undisturbed:
  assumes st: "is_stream blk" and pad: "padded msg blk" and "k \<le> 20"
  shows "\<exists>s out t sout K. transfer msg blk s k k {} out t k sout K \<and> first_blocks s k \<and> lfr t \<noteq> 63"
  using assms(3)
proof (induction k)
  case 0
  have "transfer msg blk empty_driver 0 0 {} [] (server_init (replicate header_size 0)) 0 [] {}"
    unfolding empty_driver_def by (rule transfer.start) (simp_all add: blocks_ok_replicate)
  moreover have "first_blocks empty_driver 0"
    using driver_inv_init [of "replicate 64 zero_block" "replicate packet_size 0" "replicate BUFFER_SIZE 0"]
    by (simp add: first_blocks_def empty_driver_def blocks_ok_replicate) (simp add: driver_init_def)
  moreover have "lfr (server_init (replicate header_size 0)) \<noteq> 63"
    by (simp add: server_init_def)
  ultimately show ?case by blast
next
  case (Suc k)
  then obtain s out t sout K where tr: "transfer msg blk s k k {} out t k sout K" "first_blocks s k" "lfr t \<noteq> 63"
    by auto
  have len: "length (msg k) \<le> BUFFSIZE"
    using pad by (simp add: padded_def)
  obtain s' out' where s': "driver_step (arriving (msg k)) s = Inr (s', out')" "first_blocks s' (Suc k)"
    using next_block_step [OF tr(2) _ len] Suc.prems by auto
  have moved: "bufpos s' \<noteq> bufpos s" "lfs s' \<noteq> lfs s"
    using s'(2) tr(2) by (simp_all add: first_blocks_def)
  have "ftpc_ok msg blk (arriving (msg k)) s k"
    using tr(2) pad Suc.prems
    by (simp add: ftpc_ok_def arriving_def first_blocks_def padded_def)
  note arrives = this
  have one: "transfer msg blk s' (Suc k) (Suc k) {} (out @ out') t k sout K"
    using transfer_driver [OF tr(1) _ arrives _ s'(1), of "{}"] moved
    by (simp add: timer_ok_def network_ack_def arriving_def block_arrives_def)
  have "sender_run msg blk s' (Suc k) (Suc k) {} (out @ out')"
    using transfer_invariant [OF one st] by simp
  from sender_run_inv [OF this st] obtain pkt where pkt: "Packet_out pkt \<in> set (out @ out')" "packet_of blk k pkt"
    by auto
  then obtain p now where p: "packet_ready p" "pkt = fill_packet p (int k mod 64) (blk k) now"
    by (auto simp: packet_of_def slot_def)
  have t: "server_ok t" "stream_inv blk (abs_recv t) k"
    using transfer_invariant [OF one st] by (simp_all add: transfer_inv_def)
  obtain t' n' a where step: "server_step all_sent t (Some pkt) = Inr (t', map To_ftps (map blk [k..<n']) @ [To_troll a])"
    and n': "k < n'" "stream_inv blk (abs_recv t') n'"
    using server_step_frame [OF st t(1) tr(3) t(2), of k p now] p by auto
  have "ftps_of (map To_ftps (map blk [k..<n']) @ [To_troll a]) = map blk [k..<n']"
    using ftps_of_map [of "\<lambda>b. b" "map blk [k..<n']"] by simp
  then obtain sout' where o: "server_step all_sent t (Some pkt) = Inr (t', sout')" "length (ftps_of sout') = n' - k"
    using step by simp
  obtain K' where two: "transfer msg blk s' (Suc k) (Suc k) {} (out @ out') t' n' (sout @ sout') K'"
    using transfer_server [OF one pkt(1) _ _ _ _ tr(3) o(1), of k] pkt(2) o(2) n'(1) by (auto simp: carried_def)
  have "{..<n'} \<subseteq> {..<Suc k}"
    using transfer_invariant [OF two st] by (simp add: transfer_inv_def received_def)
  then have "n' \<le> Suc k" by simp
  with n'(1) have n: "n' = Suc k" by simp
  moreover have "lfr t' \<noteq> 63"
    using n'(2) Suc.prems by (auto simp: stream_inv_def abs_recv_def n)
  ultimately show ?case
    using two s'(2) by blast
qed

text \<open>What \<open>ftps\<close> does with a stream that carries the messages of \<open>ftpc\<close>.\<close>

lemma delivered_file:
  assumes "transfer msg blk s R N A out t (length msgs) sout K" and "is_stream blk"
    and "ftpc argc name fopen sends = Inr msgs" and "\<forall>k < length msgs. msg k = msgs ! k"
    and "file_name name" and "fopen name = Some content" and "\<forall>k. fwrite k = k"
    and "size_read (int (length content)) = int (length content)"
  shows "\<exists>rest. ftps True True fwrite (map Some (ftps_of sout)) =
    Inr (bytes_of_string ''./receive/'' @ name, rest, content) \<and> rest \<le> 0"
proof -
  have run: "sender_run msg blk s R N A out" and t: "transfer_inv blk N A t (length msgs) sout K"
    using transfer_invariant [OF assms(1,2)] by simp_all
  have "{..<length msgs} \<subseteq> {..<N}" "N \<le> R"
    using t sender_run_inv [OF run assms(2)] by (auto simp: transfer_inv_def received_def out_inv_def)
  then have "carries (msg k) (blk k)" if "k < length msgs" for k
    using sender_run_carries [OF run assms(2), of k] that by simp
  moreover have "ftps_of sout = map blk [0..<length msgs]"
    using t by (simp add: transfer_inv_def)
  ultimately have "list_all2 carries msgs (ftps_of sout)"
    using assms(4) by (simp add: list_all2_conv_all_nth)
  from ftps_carried [OF assms(5-8,3) this] show ?thesis .
qed

text \<open>A file of three bytes named \<open>a\<close>: its messages, and the blocks they fill.\<close>

definition small_header :: "byte list" where
  "small_header = file_information 1000 3 [97]"

definition small_msg :: "nat \<Rightarrow> byte list" where
  "small_msg k = (if k = 0 then small_header else [1, 2, 3])"

definition small_stream :: "nat \<Rightarrow> byte list" where
  "small_stream k = put_bytes 0 (small_msg k) zero_block"

lemma small_file:
  "is_stream small_stream"
  "ftpc 4 [97] (\<lambda>_. Some [1, 2, 3]) (\<lambda>_. True) = Inr [small_header, [1, 2, 3]]"
  "\<forall>k < length [small_header, [1, 2, 3]]. small_msg k = [small_header, [1, 2, 3]] ! k"
  "file_name [97]" "padded small_msg small_stream"
proof -
  show name: "file_name [97]"
    by (simp add: file_name_def)
  show "ftpc 4 [97] (\<lambda>_. Some [1, 2, 3]) (\<lambda>_. True) = Inr [small_header, [1, 2, 3]]"
    using name by (simp add: ftpc_def c_str_set_filename send_all_def list_all_iff file_blocks_Cons small_header_def)
  have h: "length small_header = 1000"
    unfolding small_header_def by (rule length_file_information [OF name]) simp
  have "97 \<in> set small_header"
    by (simp add: small_header_def file_information_def put_bytes_def)
  moreover have "(97 :: byte) \<noteq> 0" by simp
  ultimately have "filled small_header"
    unfolding checkEmpty_iff by (metis in_set_replicate)
  moreover have "filled (put_bytes 0 [1, 2, 3] zero_block)"
    by (simp add: put_bytes_def and_255)
  moreover have "put_bytes 0 small_header zero_block = small_header"
    using h by (simp add: put_bytes_def zero_block_def)
  moreover have "length zero_block = BUFFSIZE"
    by (simp add: zero_block_def)
  ultimately show "is_stream small_stream"
    using h by (simp add: is_stream_def small_stream_def small_msg_def length_put_bytes)
  show "\<forall>k < length [small_header, [1, 2, 3]]. small_msg k = [small_header, [1, 2, 3]] ! k"
    by (simp add: small_msg_def less_Suc_eq)
  show "padded small_msg small_stream"
    using h by (simp add: padded_def small_stream_def small_msg_def)
qed

section \<open>Properties\<close>

text \<open>
  C2: A file arrives. When in a transfer the server has delivered as many blocks as \<open>ftpc\<close> has
  sent messages, \<open>ftps\<close> has written the file of \<open>ftpc\<close> under its name and left its loop, whatever
  the network has lost, repeated, delayed or damaged within the conditions of \<open>transfer_step\<close>:
  a frame, an acknowledgement or a request of the timer does not come so late that its
  number means another one, a frame comes within the window of the server, and the server has
  not stalled. The driver takes the datagrams of \<open>ftpc\<close> as they are; the last may be short, and
  its slot keeps the bytes behind it. Further, no slot taken is all zero (\<open>is_stream\<close>), the name
  has less than 20 bytes, \<open>fwrite\<close> writes all, and the size is one that \<open>ftps\<close> reads right:
  not, for example, a multiple of 256, see \<open>multiple_of_256_arrives_empty\<close>.
\<close>

theorem file_arrives:
  assumes "transfer msg blk s R N A out t (length msgs) sout K" and "is_stream blk"
    and "ftpc argc name fopen sends = Inr msgs" and "\<forall>k < length msgs. msg k = msgs ! k"
    and "file_name name" and "fopen name = Some content" and "\<forall>k. fwrite k = k"
    and "size_read (int (length content)) = int (length content)"
  shows "\<exists>rest. ftps True True fwrite (map Some (ftps_of sout)) =
    Inr (bytes_of_string ''./receive/'' @ name, rest, content) \<and> rest \<le> 0"
  using assms by (rule delivered_file)

theorem file_arrives_witness:
  "\<exists>s out t sout K rest. transfer small_msg small_stream s 2 2 {} out t 2 sout K \<and>
    ftps True True (\<lambda>k. k) (map Some (ftps_of sout)) =
      Inr (bytes_of_string ''./receive/'' @ [97], rest, [1, 2, 3]) \<and> rest \<le> 0"
proof -
  obtain s out t sout K where tr: "transfer small_msg small_stream s 2 2 {} out t (length [small_header, [1, 2, 3]]) sout K"
    using undisturbed [OF small_file(1,5), of 2] by (auto simp: numeral_2_eq_2)
  from file_arrives [OF this small_file(1-4), where fwrite = "\<lambda>k. k"]
  have "\<exists>rest. ftps True True (\<lambda>k. k) (map Some (ftps_of sout)) =
      Inr (bytes_of_string ''./receive/'' @ [97], rest, [1, 2, 3]) \<and> rest \<le> 0"
    by (simp add: size_read_small)
  moreover have "transfer small_msg small_stream s 2 2 {} out t 2 sout K"
    using tr by (simp add: numeral_2_eq_2)
  ultimately show ?thesis by blast
qed

end
