(* ===== verification/CountMatches.thy ===== *)
theory CountMatches
  imports CBase
begin

text \<open>
  \<open>lab1/count.c\<close>: counts how often a string occurs in a text file, which it reads in pieces
  of at most 1000 bytes or up to the end of a line. The file is the list of its bytes, the
  stream a position in it. The bound on the passes of the main loop is an argument.
\<close>

section \<open>The code\<close>

abbreviation STRLEN :: nat where "STRLEN \<equiv> 1001"

text \<open>\<open>fgets (str, n + 1, fin)\<close>: at most \<open>n\<close> bytes, up to and including a newline.\<close>

fun fgets :: "nat \<Rightarrow> byte list \<Rightarrow> byte list" where
  "fgets 0 r = []"
| "fgets (Suc n) [] = []"
| "fgets (Suc n) (x # r) = (if x = 10 then [x] else x # fgets n r)"

text \<open>\<open>fseek (fin, -len, SEEK_CUR)\<close> fails and does nothing before the start of the file.\<close>

definition fseek_back :: "nat \<Rightarrow> nat \<Rightarrow> nat" where
  "fseek_back len pos = (if len \<le> pos then pos - len else pos)"

text \<open>The inner loop of \<open>compare\<close> stops at the first difference or at an end, at this \<open>j\<close>.\<close>

fun compare_at :: "byte list \<Rightarrow> byte list \<Rightarrow> nat" where
  "compare_at (s # str) (t # target) = (if s \<noteq> t then 0 else Suc (compare_at str target))"
| "compare_at str target = 0"

fun compare_str :: "byte list \<Rightarrow> byte list \<Rightarrow> nat" where
  "compare_str [] target = 0"
| "compare_str (s # str) target =
    (if compare_at (s # str) target = length target then 1 else 0) + compare_str str target"

fun count_loop :: "nat \<Rightarrow> byte list \<Rightarrow> byte list \<Rightarrow> nat \<Rightarrow> nat \<Rightarrow> fault + (nat \<times> nat)" where
  "count_loop 0 fin target pos count = Inl Diverges"
| "count_loop (Suc fuel) fin target pos count =
    (let chunk = fgets (STRLEN - 1) (drop pos fin);
         pos = pos + length chunk;
         str = c_string chunk
     in if chunk = [] then Inr (pos, count)
        else if length str = 1 then count_loop fuel fin target pos count
        else
          let c = compare_str str target;
              count = count + c
          in if c = 0 \<and> length str = STRLEN - 1
             then count_loop fuel fin target (fseek_back (length target) pos) count
             else count_loop fuel fin target pos count)"

text \<open>
  \<open>main\<close>: the files as \<open>fopen\<close> gives them, \<open>None\<close> if one cannot be opened; the size and
  the count that are printed.
\<close>

definition count_main ::
  "nat \<Rightarrow> nat \<Rightarrow> byte list option \<Rightarrow> byte list \<Rightarrow> unit option \<Rightarrow> fault + (nat \<times> nat)"
where
  "count_main fuel number_of_args fin target fout =
    (if number_of_args \<noteq> 4 then Inl (Exit (-1))
     else case fin of
       None \<Rightarrow> Inl (Exit (-1))
     | Some fin \<Rightarrow> (case fout of None \<Rightarrow> Inl (Exit (-1)) | Some _ \<Rightarrow> count_loop fuel fin target 0 0))"

section \<open>Occurrences\<close>

definition occurrences :: "byte list \<Rightarrow> byte list \<Rightarrow> nat" where
  "occurrences t f = card {i. i < length f \<and> take (length t) (drop i f) = t}"

lemma occurrences_Nil [simp]: "occurrences t [] = 0"
  by (simp add: occurrences_def)

lemma occurrences_Cons:
  "occurrences t (x # f) = (if take (length t) (x # f) = t then 1 else 0) + occurrences t f"
proof -
  let ?A = "{i. i < length f \<and> take (length t) (drop i f) = t}"
  have "{i. i < length (x # f) \<and> take (length t) (drop i (x # f)) = t} =
      (if take (length t) (x # f) = t then {0} else {}) \<union> Suc ` ?A"
    by (auto simp: image_iff less_Suc_eq_0_disj)
  moreover have "card ((if take (length t) (x # f) = t then {0} else {}) \<union> Suc ` ?A) =
      (if take (length t) (x # f) = t then 1 else 0) + card ?A"
    by (subst card_Un_disjoint) (auto simp: card_image)
  ultimately show ?thesis
    by (simp add: occurrences_def)
qed

lemma compare_at_take: "compare_at s t = length t \<longleftrightarrow> take (length t) s = t"
  by (induction s t rule: compare_at.induct) auto

lemma compare_at_le: "compare_at s t \<le> length t"
  by (induction s t rule: compare_at.induct) auto

lemma compare_str_occurrences: "compare_str s t = occurrences t s"
  by (induction s) (simp_all only: compare_str.simps occurrences_Nil occurrences_Cons compare_at_take)

lemma occurrences_short: "length f < length t \<Longrightarrow> occurrences t f = 0"
  by (auto simp: occurrences_def)

text \<open>A string without newlines does not occur across the end of a line.\<close>

lemma occurrences_line:
  assumes "10 \<notin> set t" and "t \<noteq> []"
  shows "occurrences t (l @ 10 # r) = occurrences t (l @ [10]) + occurrences t r"
proof (induction l)
  case Nil
  have "take (length t) (10 # f) \<noteq> t" for f
    using assms by (cases t) auto
  then show ?case by (simp add: occurrences_Cons)
next
  case (Cons x l)
  have "take (length t) (x # l @ 10 # r) = t \<longleftrightarrow> take (length t) (x # l @ [10]) = t"
  proof (cases "length t \<le> Suc (length l)")
    case True
    then have "take (length t) ((x # l) @ 10 # r) = take (length t) (x # l)"
      "take (length t) ((x # l) @ [10]) = take (length t) (x # l)"
      by (simp_all only: take_append) simp_all
    then show ?thesis by simp
  next
    case False
    have "10 \<in> set (take (length t) ((x # l) @ 10 # r'))" for r'
      using False assms(2) by (simp add: take_Cons' Suc_diff_le)
    then have "take (length t) (x # l @ 10 # r') \<noteq> t" for r'
      using assms(1) by (metis append_Cons)
    then show ?thesis by simp
  qed
  with Cons show ?case
    by (simp add: occurrences_Cons)
qed

section \<open>Reading a line\<close>

lemma fgets_line: "10 \<notin> set l \<Longrightarrow> length l < n \<Longrightarrow> fgets n (l @ 10 # r) = l @ [10]"
proof (induction l arbitrary: n)
  case Nil
  then show ?case by (cases n) auto
next
  case (Cons x l)
  then show ?case by (cases n) auto
qed

lemma fgets_take: "10 \<notin> set (take n r) \<Longrightarrow> fgets n r = take n r"
  by (induction n r rule: fgets.induct) auto

lemma length_fgets: "length (fgets n r) \<le> n"
  by (induction n r rule: fgets.induct) auto

lemma fgets_Nil: "fgets n r = [] \<longleftrightarrow> n = 0 \<or> r = []"
  by (induction n r rule: fgets.induct) auto

lemma fgets_prefix: "\<exists>r'. r = fgets n r @ r'"
  by (induction n r rule: fgets.induct) auto

lemma length_fgets_file: "length (fgets n r) \<le> length r"
  using fgets_prefix [of r n] by (metis length_append le_add1)

section \<open>The main loop\<close>

text \<open>Every line, with its newline, has less than 1000 bytes.\<close>

definition short_lines :: "byte list \<Rightarrow> bool" where
  "short_lines f \<longleftrightarrow> (\<forall>p l r. f = p @ l @ r \<longrightarrow> 10 \<notin> set l \<longrightarrow> length l < 999)"

lemma count_loop_step:
  assumes "chunk = fgets 1000 (drop pos f)" and "chunk \<noteq> []" and "0 \<notin> set chunk"
    and "length chunk < 1000" and "length chunk = 1 \<Longrightarrow> occurrences t chunk = 0"
  shows "count_loop (Suc fuel) f t pos c = count_loop fuel f t (pos + length chunk) (c + occurrences t chunk)"
  using assms by (simp add: Let_def compare_str_occurrences c_string_all_nonzero)

lemma count_loop_end: "count_loop (Suc fuel) f t (length f) c = Inr (length f, c)"
  by (simp add: Let_def fgets_Nil)

declare count_loop.simps(2) [simp del]

lemma short_lines_append: "short_lines (p @ r) \<Longrightarrow> short_lines r"
  unfolding short_lines_def by (metis append_assoc)

text \<open>
  What follows the last newline. If this is one byte alone, it is taken for an empty line and
  skipped, and a string of this one byte is not found there.
\<close>

definition last_line :: "byte list \<Rightarrow> byte list" where
  "last_line f = rev (takeWhile (\<lambda>x. x \<noteq> 10) (rev f))"

definition skipped :: "byte list \<Rightarrow> byte list \<Rightarrow> nat" where
  "skipped t f = (if length t = 1 \<and> last_line f = t then 1 else 0)"

lemma last_line_whole: "10 \<notin> set l \<Longrightarrow> last_line l = l"
proof -
  assume "10 \<notin> set l"
  then have "takeWhile (\<lambda>x. x \<noteq> 10) (rev l) = rev l"
    by (subst takeWhile_eq_all_conv) auto
  then show ?thesis
    by (simp only: last_line_def rev_rev_ident)
qed

lemma last_line_append: "last_line (l @ 10 # r) = last_line r"
  by (cases "10 \<in> set r") (auto simp: last_line_def takeWhile_append1 takeWhile_tail takeWhile_append2)

lemma count_loop_exact:
  assumes "10 \<notin> set t" and "t \<noteq> []"
    and "short_lines r" and "0 \<notin> set r" and "length r < fuel"
  shows "\<exists>n. count_loop fuel (p @ r) t (length p) c = Inr (length (p @ r), c + n) \<and>
    n + skipped t r = occurrences t r"
  using assms(3-)
proof (induction r arbitrary: p fuel c rule: length_induct)
  case (1 r)
  obtain fuel' where fuel: "fuel = Suc fuel'"
    using 1(4) by (cases fuel) auto
  define l where "l = takeWhile (\<lambda>x. x \<noteq> 10) r"
  have l: "10 \<notin> set l"
    unfolding l_def by (auto dest: set_takeWhileD)
  show ?case
  proof (cases "dropWhile (\<lambda>x. x \<noteq> 10) r")
    case Nil
    then have rl: "r = l"
      unfolding l_def by (simp add: takeWhile_eq_all_conv [THEN iffD2])
    have len: "length r < 999"
      using 1(2) l unfolding rl short_lines_def by (metis append_Nil append_Nil2)
    show ?thesis
    proof (cases "r = []")
      case True
      then show ?thesis
        using fuel assms(2) count_loop_end [of fuel' p t c] last_line_whole [of "[]"] by (simp add: skipped_def)
    next
      case False
      have chunk: "fgets 1000 r = r"
        using l len rl by (subst fgets_take) (auto dest: in_set_takeD)
      have skip: "skipped t r = (if r = t \<and> length r = 1 then 1 else 0)"
        using last_line_whole l rl by (auto simp: skipped_def)
      have "count_loop fuel (p @ r) t (length p) c =
          count_loop fuel' (p @ r) t (length p + length r) (c + (occurrences t r - skipped t r)) \<and>
        skipped t r \<le> occurrences t r"
      proof (cases "length r = 1")
        case True
        then obtain x where x: "r = [x]"
          by (auto simp: length_Suc_conv)
        have "occurrences t r = (if r = t then 1 else 0)"
          using assms(2) by (cases t) (auto simp: x occurrences_Cons)
        moreover have "count_loop fuel (p @ r) t (length p) c = count_loop fuel' (p @ r) t (length p + length r) c"
          using 1(3) True \<open>r \<noteq> []\<close> by (simp add: fuel count_loop.simps(2) chunk c_string_all_nonzero Let_def)
        ultimately show ?thesis
          using True by (simp add: skip)
      next
        case False
        with \<open>r \<noteq> []\<close> len 1(3) show ?thesis
          unfolding fuel by (subst count_loop_step [of r]) (simp_all add: chunk skip)
      qed
      moreover obtain g where "fuel' = Suc g"
        using 1(4) fuel False by (cases fuel') auto
      ultimately show ?thesis
        using count_loop_end [of _ "p @ r" t] by (intro exI [of _ "occurrences t r - skipped t r"]) simp
    qed
  next
    case (Cons x r')
    then have "x = 10"
      by (auto simp: dropWhile_eq_Cons_conv)
    then have rl: "r = l @ 10 # r'"
      using Cons takeWhile_dropWhile_id [of "\<lambda>x. x \<noteq> 10" r] by (simp add: l_def)
    have len: "length l < 999"
      using 1(2) l unfolding rl short_lines_def by (metis append_Nil)
    have chunk: "fgets 1000 r = l @ [10]"
      using l len unfolding rl by (intro fgets_line) auto
    have one: "occurrences t (l @ [10]) = 0" if "length (l @ [10]) = 1"
      using that assms(1,2) by (cases t) (auto simp: occurrences_Cons)
    have rest: "short_lines r'" "0 \<notin> set r'"
      using 1(2,3) short_lines_append [of "l @ [10]" r'] by (auto simp: rl)
    have "count_loop fuel (p @ r) t (length p) c =
        count_loop fuel' (p @ r) t (length p + length (l @ [10])) (c + occurrences t (l @ [10]))"
      unfolding fuel using len 1(3) one by (intro count_loop_step) (use rl chunk in simp_all)
    moreover obtain n where "count_loop fuel' (p @ r) t (length p + length (l @ [10])) (c + occurrences t (l @ [10])) =
        Inr (length (p @ r), c + occurrences t (l @ [10]) + n)" "n + skipped t r' = occurrences t r'"
      using 1(1) [rule_format, OF _ rest, of fuel' "p @ l @ [10]" "c + occurrences t (l @ [10])"] 1(4) fuel
      by (auto simp: rl)
    moreover have "skipped t r = skipped t r'"
      by (simp add: skipped_def rl last_line_append)
    ultimately show ?thesis
      using occurrences_line [OF assms(1,2), of l r'] by (simp add: rl)
  qed
qed

lemma skipped_not: "10 \<notin> set t \<Longrightarrow> f = [] \<or> last f = 10 \<or> 2 \<le> length t \<Longrightarrow> skipped t f = 0"
  by (cases f rule: rev_cases) (auto simp: skipped_def last_line_def)

lemma count_loop_counts:
  assumes "10 \<notin> set t" and "t \<noteq> []"
    and "short_lines r" and "0 \<notin> set r" and "r = [] \<or> last r = 10 \<or> 2 \<le> length t" and "length r < fuel"
  shows "count_loop fuel (p @ r) t (length p) c = Inr (length (p @ r), c + occurrences t r)"
  using count_loop_exact [OF assms(1-4,6)] skipped_not [OF assms(1,5)] by auto

text \<open>The occurrences across a place in the file.\<close>

definition crossing :: "byte list \<Rightarrow> byte list \<Rightarrow> byte list \<Rightarrow> nat" where
  "crossing t p r =
    card {i. i < length p \<and> length p < i + length t \<and> take (length t) (drop i (p @ r)) = t}"

lemma occurrences_append:
  assumes "t \<noteq> []"
  shows "occurrences t (p @ r) = occurrences t p + crossing t p r + occurrences t r"
proof -
  let ?m = "\<lambda>i f. take (length t) (drop i f) = t"
  let ?P = "{i. i < length p \<and> ?m i p}" and ?R = "{i. i < length r \<and> ?m i r}"
    and ?C = "{i. i < length p \<and> length p < i + length t \<and> ?m i (p @ r)}"
  have inside: "?m i (p @ r) \<longleftrightarrow> ?m i p" if "i + length t \<le> length p" for i
    using that by simp
  have len: "i + length t \<le> length p" if "?m i p" "i < length p" for i
    using arg_cong [OF that(1), of length] that(2) by simp
  have "{i. i < length (p @ r) \<and> ?m i (p @ r)} = ?P \<union> (?C \<union> (\<lambda>i. length p + i) ` ?R)"
  proof (intro set_eqI iffI)
    fix i
    assume i: "i \<in> {i. i < length (p @ r) \<and> ?m i (p @ r)}"
    show "i \<in> ?P \<union> (?C \<union> (\<lambda>i. length p + i) ` ?R)"
    proof (cases "i < length p")
      case True
      then show ?thesis using i inside [of i] by (cases "i + length t \<le> length p") auto
    next
      case False
      then have "i = length p + (i - length p)" by simp
      moreover have "i - length p \<in> ?R" using i False by auto
      ultimately show ?thesis by blast
    qed
  next
    fix i
    assume i: "i \<in> ?P \<union> (?C \<union> (\<lambda>i. length p + i) ` ?R)"
    have "?m i (p @ r) \<and> i < length (p @ r)" if "i \<in> ?P"
    proof -
      have "i + length t \<le> length p" using that len by blast
      with that inside [of i] show ?thesis by simp
    qed
    with i show "i \<in> {i. i < length (p @ r) \<and> ?m i (p @ r)}"
      by auto
  qed
  moreover have "?P \<inter> (?C \<union> (\<lambda>i. length p + i) ` ?R) = {}" "?C \<inter> (\<lambda>i. length p + i) ` ?R = {}"
    using len by fastforce+
  moreover have "card ((\<lambda>i. length p + i) ` ?R) = card ?R"
    by (intro card_image) simp
  ultimately show ?thesis
    by (simp add: occurrences_def crossing_def card_Un_disjoint)
qed

lemma length_c_string: "length (c_string s) \<le> length s"
  unfolding c_string_def by (rule length_takeWhile_le)

lemma count_loop_ends:
  assumes "length t < 1000" and "pos \<le> length f" and "length f - pos < fuel"
  shows "\<exists>r. count_loop fuel f t pos c = Inr r"
  using assms(2,3)
proof (induction fuel arbitrary: pos c)
  case (Suc fuel)
  define chunk where "chunk = fgets 1000 (drop pos f)"
  show ?case
  proof (cases "chunk = []")
    case True
    then show ?thesis
      by (simp add: count_loop.simps(2) chunk_def [symmetric] Let_def)
  next
    case False
    have len: "0 < length chunk" "pos + length chunk \<le> length f" "length chunk \<le> 1000"
      using False length_fgets_file [of 1000 "drop pos f"] length_fgets [of 1000 "drop pos f"] Suc.prems(1)
      by (auto simp: chunk_def)
    have IH: "\<exists>r. count_loop fuel f t pos' c' = Inr r" if "pos < pos'" "pos' \<le> length f" for pos' c'
      by (rule Suc.IH) (use Suc.prems that in linarith)+
    have "pos < fseek_back (length t) (pos + length chunk)" "fseek_back (length t) (pos + length chunk) \<le> length f"
      if "length (c_string chunk) = 1000"
      using that length_c_string [of chunk] len assms(1) by (auto simp: fseek_back_def)
    with IH len show ?thesis
      using False by (simp add: count_loop.simps(2) chunk_def [symmetric] Let_def)
  qed
qed simp

section \<open>Properties\<close>

text \<open>
  C17: On a file without zero bytes whose lines, with their newlines, have less than 1000 bytes,
  and for a nonempty string without a newline, \<open>count\<close> prints the size of the file and the number
  of places at which the string occurs, with one exception: if the file does not end with a
  newline and its last line is one byte, this line is taken for an empty one, and if the
  string is this byte, this place is not counted.
\<close>

theorem count_correct:
  assumes "short_lines f" and "0 \<notin> set f" and "10 \<notin> set target" and "target \<noteq> []"
    and "length f < fuel"
  shows "\<exists>n. count_main fuel 4 (Some f) target (Some ()) = Inr (length f, n) \<and>
    n + (if length target = 1 \<and> last_line f = target then 1 else 0) = occurrences target f"
  using count_loop_exact [OF assms(3,4,1,2,5), of "[]" 0] by (simp add: count_main_def skipped_def)

lemma short_lines_short: "length f < 999 \<Longrightarrow> short_lines f"
  unfolding short_lines_def by auto

theorem count_correct_witness:
  "count_main 10 4 (Some (bytes_of_string ''abab'' @ [10])) (bytes_of_string ''ab'') (Some ()) = Inr (5, 2) \<and>
    count_main 10 4 (Some (bytes_of_string ''a'')) (bytes_of_string ''a'') (Some ()) = Inr (1, 0)"
proof -
  have "occurrences [97, 98] ([97, 98, 97, 98, 10] :: byte list) = 2" "occurrences [97] ([97] :: byte list) = 1"
    by (simp_all add: occurrences_Cons)
  with count_correct [of "[97, 98, 97, 98, 10]" "[97, 98]" 10] count_correct [of "[97]" "[97]" 10] show ?thesis
    by (simp add: bytes_of_string_def short_lines_short last_line_def)
qed

text \<open>
  C25: With a search string of less than 1000 bytes \<open>count\<close> ends for every file, after at
  most one pass for each byte; with one of 1000 bytes it never ends on a file that starts
  with 1000 bytes without a newline among which the string does not occur.
\<close>

theorem count_terminates:
  "(length target < 1000 \<longrightarrow> (\<exists>r. count_main (Suc (length f)) 4 (Some f) target (Some ()) = Inr r)) \<and>
   (length target = 1000 \<and> 1000 \<le> length f \<and> 10 \<notin> set (take 1000 f) \<and> 0 \<notin> set (take 1000 f) \<and>
     occurrences target (take 1000 f) = 0 \<longrightarrow> count_main fuel 4 (Some f) target (Some ()) = Inl Diverges)"
proof -
  have "count_loop fuel f target 0 c = Inl Diverges"
    if "length target = 1000" "1000 \<le> length f" "10 \<notin> set (take 1000 f)" "0 \<notin> set (take 1000 f)"
      "occurrences target (take 1000 f) = 0" for fuel c
  proof (induction fuel)
    case (Suc fuel)
    have "fgets 1000 f = take 1000 f" "c_string (take 1000 f) = take 1000 f"
      using that(3,4) by (simp_all add: fgets_take c_string_all_nonzero)
    with that Suc show ?case
      by (auto simp: count_loop.simps(2) Let_def compare_str_occurrences fseek_back_def)
  qed simp
  then show ?thesis
    using count_loop_ends [of target 0 f "Suc (length f)" 0] by (auto simp: count_main_def)
qed

theorem count_terminates_witness:
  "(\<exists>r. count_main 1001 4 (Some (replicate 1000 97)) [98] (Some ()) = Inr r) \<and>
    count_main 5 4 (Some (replicate 1000 97)) (replicate 1000 98) (Some ()) = Inl Diverges"
proof -
  have "occurrences (replicate 1000 98) (replicate 1000 97 :: byte list) = 0"
  proof -
    have "take 1000 (drop i (replicate 1000 97)) \<noteq> (replicate 1000 98 :: byte list)" for i
    proof
      assume "take 1000 (drop i (replicate 1000 97)) = (replicate 1000 98 :: byte list)"
      moreover have "(98 :: byte) \<in> set (replicate 1000 98)"
        by simp
      ultimately have "(98 :: byte) \<in> set (replicate 1000 97)"
        by (metis in_set_dropD in_set_takeD)
      then show False by simp
    qed
    then show ?thesis by (simp add: occurrences_def)
  qed
  then show ?thesis
    using count_terminates [of "[98]" "replicate 1000 97" 5]
      count_terminates [of "replicate 1000 98" "replicate 1000 97" 5] by simp
qed

text \<open>
  If the first 1000 bytes are part of one line, and the string occurs in them, the
  reading goes on behind them: the occurrences across this place are not counted, all others
  are.
\<close>

theorem count_misses_crossing:
  assumes "length p = 1000" and "10 \<notin> set p" and "0 \<notin> set p" and "0 < occurrences target p"
    and "10 \<notin> set target" and "target \<noteq> []"
    and "short_lines r" and "0 \<notin> set r" and "r = [] \<or> last r = 10 \<or> 2 \<le> length target"
    and "length r < fuel"
  shows "\<exists>n. count_main (Suc fuel) 4 (Some (p @ r)) target (Some ()) = Inr (length (p @ r), n) \<and>
    n + crossing target p r = occurrences target (p @ r)"
proof -
  have "fgets 1000 (p @ r) = p"
    using assms(1,2) by (subst fgets_take) simp_all
  then have "count_loop (Suc fuel) (p @ r) target 0 0 =
      count_loop fuel (p @ r) target (length p) (occurrences target p)"
    using assms(1,3,4)
    by (auto simp: count_loop.simps(2) Let_def compare_str_occurrences c_string_all_nonzero)
  with count_loop_counts [OF assms(5-10), of p "occurrences target p"] show ?thesis
    by (simp add: count_main_def occurrences_append [OF assms(6)])
qed

theorem count_misses_crossing_witness:
  "\<exists>n. count_main 3 4 (Some ((97 # 98 # replicate 998 97) @ [98])) [97, 98] (Some ()) = Inr (1001, n) \<and>
    n + crossing [97, 98] (97 # 98 # replicate 998 97) [98] = occurrences [97, 98] ((97 # 98 # replicate 998 97) @ [98])"
proof -
  have "0 < occurrences [97, 98] (97 # 98 # replicate 998 (97 :: byte))"
    by (simp add: occurrences_Cons)
  moreover have "short_lines [98]"
    unfolding short_lines_def
  proof (intro allI impI)
    fix p l r :: "byte list"
    assume "[98] = p @ l @ r"
    then have "length ([98] :: byte list) = length (p @ l @ r)"
      by (rule arg_cong)
    then show "length l < 999" by simp
  qed
  ultimately show ?thesis
    using count_misses_crossing [of "97 # 98 # replicate 998 97" "[97, 98]" "[98]" 2] by auto
qed

end
