(* ===== verification/TrafficSource.thy ===== *)
theory TrafficSource
  imports CBase
begin

text \<open>
  The sending applications of the ns-3 simulations: \<open>WriteUntilBufferFull\<close> and
  \<open>StartFlow\<close> of \<open>proj2/myproj2.cc\<close>, which write 1000000 bytes of a repeated pattern,
  and \<open>MyApp\<close> of \<open>lab5/tcpchain.cc\<close>, which sends packets at a rate. The socket is a
  parameter, with its state: what \<open>GetTxAvailable\<close> answers and what \<open>Send\<close> returns.
  The topologies that the two \<open>main\<close> functions set up are calls of the simulator.
\<close>

section \<open>Writing until the buffer is full\<close>

abbreviation totalTxBytes :: nat where "totalTxBytes \<equiv> 1000000"
abbreviation writeSize :: nat where "writeSize \<equiv> 1040"

text \<open>The array \<open>data\<close> as \<open>main\<close> fills it.\<close>

definition data :: "byte list" where
  "data = map (\<lambda>i. word_of_nat (97 + i mod 26)) [0..<writeSize]"

record 's flow =
  currentTxBytes :: nat
  socket :: 's
  sent :: "byte list"      \<comment> \<open>the bytes \<open>Send\<close> has accepted\<close>
  closed :: nat            \<comment> \<open>the calls of \<open>Close\<close>\<close>

definition next_block :: "('s \<Rightarrow> nat) \<Rightarrow> 's flow \<Rightarrow> byte list" where
  "next_block avail f =
    (let left = totalTxBytes - currentTxBytes f;
         dataOffset = currentTxBytes f mod writeSize;
         toWrite = writeSize - dataOffset;
         toWrite = min toWrite left;
         toWrite = min toWrite (avail (socket f))
     in get_bytes dataOffset toWrite data)"

definition write_once ::
  "('s \<Rightarrow> nat) \<Rightarrow> (byte list \<Rightarrow> 's \<Rightarrow> int \<times> 's) \<Rightarrow> 's flow \<Rightarrow> bool \<times> 's flow"
where
  "write_once avail send f =
    (let block = next_block avail f;
         amountSent = fst (send block (socket f));
         f' = f\<lparr>socket := snd (send block (socket f))\<rparr>
     in if amountSent < 0 then (True, f')
        else (False, f'\<lparr>currentTxBytes := currentTxBytes f + nat amountSent,
                sent := sent f @ take (nat amountSent) block\<rparr>))"

primrec write_until_full ::
  "nat \<Rightarrow> ('s \<Rightarrow> nat) \<Rightarrow> (byte list \<Rightarrow> 's \<Rightarrow> int \<times> 's) \<Rightarrow> 's flow \<Rightarrow> fault + 's flow"
where
  "write_until_full 0 avail send f = Inl Diverges"
| "write_until_full (Suc fuel) avail send f =
    (if currentTxBytes f < totalTxBytes \<and> avail (socket f) > 0 then
       if fst (write_once avail send f) then Inr (snd (write_once avail send f))
       else write_until_full fuel avail send (snd (write_once avail send f))
     else Inr (f\<lparr>closed := Suc (closed f)\<rparr>))"

text \<open>The first call by \<open>StartFlow\<close> and one for each notice of new space in the buffer.\<close>

primrec flow_calls ::
  "('s \<Rightarrow> 's) list \<Rightarrow> nat \<Rightarrow> ('s \<Rightarrow> nat) \<Rightarrow> (byte list \<Rightarrow> 's \<Rightarrow> int \<times> 's) \<Rightarrow> 's flow \<Rightarrow> fault + 's flow"
where
  "flow_calls [] fuel avail send f = Inr f"
| "flow_calls (event # events) fuel avail send f =
    bindE (write_until_full fuel avail send (f\<lparr>socket := event (socket f)\<rparr>)) (flow_calls events fuel avail send)"

definition StartFlow :: "'s \<Rightarrow> 's flow" where
  "StartFlow s = \<lparr>currentTxBytes = 0, socket = s, sent = [], closed = 0\<rparr>"

section \<open>Sending packets at a rate\<close>

record my_app =
  m_packetSize :: nat
  m_nPackets :: nat
  m_dataRate :: nat
  m_sendEvent :: "nat option"   \<comment> \<open>a scheduled \<open>SendPacket\<close>, after so many bit times\<close>
  m_running :: bool
  m_packetsSent :: nat
  packets :: "nat list"         \<comment> \<open>the sizes of the packets given to the socket\<close>
  app_closed :: bool

definition new_app :: my_app where
  "new_app = \<lparr>m_packetSize = 0, m_nPackets = 0, m_dataRate = 0, m_sendEvent = None, m_running = False,
    m_packetsSent = 0, packets = [], app_closed = False\<rparr>"

definition setup_app :: "nat \<Rightarrow> nat \<Rightarrow> nat \<Rightarrow> my_app \<Rightarrow> my_app" where
  "setup_app packetSize nPackets dataRate a =
    a\<lparr>m_packetSize := packetSize, m_nPackets := nPackets, m_dataRate := dataRate\<rparr>"

definition ScheduleTx :: "my_app \<Rightarrow> my_app" where
  "ScheduleTx a = (if m_running a then a\<lparr>m_sendEvent := Some (m_packetSize a * 8)\<rparr> else a)"

definition SendPacket :: "my_app \<Rightarrow> my_app" where
  "SendPacket a =
    (let a = a\<lparr>packets := packets a @ [m_packetSize a]\<rparr>;
         a = a\<lparr>m_packetsSent := Suc (m_packetsSent a)\<rparr>
     in if m_packetsSent a < m_nPackets a then ScheduleTx a else a)"

definition StartApplication :: "my_app \<Rightarrow> my_app" where
  "StartApplication a = SendPacket (a\<lparr>m_running := True, m_packetsSent := 0\<rparr>)"

text \<open>The socket was set by \<open>Setup\<close>: it is closed.\<close>

definition StopApplication :: "my_app \<Rightarrow> my_app" where
  "StopApplication a =
    (let a = a\<lparr>m_running := False\<rparr>;
         a = (if m_sendEvent a \<noteq> None then a\<lparr>m_sendEvent := None\<rparr> else a)
     in a\<lparr>app_closed := True\<rparr>)"

text \<open>What the simulator does: it starts and stops the application and runs a scheduled event.\<close>

inductive app_step :: "my_app \<Rightarrow> my_app \<Rightarrow> bool" where
  app_start: "app_closed a = False \<Longrightarrow> packets a = [] \<Longrightarrow> app_step a (StartApplication a)"
| app_fire: "m_sendEvent a = Some t \<Longrightarrow> app_step a (SendPacket (a\<lparr>m_sendEvent := None\<rparr>))"
| app_stop: "app_step a (StopApplication a)"

inductive_cases app_step_cases: "app_step a b"

inductive app_reach :: "nat \<Rightarrow> nat \<Rightarrow> nat \<Rightarrow> my_app \<Rightarrow> bool" for packetSize nPackets dataRate where
  app_init: "app_reach packetSize nPackets dataRate (setup_app packetSize nPackets dataRate new_app)"
| app_next: "app_reach packetSize nPackets dataRate a \<Longrightarrow> app_step a b \<Longrightarrow> app_reach packetSize nPackets dataRate b"

section \<open>The pattern\<close>

definition pattern :: "nat \<Rightarrow> byte list" where
  "pattern n = map (\<lambda>i. word_of_nat (97 + i mod 26)) [0..<n]"

lemma length_pattern [simp]: "length (pattern n) = n"
  by (simp add: pattern_def)

lemma data_block:
  assumes "k \<le> writeSize - n mod writeSize"
  shows "pattern n @ get_bytes (n mod writeSize) k data = pattern (n + k)"
proof (rule nth_equalityI)
  have len: "length (get_bytes (n mod writeSize) k data) = k"
    using assms mod_less_divisor [of writeSize n] by (simp add: get_bytes_def data_def)
  then show "length (pattern n @ get_bytes (n mod writeSize) k data) = length (pattern (n + k))"
    by simp
  fix i
  assume "i < length (pattern n @ get_bytes (n mod writeSize) k data)"
  then have i: "i < n + k"
    using len by simp
  show "(pattern n @ get_bytes (n mod writeSize) k data) ! i = pattern (n + k) ! i"
  proof (cases "i < n")
    case True
    then show ?thesis using i by (simp add: nth_append pattern_def)
  next
    case False
    then have k: "i - n < k" "n mod writeSize + (i - n) < writeSize"
      using i assms mod_less_divisor [of writeSize n] by linarith+
    have "(n mod writeSize + (i - n)) mod 26 = (n + (i - n)) mod 26"
    proof -
      have "n mod writeSize mod 26 = n mod 26"
        by (simp add: mod_mod_cancel)
      then show ?thesis
        by (metis mod_add_left_eq)
    qed
    then show ?thesis
      using False i k len by (simp add: nth_append pattern_def get_bytes_def data_def)
  qed
qed

definition flow_ok :: "'s flow \<Rightarrow> bool" where
  "flow_ok f \<longleftrightarrow> currentTxBytes f \<le> totalTxBytes \<and> sent f = pattern (currentTxBytes f)"

text \<open>The socket takes no more than it is offered, and at least a byte unless it refuses.\<close>

definition takes_offered :: "(byte list \<Rightarrow> 's \<Rightarrow> int \<times> 's) \<Rightarrow> bool" where
  "takes_offered send \<longleftrightarrow> (\<forall>b s. fst (send b s) \<le> int (length b))"

definition takes_some :: "(byte list \<Rightarrow> 's \<Rightarrow> int \<times> 's) \<Rightarrow> bool" where
  "takes_some send \<longleftrightarrow> (\<forall>b s. b \<noteq> [] \<longrightarrow> fst (send b s) \<noteq> 0)"

lemma next_block:
  assumes "currentTxBytes f \<le> totalTxBytes"
  obtains k where "next_block avail f = get_bytes (currentTxBytes f mod writeSize) k data"
    and "length (next_block avail f) = k" and "k \<le> writeSize - currentTxBytes f mod writeSize"
    and "currentTxBytes f + k \<le> totalTxBytes"
    and "currentTxBytes f < totalTxBytes \<Longrightarrow> 0 < avail (socket f) \<Longrightarrow> 0 < k"
proof -
  define n where "n = currentTxBytes f"
  define k where "k = min (min (writeSize - n mod writeSize) (totalTxBytes - n)) (avail (socket f))"
  have m: "n mod writeSize < writeSize"
    by simp
  have "next_block avail f = get_bytes (n mod writeSize) k data"
    unfolding next_block_def Let_def n_def k_def ..
  moreover have "k \<le> writeSize - n mod writeSize" "n + k \<le> totalTxBytes"
    using assms by (auto simp: k_def n_def)
  moreover from this(1) have "length (get_bytes (n mod writeSize) k data) = k"
    using m by (simp add: get_bytes_def data_def)
  moreover have "n < totalTxBytes \<Longrightarrow> 0 < avail (socket f) \<Longrightarrow> 0 < k"
    using m by (simp add: k_def)
  ultimately show ?thesis
    using that [of k] unfolding n_def by simp
qed

lemma write_once_ok:
  assumes "flow_ok f" and "takes_offered send"
  shows "flow_ok (snd (write_once avail send f))"
proof -
  define n where "n = currentTxBytes f"
  have f: "n \<le> totalTxBytes" "sent f = pattern n"
    using assms(1) by (simp_all add: flow_ok_def n_def)
  obtain k where k: "next_block avail f = get_bytes (n mod writeSize) k data" "length (next_block avail f) = k"
    "k \<le> writeSize - n mod writeSize" "n + k \<le> totalTxBytes"
    using next_block [of f avail] f(1) unfolding n_def by metis
  define amount where "amount = nat (fst (send (next_block avail f) (socket f)))"
  have amount: "amount \<le> k"
    using assms(2) k(2) unfolding takes_offered_def amount_def by (metis nat_le_iff)
  have "take amount (next_block avail f) = get_bytes (n mod writeSize) amount data"
    using amount by (simp add: k(1) get_bytes_def min_def)
  then have "sent f @ take amount (next_block avail f) = pattern (n + amount)"
    using data_block [of amount n] amount k(3) f(2) by simp
  then show ?thesis
    using f amount k(4) by (simp add: write_once_def Let_def flow_ok_def flip: n_def amount_def)
qed

lemma write_until_full_ok:
  assumes "takes_offered send"
  shows "flow_ok f \<Longrightarrow> write_until_full fuel avail send f = Inr f' \<Longrightarrow> flow_ok f'"
proof (induction fuel arbitrary: f)
  case (Suc fuel)
  note ok = write_once_ok [OF Suc.prems(1) assms, of avail]
  have "flow_ok (f\<lparr>closed := Suc (closed f)\<rparr>)"
    using Suc.prems(1) by (simp add: flow_ok_def)
  then show ?case
    using Suc.IH [OF ok] Suc.prems(2) ok by (auto split: if_splits)
qed simp

lemma flow_calls_ok:
  assumes "takes_offered send"
  shows "flow_ok f \<Longrightarrow> flow_calls events fuel avail send f = Inr f' \<Longrightarrow> flow_ok f'"
proof (induction events arbitrary: f)
  case (Cons event events)
  have "flow_ok (f\<lparr>socket := event (socket f)\<rparr>)"
    using Cons.prems(1) by (simp add: flow_ok_def)
  then show ?case
    using Cons.IH Cons.prems(2) write_until_full_ok [OF assms, of "f\<lparr>socket := event (socket f)\<rparr>"]
    by (auto simp: bindE_eq_Inr)
qed simp

lemma write_until_full_ends:
  assumes "takes_some send" and "currentTxBytes f \<le> totalTxBytes" and "takes_offered send"
    and "totalTxBytes - currentTxBytes f < fuel"
  shows "\<exists>f'. write_until_full fuel avail send f = Inr f'"
  using assms(2,4)
proof (induction fuel arbitrary: f)
  case (Suc fuel)
  show ?case
  proof (cases "currentTxBytes f < totalTxBytes \<and> avail (socket f) > 0 \<and> \<not> fst (write_once avail send f)")
    case True
    define amount where "amount = fst (send (next_block avail f) (socket f))"
    obtain k where k: "length (next_block avail f) = k" "currentTxBytes f + k \<le> totalTxBytes" "0 < k"
      using next_block [of f avail] Suc.prems(1) True by metis
    then have "amount \<noteq> 0" "amount \<le> int k"
      using assms(1,3) unfolding takes_some_def takes_offered_def amount_def
      by (metis length_greater_0_conv)+
    moreover have "\<not> amount < 0" "currentTxBytes (snd (write_once avail send f)) = currentTxBytes f + nat amount"
      using True by (auto simp: write_once_def Let_def amount_def split: if_splits)
    ultimately show ?thesis
      using Suc.IH [of "snd (write_once avail send f)"] Suc.prems True k(2) by auto
  qed auto
qed simp

section \<open>Properties\<close>

text \<open>
  C33: Whatever the socket accepts of the blocks it is offered, call by call, the bytes
  sent are the pattern from its start, without a gap, and never more than 1000000; a socket
  that takes a byte at least or refuses ends each call within 1000001 passes.
\<close>

theorem flow_sends_pattern:
  assumes "takes_offered send"
  shows "(flow_calls events fuel avail send (StartFlow s) = Inr f \<longrightarrow>
      sent f = pattern (currentTxBytes f) \<and> currentTxBytes f \<le> totalTxBytes) \<and>
    (takes_some send \<longrightarrow>
      (\<exists>f'. flow_calls events (Suc totalTxBytes) avail send (StartFlow s) = Inr f'))"
proof -
  have "\<exists>f'. flow_calls events (Suc totalTxBytes) avail send f = Inr f'"
    if some: "takes_some send" and "flow_ok f" for f
    using that(2)
  proof (induction events arbitrary: f)
    case (Cons event events)
    define g where "g = f\<lparr>socket := event (socket f)\<rparr>"
    have g: "flow_ok g" "currentTxBytes g \<le> totalTxBytes"
      using Cons.prems by (simp_all add: flow_ok_def g_def)
    have "totalTxBytes - currentTxBytes g < Suc totalTxBytes"
      by simp
    from write_until_full_ends [OF some g(2) assms this]
    obtain f' where f': "write_until_full (Suc totalTxBytes) avail send g = Inr f'" ..
    from Cons.IH [OF write_until_full_ok [OF assms g(1) f']] f' show ?case
      by (simp add: g_def del: write_until_full.simps)
  qed simp
  moreover have "flow_ok (StartFlow s)"
    by (simp add: flow_ok_def StartFlow_def pattern_def)
  ultimately show ?thesis
    using flow_calls_ok [OF assms] unfolding flow_ok_def by blast
qed

theorem flow_sends_pattern_witness:
  "\<exists>f. flow_calls [\<lambda>s. s, \<lambda>s. Suc s] (Suc totalTxBytes) (\<lambda>s. s) (\<lambda>b s. (int (length b), s - length b)) (StartFlow 2) = Inr f \<and>
    sent f = pattern (currentTxBytes f) \<and> currentTxBytes f \<le> totalTxBytes"
proof -
  let ?send = "\<lambda>(b :: byte list) s. (int (length b), s - length b)"
  have "takes_offered ?send" "takes_some ?send"
    by (simp_all add: takes_offered_def takes_some_def)
  then show ?thesis
    using flow_sends_pattern [of ?send "[\<lambda>s. s, \<lambda>s. Suc s]" "Suc totalTxBytes" "\<lambda>s. s" 2] by blast
qed

text \<open>
  When the buffer of the socket is full before all has been written, the loop ends and
  the call closes the socket, although bytes are left to send.
\<close>

theorem closes_when_buffer_full:
  assumes "avail (socket f) = 0"
  shows "write_until_full (Suc fuel) avail send f = Inr (f\<lparr>closed := Suc (closed f)\<rparr>)"
  using assms by simp

section \<open>Packets\<close>

definition app_ok :: "nat \<Rightarrow> nat \<Rightarrow> my_app \<Rightarrow> bool" where
  "app_ok p n a \<longleftrightarrow> m_packetSize a = p \<and> m_nPackets a = n \<and> packets a = replicate (m_packetsSent a) p \<and>
    m_packetsSent a \<le> max 1 n \<and>
    (m_sendEvent a \<noteq> None \<longrightarrow> m_running a \<and> 0 < m_packetsSent a \<and> m_packetsSent a < n) \<and>
    (m_running a \<and> m_sendEvent a = None \<longrightarrow> m_packetsSent a = max 1 n)"

lemma replicate_snoc: "replicate k x @ [x] = replicate (Suc k) x"
  by (simp add: replicate_append_same)

lemma app_step_ok: "app_step a b \<Longrightarrow> app_ok p n a \<Longrightarrow> app_ok p n b"
proof (induction rule: app_step.induct)
  case (app_start a)
  then show ?case
    by (auto simp: app_ok_def StartApplication_def SendPacket_def ScheduleTx_def Let_def)
next
  case (app_fire a t)
  then show ?case
    by (auto simp: app_ok_def SendPacket_def ScheduleTx_def Let_def replicate_snoc simp del: replicate_Suc)
next
  case (app_stop a)
  then show ?case
    by (auto simp: app_ok_def StopApplication_def Let_def)
qed

lemma app_reach_ok: "app_reach p n r a \<Longrightarrow> app_ok p n a"
proof (induction rule: app_reach.induct)
  case app_init
  then show ?case by (simp add: app_ok_def setup_app_def new_app_def)
next
  case (app_next a b)
  then show ?case using app_step_ok by blast
qed

text \<open>
  In every state that the simulator can bring \<open>MyApp\<close> to, it has sent packets of the
  given size only, no more than \<open>max 1 nPackets\<close> of them, and exactly as many once it runs
  without a scheduled event: asked for 0 packets it sends one.
\<close>

theorem app_packets:
  assumes "app_reach packetSize nPackets dataRate a"
  shows "packets a = replicate (m_packetsSent a) packetSize \<and> m_packetsSent a \<le> max 1 nPackets \<and>
    (m_running a \<and> m_sendEvent a = None \<longrightarrow> m_packetsSent a = max 1 nPackets)"
  using app_reach_ok [OF assms] by (simp add: app_ok_def)

theorem app_packets_witness:
  "packets (StartApplication (setup_app 1040 0 5 new_app)) = [1040] \<and>
    m_packetsSent (StartApplication (setup_app 1040 0 5 new_app)) \<le> max 1 0"
proof -
  have "app_reach 1040 0 5 (StartApplication (setup_app 1040 0 5 new_app))"
    by (rule app_next [OF app_init], rule app_start) (simp_all add: setup_app_def new_app_def)
  from app_packets [OF this] show ?thesis
    by (simp add: StartApplication_def SendPacket_def setup_app_def new_app_def ScheduleTx_def Let_def)
qed

end
