(* ===== verification/Troll.thy ===== *)
theory Troll
  imports Timeval
begin

text \<open>
  The test programs around the troll in \<open>lab3\<close>: \<open>totroll.c\<close> sends numbered messages at
  an interval and reads their echoes, \<open>fromtroll.c\<close> checks the numbers that arrive and
  echoes them. The results of the system calls are arguments: what \<open>select\<close> and
  \<open>recvfrom\<close> give, what \<open>select\<close> writes back to its timeout, and whether \<open>sendto\<close>
  sends the whole message. Numbers stay far below \<open>2 ^ 31\<close> and are integers.
\<close>

section \<open>Ports\<close>

text \<open>\<open>port = atoi (...)\<close> is an unsigned 16-bit number when it is tested.\<close>

definition check_port :: "int \<Rightarrow> fault + int" where
  "check_port atoi =
    (let port = atoi mod 2 ^ 16
     in if port < 1024 \<or> port > 65535 then Inl (Exit 1) else Inr port)"

section \<open>totroll\<close>

record totroll =
  counter :: int
  timeout :: timeval
  timeout_original :: timeval

datatype totroll_event =
    SelectFails
  | ReceiveFails
  | Echo int
  | SelectTimeout

datatype totroll_out =
    Got int bool     \<comment> \<open>the number, and whether it is the last one sent\<close>
  | Put int

text \<open>Before the loop the message 0 is sent.\<close>

definition totroll_start :: "bool \<Rightarrow> timeval \<Rightarrow> fault + (totroll \<times> totroll_out list)" where
  "totroll_start send_ok interval =
    (if \<not> send_ok then Inl (Exit 1)
     else Inr (\<lparr>counter = 1, timeout = interval, timeout_original = interval\<rparr>, [Put 0]))"

definition totroll_step ::
  "bool \<Rightarrow> timeval \<Rightarrow> totroll_event \<Rightarrow> totroll \<Rightarrow> fault + (totroll \<times> totroll_out list)"
where
  "totroll_step send_ok left event t =
    (case event of
       SelectFails \<Rightarrow> Inl (Exit 1)
     | ReceiveFails \<Rightarrow> Inl (Exit 1)
     | Echo contents \<Rightarrow> Inr (t\<lparr>timeout := left\<rparr>, [Got contents (contents = counter t - 1)])
     | SelectTimeout \<Rightarrow>
         let t = t\<lparr>timeout := left\<rparr>
         in if tv_sec (timeout t) = 0 \<and> tv_usec (timeout t) = 0 then
              let t' = t\<lparr>timeout := timeout_original t, counter := counter t + 1\<rparr>
              in if send_ok then Inr (t', [Put (counter t)]) else Inl (Exit 1)
            else Inr (t, []))"

primrec totroll_run ::
  "(bool \<times> timeval \<times> totroll_event) list \<Rightarrow> totroll \<Rightarrow> fault + (totroll \<times> totroll_out list)"
where
  "totroll_run [] t = Inr (t, [])"
| "totroll_run (e # es) t =
    bindE (totroll_step (fst e) (fst (snd e)) (snd (snd e)) t) (\<lambda>(t, out).
    bindE (totroll_run es t) (\<lambda>(t, outs). Inr (t, out @ outs)))"

definition totroll ::
  "bool \<Rightarrow> timeval \<Rightarrow> (bool \<times> timeval \<times> totroll_event) list \<Rightarrow> fault + (totroll \<times> totroll_out list)"
where
  "totroll send_ok interval es =
    bindE (totroll_start send_ok interval) (\<lambda>(t, out).
    bindE (totroll_run es t) (\<lambda>(t, outs). Inr (t, out @ outs)))"

section \<open>fromtroll\<close>

datatype report =
    In_Order int
  | Missing int int   \<comment> \<open>the number, and how many are missing before it\<close>
  | Duplicate int

text \<open>One message: the report, and the number for \<open>lastseq\<close>.\<close>

definition fromtroll_step :: "int \<Rightarrow> int \<Rightarrow> report \<times> int" where
  "fromtroll_step lastseq contents =
    (let n = contents - (lastseq + 1)
     in (if n = 0 then In_Order contents else if n > 0 then Missing contents n else Duplicate contents,
         contents))"

primrec fromtroll_run :: "(int option \<times> bool) list \<Rightarrow> int \<Rightarrow> fault + (report list \<times> int list)" where
  "fromtroll_run [] lastseq = Inr ([], [])"
| "fromtroll_run (e # es) lastseq =
    (case fst e of
       None \<Rightarrow> Inl (Exit 1)
     | Some contents \<Rightarrow>
         (if \<not> snd e then Inl (Exit 1)
          else bindE (fromtroll_run es (snd (fromtroll_step lastseq contents))) (\<lambda>(rs, echoes).
               Inr (fst (fromtroll_step lastseq contents) # rs, contents # echoes))))"

definition fromtroll :: "int \<Rightarrow> int \<Rightarrow> (int option \<times> bool) list \<Rightarrow> fault + (report list \<times> int list)" where
  "fromtroll argc atoi es =
    (if argc \<noteq> 2 then Inl (Exit 1) else bindE (check_port atoi) (\<lambda>port. fromtroll_run es (- 1)))"

section \<open>Properties\<close>

text \<open>The messages among the outputs.\<close>

fun puts :: "totroll_out list \<Rightarrow> int list" where
  "puts [] = []"
| "puts (Put n # r) = n # puts r"
| "puts (Got n b # r) = puts r"

lemma puts_append [simp]: "puts (xs @ ys) = puts xs @ puts ys"
  by (induction xs rule: puts.induct) auto

lemma totroll_run_puts:
  "totroll_run es t = Inr (t', outs) \<Longrightarrow>
    counter t \<le> counter t' \<and> puts outs = [counter t..counter t' - 1]"
proof (induction es arbitrary: t outs)
  case (Cons e es)
  obtain t1 o1 o2 where s: "totroll_step (fst e) (fst (snd e)) (snd (snd e)) t = Inr (t1, o1)"
    "totroll_run es t1 = Inr (t', o2)" "outs = o1 @ o2"
    using Cons.prems by (auto simp: bindE_eq_Inr)
  note IH = Cons.IH [OF s(2)]
  have "(counter t1 = counter t \<and> puts o1 = []) \<or> (counter t1 = counter t + 1 \<and> puts o1 = [counter t])"
    using s(1) by (auto simp: totroll_step_def Let_def split: totroll_event.splits if_splits)
  then show ?case
  proof
    assume "counter t1 = counter t \<and> puts o1 = []"
    with IH s(3) show ?thesis by simp
  next
    assume "counter t1 = counter t + 1 \<and> puts o1 = [counter t]"
    with IH s(3) show ?thesis by (simp add: upto_rec1 [of "counter t"])
  qed
qed simp

text \<open>
  \<open>totroll\<close> sends the numbers 0, 1, 2 and so on, each once, whatever comes back.
\<close>

theorem totroll_numbers:
  assumes "totroll send_ok interval es = Inr (t, outs)"
  shows "puts outs = [0..counter t - 1]"
proof -
  obtain t1 o1 where "totroll_start send_ok interval = Inr (t1, [Put 0])" "totroll_run es t1 = Inr (t, o1)"
    "outs = Put 0 # o1" "counter t1 = 1"
    using assms by (auto simp: totroll_def bindE_eq_Inr totroll_start_def split: if_splits)
  with totroll_run_puts [of es t1 t o1] show ?thesis
    by (simp add: upto_rec1 [of 0])
qed

theorem totroll_numbers_witness:
  "puts [Put 0, Got 0 True, Put 1] = [0..1]"
proof -
  let ?es = "[(True, \<lparr>tv_sec = 0, tv_usec = 300\<rparr>, Echo 0), (True, \<lparr>tv_sec = 0, tv_usec = 0\<rparr>, SelectTimeout)]"
  have "\<exists>t. totroll True \<lparr>tv_sec = 0, tv_usec = 10000\<rparr> ?es = Inr (t, [Put 0, Got 0 True, Put 1]) \<and> counter t = 2"
    by (simp add: totroll_def totroll_start_def totroll_step_def Let_def)
  then show ?thesis
    using totroll_numbers by fastforce
qed

fun missing :: "report list \<Rightarrow> int" where
  "missing [] = 0"
| "missing (Missing c n # r) = n + missing r"
| "missing (x # r) = missing r"

lemma fromtroll_run_missing:
  assumes "sorted_wrt (<) (l # cs)"
  shows "\<exists>rs. fromtroll_run (map (\<lambda>c. (Some c, True)) cs) l = Inr (rs, cs) \<and>
    missing rs = last (l # cs) - l - int (length cs) \<and> (\<forall>c. Duplicate c \<notin> set rs)"
  using assms
proof (induction cs arbitrary: l)
  case (Cons c cs)
  have "sorted_wrt (<) (c # cs)"
    using Cons.prems by simp
  from Cons.IH [OF this] obtain rs where "fromtroll_run (map (\<lambda>c. (Some c, True)) cs) c = Inr (rs, cs)"
    "missing rs = last (c # cs) - c - int (length cs)" "\<forall>c. Duplicate c \<notin> set rs"
    by blast
  moreover have "l < c"
    using Cons.prems by simp
  ultimately show ?case
    by (cases "c = l + 1") (auto simp: fromtroll_step_def Let_def)
qed simp

text \<open>
  C34: If the messages arrive in the order they were sent, some of them lost, \<open>fromtroll\<close>
  echoes them all, reports none as a duplicate, and the numbers it reports missing add up to
  those that were lost. After a message that came late it reports numbers missing that it
  has seen.
\<close>

theorem fromtroll_counts_missing:
  assumes "sorted_wrt (<) (- 1 # cs)" and "1024 \<le> atoi" and "atoi < 65536"
  shows "\<exists>rs. fromtroll 2 atoi (map (\<lambda>c. (Some c, True)) cs) = Inr (rs, cs) \<and>
    missing rs = last (- 1 # cs) + 1 - int (length cs) \<and> (\<forall>c. Duplicate c \<notin> set rs) \<and>
    fromtroll 2 atoi (map (\<lambda>c. (Some c, True)) [0, 1, 0, 2]) =
      Inr ([In_Order 0, In_Order 1, Duplicate 0, Missing 2 1], [0, 1, 0, 2])"
  using fromtroll_run_missing [OF assms(1)] assms(2,3)
  by (simp add: fromtroll_def check_port_def Let_def fromtroll_step_def)

theorem fromtroll_counts_missing_witness:
  "\<exists>rs. fromtroll 2 2000 (map (\<lambda>c. (Some c, True)) [0, 1, 4, 5]) = Inr (rs, [0, 1, 4, 5]) \<and>
    missing rs = 2 \<and> (\<forall>c. Duplicate c \<notin> set rs)"
  using fromtroll_counts_missing [of "[0, 1, 4, 5]" 2000] by auto

end
