(* ===== verification/TrollStart.thy ===== *)
theory TrollStart
  imports Troll Startup
begin

text \<open>
  The command lines of \<open>totroll.c\<close> and \<open>fromtroll.c\<close>: the options, the hosts and ports,
  and the sockets. \<open>atof\<close> and the conversion of its result to a \<open>timeval\<close> are an argument,
  as are the results of the system calls. The options are read back from every way to
  write them.
\<close>

section \<open>The code\<close>

record options =
  opt_timeout :: timeval
  opt_quiet :: nat

text \<open>\<open>timeout\<close> and \<open>qflag\<close> before the options are read.\<close>

definition default_options :: options where
  "default_options = \<lparr>opt_timeout = \<lparr>tv_sec = 0, tv_usec = 10000\<rparr>, opt_quiet = 0\<rparr>"

definition first_digit :: "byte list \<Rightarrow> bool" where
  "first_digit s \<longleftrightarrow> s \<noteq> [] \<and> isdigit (hd s)"

text \<open>
  \<open>p\<close> is the rest of the current option, from \<open>*p\<close> to its terminator, and \<open>args\<close> the
  arguments behind it. An interval that follows in the same argument takes its rest:
  \<open>p += strlen (p) - 1\<close>. The result is the arguments that are left.
\<close>

function totroll_options ::
  "(byte list \<Rightarrow> timeval) \<Rightarrow> byte list \<Rightarrow> byte list list \<Rightarrow> options \<Rightarrow> fault + (byte list list \<times> options)"
where
  "totroll_options atof [] args opts =
    (case args of
       [] \<Rightarrow> Inr ([], opts)
     | a # rest \<Rightarrow>
         if a \<noteq> [] \<and> hd a = 45 then totroll_options atof (tl a) rest opts else Inr (args, opts))"
| "totroll_options atof (c # p) args opts =
    (if c = 105 then
       if first_digit p then totroll_options atof [] args (opts\<lparr>opt_timeout := atof p\<rparr>)
       else (case args of
               [] \<Rightarrow> Inl (Exit 1)
             | a # rest \<Rightarrow>
                 if first_digit a then totroll_options atof p rest (opts\<lparr>opt_timeout := atof a\<rparr>)
                 else Inl (Exit 1))
     else if c = 113 then totroll_options atof p args (opts\<lparr>opt_quiet := Suc (opt_quiet opts)\<rparr>)
     else Inl (Exit 1))"
  by pat_completeness auto
termination
proof (relation "measure (\<lambda>(atof, p, args, opts). length p + sum_list (map (Suc \<circ> length) args))")
qed auto

text \<open>The four arguments: host and port of the troll, host and port of the destination.\<close>

definition totroll_addresses ::
  "(byte list \<Rightarrow> u32 option) \<Rightarrow> byte list list \<Rightarrow> fault + (sockaddr_in \<times> sockaddr_in)"
where
  "totroll_addresses gethostbyname args =
    (case args of
       [trollhost, trollport, desthost, destport] \<Rightarrow>
         (case gethostbyname trollhost of
            None \<Rightarrow> Inl (Exit 1)
          | Some t \<Rightarrow>
              bindE (check_port (c_atoi trollport)) (\<lambda>tp.
              case gethostbyname desthost of
                None \<Rightarrow> Inl (Exit 1)
              | Some d \<Rightarrow>
                  bindE (check_port (c_atoi destport)) (\<lambda>dp.
                  Inr (inet_address (word_of_int tp) t, troll_header (word_of_int dp) d))))
     | _ \<Rightarrow> Inl (Exit 1))"

definition totroll_main ::
  "(byte list \<Rightarrow> timeval) \<Rightarrow> (byte list \<Rightarrow> u32 option) \<Rightarrow> bool \<Rightarrow> bool \<Rightarrow> bool \<Rightarrow> byte list list \<Rightarrow>
    (bool \<times> timeval \<times> totroll_event) list \<Rightarrow>
    fault + ((sockaddr_in \<times> sockaddr_in) \<times> totroll \<times> totroll_out list)"
where
  "totroll_main atof gethostbyname socket_ok bind_ok send_ok args es =
    bindE (totroll_options atof [] args default_options) (\<lambda>(args, opts).
    bindE (totroll_addresses gethostbyname args) (\<lambda>addresses.
    bindE (require socket_ok 1) (\<lambda>_.
    bindE (require bind_ok 1) (\<lambda>_.
    bindE (totroll send_ok (opt_timeout opts) es) (\<lambda>run.
    Inr (addresses, run))))))"

definition fromtroll_main ::
  "byte list list \<Rightarrow> bool \<Rightarrow> (sockaddr_in \<Rightarrow> bool) \<Rightarrow> (int option \<times> bool) list \<Rightarrow>
    fault + (sockaddr_in \<times> report list \<times> int list)"
where
  "fromtroll_main args socket_ok bind_ok es =
    (case args of
       [a] \<Rightarrow>
         bindE (check_port (c_atoi a)) (\<lambda>port.
         let localaddr = inet_address (word_of_int port) INADDR_ANY
         in bindE (require socket_ok 1) (\<lambda>_.
            bindE (require (bind_ok localaddr) 1) (\<lambda>_.
            bindE (fromtroll_run es (- 1)) (\<lambda>run.
            Inr (localaddr, run)))))
     | _ \<Rightarrow> Inl (Exit 1))"

section \<open>Ways to write the options\<close>

text \<open>
  An argument of flags \<open>-qqq\<close>, one that ends with an interval, \<open>-qi5\<close>, and one whose
  interval is the next argument, \<open>-qiq 5\<close>.
\<close>

datatype option_group =
    Flags nat
  | Joined nat "byte list"
  | Apart nat "byte list" nat

fun written :: "option_group \<Rightarrow> byte list list" where
  "written (Flags n) = [45 # replicate n 113]"
| "written (Joined n s) = [45 # replicate n 113 @ 105 # s]"
| "written (Apart n s m) = [45 # replicate n 113 @ 105 # replicate m 113, s]"

fun group_ok :: "option_group \<Rightarrow> bool" where
  "group_ok (Flags n) \<longleftrightarrow> True"
| "group_ok (Joined n s) \<longleftrightarrow> first_digit s"
| "group_ok (Apart n s m) \<longleftrightarrow> first_digit s"

fun meant :: "(byte list \<Rightarrow> timeval) \<Rightarrow> option_group \<Rightarrow> options \<Rightarrow> options" where
  "meant atof (Flags n) opts = opts\<lparr>opt_quiet := opt_quiet opts + n\<rparr>"
| "meant atof (Joined n s) opts = opts\<lparr>opt_quiet := opt_quiet opts + n, opt_timeout := atof s\<rparr>"
| "meant atof (Apart n s m) opts = opts\<lparr>opt_quiet := opt_quiet opts + n + m, opt_timeout := atof s\<rparr>"

declare totroll_options.simps(1) [simp del]

lemma options_flags:
  "totroll_options atof (replicate n 113 @ p) args opts =
    totroll_options atof p args (opts\<lparr>opt_quiet := opt_quiet opts + n\<rparr>)"
  by (induction n arbitrary: opts) simp_all

lemmas options_flags_end = options_flags [of _ _ "[]", simplified]

lemma options_next: "totroll_options atof [] ((45 # p) # rest) opts = totroll_options atof p rest opts"
  by (simp add: totroll_options.simps(1))

lemma not_digit_q: "\<not> first_digit (replicate m 113)"
  by (cases m) (simp_all add: first_digit_def isdigit_def)

lemma options_group:
  "group_ok g \<Longrightarrow> totroll_options atof [] (written g @ args) opts = totroll_options atof [] args (meant atof g opts)"
  by (cases g; cases opts) (simp_all add: options_next options_flags options_flags_end not_digit_q)

lemma options_groups:
  "list_all group_ok gs \<Longrightarrow>
    totroll_options atof [] (concat (map written gs) @ args) opts =
      totroll_options atof [] args (fold (meant atof) gs opts)"
  by (induction gs arbitrary: opts) (simp_all add: options_group)

definition operand :: "byte list \<Rightarrow> bool" where
  "operand a \<longleftrightarrow> a = [] \<or> hd a \<noteq> 45"

lemma options_operands: "args = [] \<or> operand (hd args) \<Longrightarrow> totroll_options atof [] args opts = Inr (args, opts)"
  by (cases args) (auto simp: totroll_options.simps(1) operand_def)

section \<open>Properties\<close>

text \<open>
  C31: However the options of \<open>totroll\<close> are written, alone or together, with their
  interval in the same argument or in the next, they are read back: the last interval
  counts, and every \<open>q\<close>. Any other letter ends the program.
\<close>

theorem totroll_options_roundtrip:
  assumes "list_all group_ok gs" and "args = [] \<or> operand (hd args)" and "c \<noteq> 105" and "c \<noteq> 113"
  shows "totroll_options atof [] (concat (map written gs) @ args) opts = Inr (args, fold (meant atof) gs opts) \<and>
    totroll_options atof [] (concat (map written gs) @ (45 # replicate n 113 @ c # p) # args) opts = Inl (Exit 1)"
  using assms by (simp add: options_groups options_operands options_next options_flags)

theorem totroll_options_roundtrip_witness:
  "totroll_options (\<lambda>s. \<lparr>tv_sec = c_atoi s, tv_usec = 0\<rparr>) []
      (concat (map written [Joined 1 [53], Apart 0 [49, 50] 1]) @ [[97], [49, 48, 50, 52], [98], [49, 48, 50, 53]])
      default_options =
    Inr ([[97], [49, 48, 50, 52], [98], [49, 48, 50, 53]], \<lparr>opt_timeout = \<lparr>tv_sec = 12, tv_usec = 0\<rparr>, opt_quiet = 2\<rparr>)"
  using totroll_options_roundtrip [of "[Joined 1 [53], Apart 0 [49, 50] 1]"
      "[[97], [49, 48, 50, 52], [98], [49, 48, 50, 53]]" 120
      "\<lambda>s. \<lparr>tv_sec = c_atoi s, tv_usec = 0\<rparr>" default_options 0 "[]"]
  by (simp add: first_digit_def isdigit_def operand_def default_options_def c_atoi_def Let_def)

end
