(* ===== verification/Lab3.thy ===== *)
theory Lab3
  imports Startup
begin

text \<open>
  The file transfer of \<open>lab3\<close>: \<open>ftpc.c\<close>, \<open>ftps.c\<close>, the calls of \<open>function.c\<close> that stand for
  the socket calls, and the start of \<open>tcpd.c\<close>. Two of these calls have no \<open>return\<close>: what the
  callers read as their value is not defined, and is an argument. So are the rest of the
  stack that is sent along, what \<open>sendto\<close> and \<open>inet_addr\<close> give, and the memory at the address
  that \<open>SEND\<close> makes of a number.
\<close>

section \<open>The code\<close>

definition TCPD_C_IP :: "byte list" where "TCPD_C_IP = bytes_of_string ''164.135.2.2''"
definition TCPD_C_PORT :: "byte list" where "TCPD_C_PORT = bytes_of_string ''2323''"
definition TROLL_PORT :: "byte list" where "TROLL_PORT = bytes_of_string ''2626''"
definition LOCAL_PORT :: "byte list" where "LOCAL_PORT = bytes_of_string ''2323''"

record my_message =
  msg_header :: sockaddr_in
  client :: int
  contents :: "byte list"

abbreviation sizeof_my_message :: int where "sizeof_my_message \<equiv> 16 + 4 + 1000"

text \<open>What the programs find around them; the number counts the calls of a function.\<close>

record world =
  string_at :: "int \<Rightarrow> byte list option"  \<comment> \<open>the string at an address, if it can be read\<close>
  inet_addr :: "byte list \<Rightarrow> u32"
  stack :: "nat \<Rightarrow> byte list"             \<comment> \<open>\<open>contents\<close> of the new \<open>MyMessage\<close>\<close>
  sendto :: "my_message \<Rightarrow> int"
  SEND_value :: "nat \<Rightarrow> int"
  RECV_value :: "nat \<Rightarrow> int"

text \<open>
  \<open>inet_addr (atoi (TCPD_C_IP))\<close> takes the number for an address of a string, and \<open>strcpy\<close>
  copies the message up to its first zero byte, whatever length \<open>SEND\<close> is given.
\<close>

definition lab3_SEND :: "world \<Rightarrow> nat \<Rightarrow> byte list \<Rightarrow> fault + (my_message \<times> int)" where
  "lab3_SEND w k msg =
    (case string_at w (c_atoi TCPD_C_IP) of
       None \<Rightarrow> Inl OutOfBounds
     | Some cp \<Rightarrow>
         let tcpdSockAddr = inet_address (word_of_int (c_atoi TCPD_C_PORT)) (inet_addr w cp)
         in bindE (c_str msg) (\<lambda>s.
            if \<not> length s < length (stack w k) then Inl OutOfBounds
            else
              let mmsg = \<lparr>msg_header = tcpdSockAddr, client = 1, contents = put_bytes 0 (s @ [0]) (stack w k)\<rparr>
              in bindE (require (sendto w mmsg = sizeof_my_message) 1) (\<lambda>_. Inr (mmsg, SEND_value w k))))"

text \<open>The body of \<open>RECV\<close> is empty: the buffer stays as it is.\<close>

definition lab3_RECV :: "world \<Rightarrow> nat \<Rightarrow> byte list \<Rightarrow> byte list \<times> int" where
  "lab3_RECV w k buf = (buf, RECV_value w k)"

text \<open>\<open>CONNECT\<close>, \<open>BIND\<close> and \<open>ACCEPT\<close> return \<open>NULL\<close>.\<close>

definition lab3_CONNECT :: int where "lab3_CONNECT = 0"

definition lab3_BIND :: int where "lab3_BIND = 0"

definition lab3_ACCEPT :: int where "lab3_ACCEPT = 0"

definition lab3_ftpc_start ::
  "int \<Rightarrow> byte list \<Rightarrow> byte list \<Rightarrow> bool \<Rightarrow> (byte list \<Rightarrow> u32 option) \<Rightarrow> fault + sockaddr_in"
where
  "lab3_ftpc_start argc host port socket_ok gethostbyname =
    lab2_ftpc_start argc host port socket_ok gethostbyname (\<lambda>_. \<not> lab3_CONNECT < 0)"

definition lab3_ftps_start :: "int \<Rightarrow> byte list \<Rightarrow> bool \<Rightarrow> fault + sockaddr_in" where
  "lab3_ftps_start argc port socket_ok =
    lab2_ftps_start argc port socket_ok (\<lambda>_. \<not> lab3_BIND < 0) (lab3_ACCEPT \<noteq> -1)"

text \<open>\<open>ftpc\<close> exits when the value of a \<open>SEND\<close> is negative.\<close>

fun lab3_sends :: "world \<Rightarrow> nat \<Rightarrow> byte list list \<Rightarrow> fault + my_message list" where
  "lab3_sends w k [] = Inr []"
| "lab3_sends w k (m # ms) =
    bindE (lab3_SEND w k m) (\<lambda>(d, count).
    if count < 0 then Inl (Exit 1)
    else bindE (lab3_sends w (Suc k) ms) (\<lambda>ds. Inr (d # ds)))"

text \<open>Each block lies in \<open>buf\<close>, 1000 bytes that were zeroed before.\<close>

definition lab3_ftpc ::
  "world \<Rightarrow> byte list \<Rightarrow> (byte list \<Rightarrow> byte list option) \<Rightarrow> fault + my_message list"
where
  "lab3_ftpc w argument fopen =
    bindE (c_str (set_filename argument)) (\<lambda>name.
    case fopen name of
      None \<Rightarrow> Inl (Exit 1)
    | Some content \<Rightarrow>
        bindE (lab3_sends w 0 (map (pad_block 1000) (lab_messages 1000 name content))) (\<lambda>ds.
        if snd (lab3_RECV w 0 (replicate 1000 0)) < 0 then Inl (Exit 1) else Inr ds))"

definition lab3_ftpc_main ::
  "world \<Rightarrow> int \<Rightarrow> byte list \<Rightarrow> byte list \<Rightarrow> byte list \<Rightarrow> bool \<Rightarrow> (byte list \<Rightarrow> u32 option) \<Rightarrow>
    (byte list \<Rightarrow> byte list option) \<Rightarrow> fault + my_message list"
where
  "lab3_ftpc_main w argc host port argument socket_ok gethostbyname fopen =
    bindE (lab3_ftpc_start argc host port socket_ok gethostbyname) (\<lambda>_. lab3_ftpc w argument fopen)"

text \<open>
  The receive loop of \<open>ftps\<close> for at most \<open>n\<close> passes, from the \<open>k\<close>-th call of \<open>RECV\<close> on: the
  bytes still to come and the file.
\<close>

primrec lab3_loop :: "nat \<Rightarrow> world \<Rightarrow> nat \<Rightarrow> (nat \<Rightarrow> nat) \<Rightarrow> int \<Rightarrow> byte list \<Rightarrow> fault + (int \<times> byte list)" where
  "lab3_loop 0 w k fwrite filesize content = (if filesize > 0 then Inl Diverges else Inr (filesize, content))"
| "lab3_loop (Suc n) w k fwrite filesize content =
    (if filesize > 0 then
       let (buf, received) = lab3_RECV w k (replicate 1000 0);
           filesize = filesize - received
       in if received < 0 then Inl (Exit 1)
          else if received > int (length buf) then Inl OutOfBounds
          else if fwrite (nat received) < nat received then Inl (Exit 1)
          else lab3_loop n w (Suc k) fwrite filesize (content @ take (nat received) buf)
     else Inr (filesize, content))"

text \<open>
  \<open>filename\<close> is not initialised; it is printed before the directory is opened. The result is
  the path, the file and the answer to the client.
\<close>

definition lab3_ftps ::
  "nat \<Rightarrow> world \<Rightarrow> byte list \<Rightarrow> bool \<Rightarrow> bool \<Rightarrow> bool \<Rightarrow> (nat \<Rightarrow> nat) \<Rightarrow>
    fault + (byte list \<times> byte list \<times> my_message)"
where
  "lab3_ftps n w filename opendir_ok mkdir_ok fopen_ok fwrite =
    (let (buf, count) = lab3_RECV w 0 (replicate 1000 0)
     in if count < 0 then Inl (Exit 1)
        else
          bindE (read_information filename buf) (\<lambda>(filesize, filename).
          bindE (c_str filename) (\<lambda>_.
          bindE (require (opendir_ok \<or> mkdir_ok) 1) (\<lambda>_.
          bindE (receive_path filename) (\<lambda>path.
          bindE (require fopen_ok 1) (\<lambda>_.
          bindE (lab3_loop n w 1 fwrite filesize []) (\<lambda>(filesize, content).
          bindE (lab3_SEND w 0 (char_array 40 (''Transfer file finished!'' @ [CHR 0x0A]))) (\<lambda>(d, count).
          if count < 0 then Inl (Exit 1) else Inr (path, content, d)))))))))"

definition lab3_ftps_main ::
  "nat \<Rightarrow> world \<Rightarrow> int \<Rightarrow> byte list \<Rightarrow> bool \<Rightarrow> byte list \<Rightarrow> bool \<Rightarrow> bool \<Rightarrow> bool \<Rightarrow> (nat \<Rightarrow> nat) \<Rightarrow>
    fault + (byte list \<times> byte list \<times> my_message)"
where
  "lab3_ftps_main n w argc port socket_ok filename opendir_ok mkdir_ok fopen_ok fwrite =
    bindE (lab3_ftps_start argc port socket_ok) (\<lambda>_.
    lab3_ftps n w filename opendir_ok mkdir_ok fopen_ok fwrite)"

text \<open>
  \<open>tcpd.c\<close> up to its loop: three sockets are bound in turn. \<open>bind_ok bound a\<close> says whether
  \<open>bind\<close> succeeds on the address \<open>a\<close> when the addresses \<open>bound\<close> are in use.
\<close>

definition lab3_tcpd_start ::
  "(nat \<Rightarrow> bool) \<Rightarrow> (sockaddr_in list \<Rightarrow> sockaddr_in \<Rightarrow> bool) \<Rightarrow> fault + sockaddr_in list"
where
  "lab3_tcpd_start socket_ok bind_ok =
    (let localSockAddr = inet_address (word_of_int (c_atoi LOCAL_PORT)) INADDR_ANY;
         trollSockAddr = inet_address (word_of_int (c_atoi TROLL_PORT)) INADDR_ANY;
         ftpcSockAddr = inet_address (word_of_int (c_atoi TCPD_C_PORT)) INADDR_ANY
     in bindE (require (socket_ok 0) 2) (\<lambda>_.
        bindE (require (bind_ok [] localSockAddr) 1) (\<lambda>_.
        bindE (require (socket_ok 1) 2) (\<lambda>_.
        bindE (require (bind_ok [localSockAddr] trollSockAddr) 1) (\<lambda>_.
        bindE (require (socket_ok 2) 2) (\<lambda>_.
        bindE (require (bind_ok [localSockAddr, trollSockAddr] ftpcSockAddr) 1) (\<lambda>_.
        Inr [localSockAddr, trollSockAddr, ftpcSockAddr])))))))"

section \<open>Sending\<close>

lemma TCPD_C_IP_number: "c_atoi TCPD_C_IP = 164"
  by (simp add: c_atoi_def TCPD_C_IP_def bytes_of_string_def isdigit_def)

text \<open>A world in which \<open>SEND\<close> gets as far as \<open>sendto\<close>, and everything succeeds.\<close>

definition sending :: "world \<Rightarrow> bool" where
  "sending w \<longleftrightarrow> string_at w 164 \<noteq> None \<and> (\<forall>k. length (stack w k) = 1000 \<and> 0 \<le> SEND_value w k) \<and>
    (\<forall>m. sendto w m = sizeof_my_message) \<and> 0 \<le> RECV_value w 0"

lemma put_string: "length s < length mem \<Longrightarrow> put_bytes 0 (s @ [0]) mem = s @ 0 # drop (Suc (length s)) mem"
  by (simp add: put_bytes_def)

lemma c_string_shorter: "0 \<in> set m \<Longrightarrow> length (c_string m) < length m"
  using zero_notin_c_string [of m] length_takeWhile_le [of "\<lambda>b. b \<noteq> 0" m] takeWhile_eq_take [of "\<lambda>b. b \<noteq> 0" m]
  unfolding c_string_def by (metis le_neq_implies_less take_all_iff order_refl)

text \<open>What is sent of a message is its string, and of one without a terminator nothing.\<close>

lemma lab3_SEND_string:
  assumes "sending w" and "length m \<le> 1000"
  shows "if 0 \<in> set m then \<exists>d v. lab3_SEND w k m = Inr (d, v) \<and> 0 \<le> v \<and> c_string (contents d) = c_string m
    else lab3_SEND w k m = Inl OutOfBounds"
proof (cases "0 \<in> set m")
  case True
  with assms c_string_shorter [OF True] zero_notin_c_string [of m] show ?thesis
    by (auto simp: lab3_SEND_def TCPD_C_IP_number sending_def c_str_def Let_def put_string c_string_append_zero)
next
  case False
  with assms show ?thesis
    by (auto simp: lab3_SEND_def TCPD_C_IP_number sending_def c_str_def Let_def)
qed

lemma unmapped_SEND: "string_at w 164 = None \<Longrightarrow> lab3_SEND w k m = Inl OutOfBounds"
  by (simp add: lab3_SEND_def TCPD_C_IP_number)

text \<open>Of the first block only the size arrives: its zero bytes come before the name.\<close>

lemma c_string_strncpy:
  assumes "0 \<in> set x" and "length x = n"
  shows "c_string (c_strncpy n x @ r) = c_string x"
proof -
  obtain k where "n - length (c_string x) = Suc k"
    using c_string_shorter [OF assms(1)] assms(2) by (cases "n - length (c_string x)") auto
  then show ?thesis
    using c_string_shorter [OF assms(1)] assms(2)
    by (simp add: c_strncpy_def Let_def c_string_append_zero zero_notin_c_string)
qed

lemma int_bytes_zero:
  assumes "0 \<le> n" and "n < 2 ^ 24"
  shows "0 \<in> set (int_bytes n)"
proof -
  have "uint (word_of_int n :: u32) = n"
    using assms by (simp add: uint_word_of_int_eq take_bit_int_eq_self)
  then have "uint (drop_bit 24 (word_of_int n :: u32)) = 0"
    unfolding uint_drop_bit_u32 using assms by simp
  then have "drop_bit 24 (word_of_int n :: u32) = 0"
    by (simp only: uint_0_iff)
  then show ?thesis
    by (simp add: int_bytes_def numeral_eq_Suc)
qed

lemma c_string_file_information:
  assumes "file_name name" and "0 \<le> n" and "n < 2 ^ 24"
  shows "c_string (file_information 1000 n name) = c_string (int_bytes n)"
    and "0 \<in> set (file_information 1000 n name)"
proof -
  have f: "file_information 1000 n name = c_strncpy 4 (int_bytes n) @ name @ replicate (996 - length name) 0"
    using assms by (simp add: file_information_def put_bytes_def file_name_def)
  then show "0 \<in> set (file_information 1000 n name)"
    using assms(1) by (simp add: file_name_def)
  show "c_string (file_information 1000 n name) = c_string (int_bytes n)"
    unfolding f using int_bytes_zero [OF assms(2,3)] by (simp add: c_string_strncpy)
qed

section \<open>Properties\<close>

lemma c_string_pad_block: "0 \<notin> set b \<Longrightarrow> length b < n \<Longrightarrow> c_string (pad_block n b) = b \<and> 0 \<in> set (pad_block n b)"
  by (simp add: pad_block_def put_bytes_front c_string_replicate_zero)

lemma pad_block_padded: "length b \<le> n \<Longrightarrow> length (pad_block n b) = n"
  by (simp add: pad_block_def put_bytes_front)

lemma file_blocks_short: "0 < n \<Longrightarrow> length content \<le> n \<Longrightarrow> content \<noteq> [] \<Longrightarrow> file_blocks n content = [content]"
  by (simp add: file_blocks_Cons)

text \<open>
  Were address 164 readable, on a file without zero bytes the client of \<open>lab3\<close> would send the
  string of the file, if it has less than 1000 bytes, after a message that has lost the name of
  the file; with 1000 bytes or more \<open>SEND\<close> would run over the end of its buffers at the first block.
\<close>

theorem lab3_ftpc_text:
  assumes "sending w" and "file_name name" and "fopen name = Some content" and "content \<noteq> []"
    and "0 \<notin> set content" and "47 \<notin> set name" and "length content < 2 ^ 24"
  shows "if length content < 1000
    then \<exists>h b. lab3_ftpc w name fopen = Inr [h, b] \<and>
      c_string (contents h) = c_string (int_bytes (int (length content))) \<and> c_string (contents b) = content
    else lab3_ftpc w name fopen = Inl OutOfBounds"
proof -
  let ?m = "file_information 1000 (int (length content)) name"
  have "last_slash name t = 0" if "t \<le> length name" for t
    using that
  proof (induction t)
    case (Suc t)
    then have "name ! t \<noteq> 47"
      using assms(6) nth_mem [of t name] by fastforce
    with Suc show ?case
      by auto
  qed simp
  then have msgs: "lab_messages 1000 name content = ?m # file_blocks 1000 content"
    by (simp add: lab_messages_def)
  have m: "length ?m = 1000" "0 \<in> set ?m" "c_string ?m = c_string (int_bytes (int (length content)))"
    using length_file_information [OF assms(2)] c_string_file_information [OF assms(2)] assms(7) by simp_all
  obtain d v where d: "lab3_SEND w 0 ?m = Inr (d, v)" "0 \<le> v" "c_string (contents d) = c_string ?m"
    using lab3_SEND_string [OF assms(1), of ?m 0] m(1,2) by auto
  have start: "lab3_ftpc w name fopen =
      bindE (lab3_sends w 1 (map (pad_block 1000) (file_blocks 1000 content))) (\<lambda>ds. Inr (d # ds))"
    using assms(1) d(1,2) m(1)
    by (simp add: lab3_ftpc_def c_str_set_filename [OF assms(2)] assms(3) msgs pad_block_full sending_def
        lab3_RECV_def bindE_def split: sum.splits)
  show ?thesis
  proof (cases "length content < 1000")
    case True
    then obtain b u where "lab3_SEND w 1 (pad_block 1000 content) = Inr (b, u)" "0 \<le> u" "c_string (contents b) = content"
      using lab3_SEND_string [OF assms(1), of "pad_block 1000 content" 1] c_string_pad_block [OF assms(5)]
        pad_block_padded [of content 1000] by auto
    with True d(3) m(3) assms(4) show ?thesis
      by (simp add: start file_blocks_short)
  next
    case False
    let ?b = "take 1000 content"
    have "pad_block 1000 ?b = ?b" "0 \<notin> set ?b"
      using False assms(5) by (auto simp: pad_block_full dest: in_set_takeD)
    then have "lab3_SEND w 1 (pad_block 1000 ?b) = Inl OutOfBounds"
      using lab3_SEND_string [OF assms(1), of ?b 1] by simp
    with False assms(4) show ?thesis
      by (simp add: start file_blocks_Cons)
  qed
qed

text \<open>A world in which the address 164 can be read.\<close>

definition mapped_world :: world where
  "mapped_world = \<lparr>string_at = (\<lambda>_. Some []), inet_addr = (\<lambda>_. 0), stack = (\<lambda>_. replicate 1000 9),
    sendto = (\<lambda>_. 1020), SEND_value = (\<lambda>_. 1020), RECV_value = (\<lambda>_. 0)\<rparr>"

lemma sending_mapped_world: "sending mapped_world"
  by (simp add: sending_def mapped_world_def)

theorem lab3_ftpc_text_witness:
  "(\<exists>h b. lab3_ftpc mapped_world [97] (\<lambda>_. Some [1, 2]) = Inr [h, b] \<and> c_string (contents h) = [2] \<and>
      c_string (contents b) = [1, 2]) \<and>
    lab3_ftpc mapped_world [97] (\<lambda>_. Some (replicate 1000 7)) = Inl OutOfBounds"
proof -
  have "int_bytes 2 = [2, 0, 0, 0]"
    by code_simp
  then have "c_string (int_bytes 2) = [2]"
    by (simp add: c_string_def)
  then show ?thesis
    using lab3_ftpc_text [OF sending_mapped_world, of "[97]" "\<lambda>_. Some [1, 2]" "[1, 2]"]
      lab3_ftpc_text [OF sending_mapped_world, of "[97]" "\<lambda>_. Some (replicate 1000 7)" "replicate 1000 7"]
    by (simp add: file_name_def)
qed

lemma lab3_read_information: "read_information filename (replicate 1000 0) = Inr (0, filename)"
proof -
  have "int_of_bytes (replicate 4 0) = 0"
    by (simp add: int_of_bytes_def numeral_eq_Suc)
  then show ?thesis
    using c_string_replicate_zero [of "[]"] by (simp add: read_information_def c_strlen_def put_bytes_def)
qed

lemma lab3_ftps_Inr:
  assumes "lab3_ftps n w filename opendir_ok mkdir_ok fopen_ok fwrite = Inr (path, content, d)"
  shows "content = [] \<and> path = bytes_of_string ''./receive/'' @ c_string filename \<and> string_at w 164 \<noteq> None"
proof -
  have loop: "lab3_loop n w 1 fwrite 0 [] = Inr (0, [])"
    by (cases n) simp_all
  have "string_at w 164 \<noteq> None"
  proof
    assume "string_at w 164 = None"
    then have "lab3_SEND w k m = Inl OutOfBounds" for k m
      by (rule unmapped_SEND)
    with assms show False
      by (auto simp: lab3_ftps_def bindE_eq_Inr lab3_RECV_def split: if_splits)
  qed
  moreover have "c_str x = Inr y \<longleftrightarrow> 0 \<in> set x \<and> y = c_string x" for x y
    by (auto simp: c_str_def)
  ultimately show ?thesis
    using assms loop
    by (auto simp: lab3_ftps_def bindE_eq_Inr lab3_RECV_def lab3_read_information receive_path_def Let_def
        bytes_of_string_def split: if_splits)
qed

text \<open>
  C36: Nothing is transferred by \<open>lab3\<close>: \<open>ftps\<close>, which takes no data from any call, can only
  leave an empty file, under the name that its stack happened to hold, whatever undefined
  values the calls have. If the address 164 cannot be read, neither program ends its work,
  and \<open>ftpc\<close> has not sent a message.
\<close>

theorem lab3_transfers_nothing:
  "(lab3_ftps_main n w argc port socket_ok filename opendir_ok mkdir_ok fopen_ok fwrite = Inr (path, content, d) \<longrightarrow>
      content = [] \<and> path = bytes_of_string ''./receive/'' @ c_string filename) \<and>
    (string_at w 164 = None \<longrightarrow>
      (\<exists>e. lab3_ftps_main n w argc port socket_ok filename opendir_ok mkdir_ok fopen_ok fwrite = Inl e) \<and>
      (\<exists>e. lab3_ftpc_main w argc host port argument socket_ok gethostbyname fopen = Inl e))"
proof -
  have "\<exists>e. lab3_ftpc w argument fopen = Inl e" if "string_at w 164 = None"
  proof (cases "lab3_ftpc w argument fopen")
    case (Inr ds)
    then show ?thesis
      using that by (auto simp: lab3_ftpc_def bindE_eq_Inr lab_messages_def unmapped_SEND split: option.splits)
  qed simp
  then show ?thesis
    using lab3_ftps_Inr [of n w filename opendir_ok mkdir_ok fopen_ok fwrite]
    by (cases "lab3_ftps_main n w argc port socket_ok filename opendir_ok mkdir_ok fopen_ok fwrite";
        cases "lab3_ftpc_main w argc host port argument socket_ok gethostbyname fopen")
      (auto simp: lab3_ftps_main_def lab3_ftpc_main_def bindE_eq_Inr)
qed

text \<open>Both halves apply: with the address mapped the server ends, without it it does not.\<close>

theorem lab3_transfers_nothing_witness:
  "(\<exists>e. lab3_ftps_main 1 (mapped_world\<lparr>string_at := (\<lambda>_. None)\<rparr>) 2 [49, 50, 51, 52] True (replicate 20 0) True True True
      (\<lambda>k. k) = Inl e) \<and>
    (\<exists>path d. lab3_ftps_main 1 mapped_world 2 [49, 50, 51, 52] True (97 # replicate 19 0) True True True (\<lambda>k. k) =
      Inr (path, [], d) \<and> path = bytes_of_string ''./receive/'' @ [97])"
proof -
  let ?run = "lab3_ftps_main 1 mapped_world 2 [49, 50, 51, 52] True (97 # replicate 19 0) True True True (\<lambda>k. k)"
  have "string_at mapped_world 164 \<noteq> None" "sending mapped_world"
    using sending_mapped_world by (simp_all add: sending_def)
  then obtain d v where "lab3_SEND mapped_world 0 (char_array 40 (''Transfer file finished!'' @ [CHR 0x0A])) = Inr (d, v)"
      "0 \<le> v"
    using lab3_SEND_string [of mapped_world "char_array 40 (''Transfer file finished!'' @ [CHR 0x0A])" 0]
    by (auto simp: char_array_def bytes_of_string_def)
  then have "\<exists>path content d. ?run = Inr (path, content, d)"
    by (simp add: lab3_ftps_main_def lab3_ftps_start_def lab2_ftps_start_def argument_port_def lab3_BIND_def
        lab3_ACCEPT_def lab3_ftps_def lab3_RECV_def lab3_read_information receive_path_def c_str_def c_string_def
        bytes_of_string_def Let_def mapped_world_def)
  then show ?thesis
    using lab3_transfers_nothing [of 1 mapped_world 2 "[49, 50, 51, 52]" True "97 # replicate 19 0" True True True "\<lambda>k. k"]
      lab3_transfers_nothing [of 1 "mapped_world\<lparr>string_at := (\<lambda>_. None)\<rparr>" 2 "[49, 50, 51, 52]" True
        "replicate 20 0" True True True "\<lambda>k. k"]
    by (auto simp: c_string_def)
qed

text \<open>
  C37: \<open>tcpd\<close> of \<open>lab3\<close> never gets to its loop: \<open>LOCAL_PORT\<close> and \<open>TCPD_C_PORT\<close> are the same
  port, and where a bound address cannot be bound a second time, the third \<open>bind\<close> or a call
  before it ends the program.
\<close>

theorem lab3_tcpd_stops:
  assumes "\<And>bound a. a \<in> set bound \<Longrightarrow> \<not> bind_ok bound a"
  shows "lab3_tcpd_start socket_ok bind_ok = Inl (Exit 1) \<or> lab3_tcpd_start socket_ok bind_ok = Inl (Exit 2)"
proof -
  have "LOCAL_PORT = TCPD_C_PORT"
    by (simp add: LOCAL_PORT_def TCPD_C_PORT_def)
  then show ?thesis
    using assms by (simp add: lab3_tcpd_start_def Let_def require_def)
qed

theorem lab3_tcpd_stops_witness:
  "lab3_tcpd_start (\<lambda>_. True) (\<lambda>bound a. a \<notin> set bound) = Inl (Exit 1) \<or>
    lab3_tcpd_start (\<lambda>_. True) (\<lambda>bound a. a \<notin> set bound) = Inl (Exit 2)"
  by (rule lab3_tcpd_stops) simp

end
