(* ===== verification/Simulation.thy ===== *)
theory Simulation
  imports TrafficSource Complex_Main
begin

text \<open>
  The \<open>main\<close> functions of the ns-3 simulations: \<open>lab4/udpchain.cc\<close>, \<open>lab5/tcpchain.cc\<close> and
  \<open>proj2/myproj2.cc\<close>. Each builds a chain of four nodes and puts a server on the last and a
  client on the first. A \<open>main\<close> is the sequence of its calls of the simulator. What these
  calls return is an argument: the nodes that \<open>Create\<close> makes, the devices of \<open>Install\<close> and
  the addresses of \<open>Assign\<close>, each for the n-th call. Containers are lists. What the simulator
  promises of them is \<open>ns3_ok\<close>. Times are seconds, error rates are per byte.
\<close>

section \<open>Calls of the simulator\<close>

record ('n, 'd, 'a) ns3 =
  Create :: "nat \<Rightarrow> nat \<Rightarrow> 'n list"         \<comment> \<open>\<open>NodeContainer::Create\<close>: so many new nodes\<close>
  Install :: "nat \<Rightarrow> 'n list \<Rightarrow> 'd list"     \<comment> \<open>\<open>PointToPointHelper::Install\<close>\<close>
  Assign :: "nat \<Rightarrow> 'd list \<Rightarrow> 'a list"      \<comment> \<open>\<open>Ipv4AddressHelper::Assign\<close>\<close>
  node_of :: "'d \<Rightarrow> 'n"
  device_of :: "'a \<Rightarrow> 'd"

datatype 'a app =
    EchoServer nat                \<comment> \<open>port\<close>
  | EchoClient 'a nat nat nat nat \<comment> \<open>address, port, \<open>MaxPackets\<close>, \<open>Interval\<close>, \<open>PacketSize\<close>\<close>
  | PacketSink nat
  | Source 'a nat my_app          \<comment> \<open>\<open>MyApp\<close> with the address and port it connects to\<close>

datatype ('n, 'd, 'a) call =
    SetResolution string
  | LogEnable string
  | InstallLink string string "'n list" "'d list"       \<comment> \<open>with \<open>DataRate\<close> and \<open>Delay\<close>\<close>
  | SetErrorRate nat rat                                 \<comment> \<open>of an error model, by its number\<close>
  | SetReceiveErrorModel 'd nat                          \<comment> \<open>the device keeps a pointer\<close>
  | InstallStack "'n list"
  | InstallAll
  | AssignAddresses string string "'d list" "'a list"   \<comment> \<open>with base and netmask\<close>
  | InstallApp 'n "'a app" nat nat                       \<comment> \<open>with start and stop\<close>
  | FlowNow 'n 'a nat                                    \<comment> \<open>\<open>ScheduleNow (&StartFlow, ...)\<close>\<close>
  | PopulateRoutingTables
  | Trace string
  | StopAt nat
  | Run
  | Destroy

text \<open>\<open>Get\<close> of a container.\<close>

definition Get :: "'x list \<Rightarrow> nat \<Rightarrow> fault + 'x" where
  "Get xs i = (if i < length xs then Inr (xs ! i) else Inl OutOfBounds)"

section \<open>The code\<close>

text \<open>The three containers of the chain, each with the last node of the one before.\<close>

definition chain_nodes :: "('n, 'd, 'a) ns3 \<Rightarrow> fault + ('n list \<times> 'n list \<times> 'n list)" where
  "chain_nodes s =
    (let NODE_NUM = 2;
         nodes_ab = Create s 0 NODE_NUM
     in bindE (Get nodes_ab 1) (\<lambda>b.
        let nodes_bc = [b] @ Create s 1 (NODE_NUM - 1)
        in bindE (Get nodes_bc 1) (\<lambda>c.
           let nodes_cd = [c] @ Create s 2 (NODE_NUM - 1)
           in Inr (nodes_ab, nodes_bc, nodes_cd))))"

definition udpchain_main :: "('n, 'd, 'a) ns3 \<Rightarrow> fault + ('n, 'd, 'a) call list" where
  "udpchain_main s =
    bindE (chain_nodes s) (\<lambda>(nodes_ab, nodes_bc, nodes_cd).
    let devices_ab = Install s 0 nodes_ab;
        devices_bc = Install s 1 nodes_bc;
        devices_cd = Install s 2 nodes_cd;
        interfaces_ab = Assign s 0 devices_ab;
        interfaces_bc = Assign s 1 devices_bc;
        interfaces_cd = Assign s 2 devices_cd
    in bindE (Get nodes_ab 0) (\<lambda>a.
       bindE (Get nodes_bc 0) (\<lambda>b.
       bindE (Get nodes_cd 1) (\<lambda>d.
       bindE (Get interfaces_cd 1) (\<lambda>address.
       Inr
        [SetResolution ''NS'',
         LogEnable ''UdpEchoClientApplication'',
         LogEnable ''UdpEchoServerApplication'',
         InstallLink ''1Mbps'' ''10ms'' nodes_ab devices_ab,
         InstallLink ''1Mbps'' ''10ms'' nodes_bc devices_bc,
         InstallLink ''1Mbps'' ''10ms'' nodes_cd devices_cd,
         InstallStack [a],
         InstallStack [b],
         InstallStack nodes_cd,
         AssignAddresses ''10.1.1.0'' ''255.255.255.0'' devices_ab interfaces_ab,
         AssignAddresses ''10.1.2.0'' ''255.255.255.0'' devices_bc interfaces_bc,
         AssignAddresses ''10.1.3.0'' ''255.255.255.0'' devices_cd interfaces_cd,
         InstallApp d (EchoServer 9) 1 10,
         InstallApp a (EchoClient address 9 5 1 1024) 2 10,
         PopulateRoutingTables,
         Trace ''file1'',
         Run,
         Destroy])))))"

text \<open>There is one error model, number 0, and the devices get pointers to it.\<close>

definition tcpchain_main :: "('n, 'd, 'a) ns3 \<Rightarrow> fault + ('n, 'd, 'a) call list" where
  "tcpchain_main s =
    bindE (chain_nodes s) (\<lambda>(nodes_ab, nodes_bc, nodes_cd).
    let devices_ab = Install s 0 nodes_ab;
        devices_bc = Install s 1 nodes_bc;
        devices_cd = Install s 2 nodes_cd;
        em = 0;
        interfaces_ab = Assign s 0 devices_ab;
        interfaces_bc = Assign s 1 devices_bc;
        interfaces_cd = Assign s 2 devices_cd;
        sinkPort = 8080
    in bindE (Get devices_ab 1) (\<lambda>dev_ab.
       bindE (Get devices_cd 1) (\<lambda>dev_cd.
       bindE (Get devices_bc 1) (\<lambda>dev_bc.
       bindE (Get nodes_ab 0) (\<lambda>a.
       bindE (Get nodes_bc 0) (\<lambda>b.
       bindE (Get interfaces_cd 1) (\<lambda>sinkAddress.
       bindE (Get nodes_cd 1) (\<lambda>d.
       Inr
        [InstallLink ''5Mbps'' ''2ms'' nodes_ab devices_ab,
         InstallLink ''5Mbps'' ''2ms'' nodes_bc devices_bc,
         InstallLink ''5Mbps'' ''2ms'' nodes_cd devices_cd,
         SetErrorRate em (1 / 1000000),
         SetReceiveErrorModel dev_ab em,
         SetReceiveErrorModel dev_cd em,
         SetErrorRate em (5 / 100000),
         SetReceiveErrorModel dev_bc em,
         InstallStack [a],
         InstallStack [b],
         InstallStack nodes_cd,
         AssignAddresses ''10.1.1.0'' ''255.255.255.252'' devices_ab interfaces_ab,
         AssignAddresses ''10.1.2.0'' ''255.255.255.252'' devices_bc interfaces_bc,
         AssignAddresses ''10.1.3.0'' ''255.255.255.252'' devices_cd interfaces_cd,
         InstallApp d (PacketSink sinkPort) 0 20,
         InstallApp a (Source sinkAddress sinkPort (setup_app 1040 1000 1000000 new_app)) 1 20,
         Trace ''mysixth.cwnd'',
         Trace ''mysixth.pcap'',
         PopulateRoutingTables,
         Trace ''mysixth'',
         StopAt 20,
         Run,
         Destroy]))))))))"

definition myproj2_main :: "('n, 'd, 'a) ns3 \<Rightarrow> fault + ('n, 'd, 'a) call list" where
  "myproj2_main s =
    bindE (chain_nodes s) (\<lambda>(n0n1, n1n2, n2n3).
    let dev0 = Install s 0 n0n1;
        dev1 = Install s 1 n1n2;
        dev2 = Install s 2 n2n3;
        em = 0;
        ipInterfs = Assign s 2 dev2;
        servPort = 50000
    in bindE (Get dev0 1) (\<lambda>d0.
       bindE (Get dev2 1) (\<lambda>d2.
       bindE (Get dev1 1) (\<lambda>d1.
       bindE (Get n2n3 1) (\<lambda>n3.
       bindE (Get n0n1 0) (\<lambda>n0.
       bindE (Get ipInterfs 1) (\<lambda>servAddress.
       Inr
        [InstallLink ''1Mbps'' ''10ms'' n0n1 dev0,
         InstallLink ''1Mbps'' ''10ms'' n1n2 dev1,
         InstallLink ''1Mbps'' ''10ms'' n2n3 dev2,
         SetErrorRate em (1 / 1000000),
         SetReceiveErrorModel d0 em,
         SetReceiveErrorModel d2 em,
         SetErrorRate em (1 / 100000),
         SetReceiveErrorModel d1 em,
         InstallAll,
         AssignAddresses ''10.1.3.0'' ''255.255.255.0'' dev0 (Assign s 0 dev0),
         AssignAddresses ''10.1.2.0'' ''255.255.255.0'' dev1 (Assign s 1 dev1),
         AssignAddresses ''10.1.1.0'' ''255.255.255.0'' dev2 ipInterfs,
         PopulateRoutingTables,
         InstallApp n3 (PacketSink servPort) 0 20,
         Trace ''myproj2.cwnd'',
         FlowNow n0 servAddress servPort,
         Trace ''tcp-large-transfer.tr'',
         Trace ''tcp-large-transfer'',
         StopAt 1000,
         Run,
         Destroy])))))))"

section \<open>What the simulator promises\<close>

definition ns3_ok :: "('n, 'd, 'a) ns3 \<Rightarrow> bool" where
  "ns3_ok s \<longleftrightarrow>
    (\<forall>k n. length (Create s k n) = n \<and> distinct (Create s k n)) \<and>
    (\<forall>j k m n. j \<noteq> k \<longrightarrow> set (Create s j m) \<inter> set (Create s k n) = {}) \<and>
    (\<forall>k ns. length ns = 2 \<longrightarrow> map (node_of s) (Install s k ns) = ns) \<and>
    (\<forall>k ds. map (device_of s) (Assign s k ds) = ds)"

text \<open>What a run has set up: links, stacks, networks, servers and clients.\<close>

fun links :: "('n, 'd, 'a) call list \<Rightarrow> ('n list \<times> 'd list) list" where
  "links [] = []"
| "links (InstallLink rate delay ns ds # cs) = (ns, ds) # links cs"
| "links (c # cs) = links cs"

fun stacks :: "'n list \<Rightarrow> ('n, 'd, 'a) call list \<Rightarrow> 'n list" where
  "stacks nodes [] = []"
| "stacks nodes (InstallStack ns # cs) = ns @ stacks nodes cs"
| "stacks nodes (InstallAll # cs) = nodes @ stacks nodes cs"
| "stacks nodes (c # cs) = stacks nodes cs"

fun networks :: "('n, 'd, 'a) call list \<Rightarrow> (string \<times> string \<times> 'd list) list" where
  "networks [] = []"
| "networks (AssignAddresses base netmask ds as # cs) = (base, netmask, ds) # networks cs"
| "networks (c # cs) = networks cs"

fun servers :: "('n, 'd, 'a) call list \<Rightarrow> ('n \<times> nat \<times> nat \<times> nat) list" where
  "servers [] = []"
| "servers (InstallApp n (EchoServer port) t t' # cs) = (n, port, t, t') # servers cs"
| "servers (InstallApp n (PacketSink port) t t' # cs) = (n, port, t, t') # servers cs"
| "servers (c # cs) = servers cs"

fun clients :: "('n, 'd, 'a) call list \<Rightarrow> ('n \<times> 'a \<times> nat \<times> nat) list" where
  "clients [] = []"
| "clients (InstallApp n (EchoClient a port m i z) t t' # cs) = (n, a, port, t) # clients cs"
| "clients (InstallApp n (Source a port app) t t' # cs) = (n, a, port, t) # clients cs"
| "clients (FlowNow n a port # cs) = (n, a, port, 0) # clients cs"
| "clients (c # cs) = clients cs"

text \<open>Addresses in dots, the network of an address and the hosts it has room for.\<close>

fun octets :: "nat \<Rightarrow> string \<Rightarrow> nat list" where
  "octets n [] = [n]"
| "octets n (c # cs) = (if c = CHR ''.'' then n # octets 0 cs else octets (10 * n + (of_char c - 48)) cs)"

definition ipv4 :: "string \<Rightarrow> u32" where
  "ipv4 s = fold (\<lambda>b w. 256 * w + word_of_nat b) (octets 0 s) 0"

definition network :: "string \<Rightarrow> string \<Rightarrow> u32" where
  "network base netmask = ipv4 base AND ipv4 netmask"

definition hosts :: "string \<Rightarrow> nat" where
  "hosts netmask = unat (NOT (ipv4 netmask)) - 1"

text \<open>
  Four nodes in a chain, with one stack each; every device has one address, in the network
  of its link, which has room for it; one client on the first node, one server on the last;
  the client has the address of a device of the server's node and its port, and starts while
  the server runs.
\<close>

definition wired :: "('n, 'd, 'a) ns3 \<Rightarrow> ('n, 'd, 'a) call list \<Rightarrow> bool" where
  "wired s cs \<longleftrightarrow> (\<exists>n0 n1 n2 n3 a port t t' u.
    distinct [n0, n1, n2, n3] \<and>
    map fst (links cs) = [[n0, n1], [n1, n2], [n2, n3]] \<and>
    map (map (node_of s) \<circ> snd) (links cs) = [[n0, n1], [n1, n2], [n2, n3]] \<and>
    distinct (stacks [n0, n1, n2, n3] cs) \<and> set (stacks [n0, n1, n2, n3] cs) = {n0, n1, n2, n3} \<and>
    map (\<lambda>(base, netmask, ds). ds) (networks cs) = map snd (links cs) \<and>
    distinct (map (\<lambda>(base, netmask, ds). network base netmask) (networks cs)) \<and>
    (\<forall>(base, netmask, ds) \<in> set (networks cs). length ds \<le> hosts netmask) \<and>
    servers cs = [(n3, port, t, t')] \<and>
    clients cs = [(n0, a, port, u)] \<and> node_of s (device_of s a) = n3 \<and> t \<le> u \<and> u < t')"

text \<open>
  The error rate that a device has after a run: that of the model it points to, which is
  the last one set on that model.
\<close>

fun model_of :: "('n, 'd, 'a) call list \<Rightarrow> 'd \<Rightarrow> nat option" where
  "model_of [] d = None"
| "model_of (SetReceiveErrorModel d' k # cs) d =
    (case model_of cs d of None \<Rightarrow> if d = d' then Some k else None | Some k \<Rightarrow> Some k)"
| "model_of (c # cs) d = model_of cs d"

fun rate_of :: "('n, 'd, 'a) call list \<Rightarrow> nat \<Rightarrow> rat option" where
  "rate_of [] k = None"
| "rate_of (SetErrorRate k' r # cs) k =
    (case rate_of cs k of None \<Rightarrow> if k = k' then Some r else None | Some r \<Rightarrow> Some r)"
| "rate_of (c # cs) k = rate_of cs k"

definition receive_error_rate :: "('n, 'd, 'a) call list \<Rightarrow> 'd \<Rightarrow> rat option" where
  "receive_error_rate cs d = Option.bind (model_of cs d) (rate_of cs)"

text \<open>The rate the model had when the device was given its pointer.\<close>

fun rate_when_set :: "('n, 'd, 'a) call list \<Rightarrow> ('n, 'd, 'a) call list \<Rightarrow> 'd \<Rightarrow> rat option" where
  "rate_when_set past [] d = None"
| "rate_when_set past (c # cs) d =
    (case rate_when_set (past @ [c]) cs d of
       None \<Rightarrow> (case c of SetReceiveErrorModel d' k \<Rightarrow> if d = d' then rate_of past k else None | _ \<Rightarrow> None)
     | Some r \<Rightarrow> Some r)"

section \<open>Containers\<close>

lemma Get_simps [simp]: "Get [x, y] 0 = Inr x" "Get [x, y] (Suc 0) = Inr y" "Get (x # y # xs) 1 = Inr y"
  by (simp_all add: Get_def)

lemma map_eq_two: "map f xs = [x, y] \<Longrightarrow> \<exists>a b. xs = [a, b] \<and> f a = x \<and> f b = y"
  by (auto simp: map_eq_Cons_conv)

text \<open>The chain that the calls of \<open>Create\<close>, \<open>Install\<close> and \<open>Assign\<close> make.\<close>

lemma chain:
  assumes "ns3_ok s"
  obtains n0 n1 n2 n3 d01 d10 d12 d21 d23 d32 a01 a10 a12 a21 a23 a32
  where "chain_nodes s = Inr ([n0, n1], [n1, n2], [n2, n3])" "distinct [n0, n1, n2, n3]"
    "Install s 0 [n0, n1] = [d01, d10]" "Install s 1 [n1, n2] = [d12, d21]" "Install s 2 [n2, n3] = [d23, d32]"
    "Assign s 0 [d01, d10] = [a01, a10]" "Assign s 1 [d12, d21] = [a12, a21]" "Assign s 2 [d23, d32] = [a23, a32]"
    "node_of s d01 = n0" "node_of s d10 = n1" "node_of s d12 = n1" "node_of s d21 = n2" "node_of s d23 = n2"
    "node_of s d32 = n3" "device_of s a32 = d32"
proof -
  have create: "length (Create s k n) = n" "distinct (Create s k n)" for k n
    using assms by (auto simp: ns3_ok_def)
  have disjoint: "set (Create s j m) \<inter> set (Create s k n) = {}" if "j \<noteq> k" for j k m n
    using assms that by (auto simp: ns3_ok_def)
  obtain n0 n1 where ab: "Create s 0 2 = [n0, n1]"
    using create(1) [of 0 2] by (auto simp: numeral_2_eq_2 length_Suc_conv)
  obtain n2 where bc: "Create s 1 1 = [n2]"
    using create(1) [of 1 1] by (auto simp: length_Suc_conv)
  obtain n3 where cd: "Create s 2 1 = [n3]"
    using create(1) [of 2 1] by (auto simp: length_Suc_conv)
  have "distinct [n0, n1, n2, n3]"
    using create(2) [of 0 2] disjoint [of 0 1 2 1] disjoint [of 0 2 2 1] disjoint [of 1 2 1 1]
    unfolding ab bc cd by auto
  moreover have "chain_nodes s = Inr ([n0, n1], [n1, n2], [n2, n3])"
    using bc cd by (simp add: chain_nodes_def ab Let_def)
  moreover have "\<exists>d e. Install s k [x, y] = [d, e] \<and> node_of s d = x \<and> node_of s e = y" for k x y
    by (rule map_eq_two) (use assms in \<open>simp add: ns3_ok_def\<close>)
  moreover have "\<exists>a b. Assign s k [d, e] = [a, b] \<and> device_of s a = d \<and> device_of s b = e" for k d e
    by (rule map_eq_two) (use assms in \<open>simp add: ns3_ok_def\<close>)
  ultimately show ?thesis
    by (metis that)
qed

lemma networks_apart:
  "distinct [network ''10.1.1.0'' ''255.255.255.0'', network ''10.1.2.0'' ''255.255.255.0'',
    network ''10.1.3.0'' ''255.255.255.0'']"
  "distinct [network ''10.1.1.0'' ''255.255.255.252'', network ''10.1.2.0'' ''255.255.255.252'',
    network ''10.1.3.0'' ''255.255.255.252'']"
  "hosts ''255.255.255.0'' = 254" "hosts ''255.255.255.252'' = 2"
  by code_simp+

section \<open>Properties\<close>

text \<open>The wiring of all three programs.\<close>

lemma all_wired:
  assumes "ns3_ok s"
  shows "(\<exists>cs. udpchain_main s = Inr cs \<and> wired s cs) \<and> (\<exists>cs. tcpchain_main s = Inr cs \<and> wired s cs) \<and>
    (\<exists>cs. myproj2_main s = Inr cs \<and> wired s cs)"
proof (rule chain [OF assms])
  fix n0 n1 n2 n3 d01 d10 d12 d21 d23 d32 a01 a10 a12 a21 a23 a32
  assume c: "chain_nodes s = Inr ([n0, n1], [n1, n2], [n2, n3])" "distinct [n0, n1, n2, n3]"
    "Install s 0 [n0, n1] = [d01, d10]" "Install s 1 [n1, n2] = [d12, d21]" "Install s 2 [n2, n3] = [d23, d32]"
    "Assign s 0 [d01, d10] = [a01, a10]" "Assign s 1 [d12, d21] = [a12, a21]" "Assign s 2 [d23, d32] = [a23, a32]"
    "node_of s d01 = n0" "node_of s d10 = n1" "node_of s d12 = n1" "node_of s d21 = n2" "node_of s d23 = n2"
    "node_of s d32 = n3" "device_of s a32 = d32"
  note n = networks_apart and c' = c(1,3-8) [unfolded One_nat_def]
  have w: "wired s cs" if "map fst (links cs) = [[n0, n1], [n1, n2], [n2, n3]]"
    "map snd (links cs) = [[d01, d10], [d12, d21], [d23, d32]]"
    "distinct (stacks [n0, n1, n2, n3] cs)" "set (stacks [n0, n1, n2, n3] cs) = {n0, n1, n2, n3}"
    "map (\<lambda>(base, netmask, ds). ds) (networks cs) = [[d01, d10], [d12, d21], [d23, d32]]"
    "distinct (map (\<lambda>(base, netmask, ds). network base netmask) (networks cs))"
    "\<forall>(base, netmask, ds) \<in> set (networks cs). length ds \<le> hosts netmask"
    "servers cs = [(n3, port, t, t')]" "clients cs = [(n0, a32, port, u)]" "t \<le> u" "u < t'" for cs port t t' u
  proof -
    have "map (map (node_of s) \<circ> snd) (links cs) = map (map (node_of s)) (map snd (links cs))"
      by simp
    also have "\<dots> = [[n0, n1], [n1, n2], [n2, n3]]"
      unfolding that(2) using c by simp
    finally show ?thesis
      unfolding wired_def using that c(2,14,15) by metis
  qed
  have "\<exists>cs. udpchain_main s = Inr cs \<and> wired s cs"
    by (simp add: udpchain_main_def c' Let_def, rule w) (use c(2) n in \<open>auto simp: c'\<close>)
  moreover have "\<exists>cs. tcpchain_main s = Inr cs \<and> wired s cs"
    by (simp add: tcpchain_main_def c' Let_def, rule w) (use c(2) n in \<open>auto simp: c'\<close>)
  moreover have "\<exists>cs. myproj2_main s = Inr cs \<and> wired s cs"
    by (simp add: myproj2_main_def c' Let_def, rule w) (use c(2) n in \<open>auto simp: c'\<close>)
  ultimately show ?thesis by blast
qed

text \<open>A simulator: nodes, devices and addresses are pairs of numbers.\<close>

definition numbered :: "(nat \<times> nat, (nat \<times> nat) \<times> nat, (nat \<times> nat) \<times> nat) ns3" where
  "numbered = \<lparr>Create = (\<lambda>k n. map (\<lambda>i. (k, i)) [0..<n]), Install = (\<lambda>k ns. map (\<lambda>n. (n, k)) ns),
    Assign = (\<lambda>k ds. ds), node_of = fst, device_of = (\<lambda>a. a)\<rparr>"

lemma numbered_ok: "ns3_ok numbered"
  by (auto simp: ns3_ok_def numbered_def distinct_map inj_on_def comp_def)

text \<open>
  C38: The simulation \<open>udpchain.cc\<close> runs through its set-up and is wired as
  a chain: four nodes with a stack each, one address for each device in three different
  networks with enough room, and a client on the first node that connects to the address and
  the port of the server on the last, while the server runs.
\<close>

theorem simulations_wired:
  assumes "ns3_ok s"
  shows "\<exists>cs. udpchain_main s = Inr cs \<and> wired s cs"
  using all_wired [OF assms] by blast

theorem simulations_wired_witness: "\<exists>cs. udpchain_main numbered = Inr cs \<and> wired numbered cs"
  using simulations_wired [OF numbered_ok] .

text \<open>
  \<open>tcpchain.cc\<close> and \<open>myproj2.cc\<close> have the same chain, although their comments, left over from the
  examples they started from, speak of two nodes, of three nodes, and of a sink on the last but one.
\<close>

lemma tcp_chains_wired:
  "ns3_ok s \<Longrightarrow> (\<exists>cs. tcpchain_main s = Inr cs \<and> wired s cs) \<and> (\<exists>cs. myproj2_main s = Inr cs \<and> wired s cs)"
  using all_wired by blast

text \<open>
  C39: The error models of the three links of \<open>tcpchain.cc\<close> and \<open>myproj2.cc\<close> are one object: the
  outer links are set up with the rate 0.000001, but in the run all three have the rate that
  is set on the object for the link in the middle.
\<close>

theorem shared_error_model:
  assumes "ns3_ok s"
  shows "(\<exists>cs. tcpchain_main s = Inr cs \<and>
      map (\<lambda>(ns, ds). rate_when_set [] cs (ds ! 1)) (links cs) =
        [Some (1 / 1000000), Some (5 / 100000), Some (1 / 1000000)] \<and>
      map (\<lambda>(ns, ds). receive_error_rate cs (ds ! 1)) (links cs) = replicate 3 (Some (5 / 100000))) \<and>
    (\<exists>cs. myproj2_main s = Inr cs \<and>
      map (\<lambda>(ns, ds). rate_when_set [] cs (ds ! 1)) (links cs) =
        [Some (1 / 1000000), Some (1 / 100000), Some (1 / 1000000)] \<and>
      map (\<lambda>(ns, ds). receive_error_rate cs (ds ! 1)) (links cs) = replicate 3 (Some (1 / 100000)))"
proof (rule chain [OF assms])
  fix n0 n1 n2 n3 d01 d10 d12 d21 d23 d32 a01 a10 a12 a21 a23 a32
  assume c: "chain_nodes s = Inr ([n0, n1], [n1, n2], [n2, n3])" "distinct [n0, n1, n2, n3]"
    "Install s 0 [n0, n1] = [d01, d10]" "Install s 1 [n1, n2] = [d12, d21]" "Install s 2 [n2, n3] = [d23, d32]"
    "Assign s 0 [d01, d10] = [a01, a10]" "Assign s 1 [d12, d21] = [a12, a21]" "Assign s 2 [d23, d32] = [a23, a32]"
    "node_of s d01 = n0" "node_of s d10 = n1" "node_of s d12 = n1" "node_of s d21 = n2" "node_of s d23 = n2"
    "node_of s d32 = n3" "device_of s a32 = d32"
  note c' = c(1,3-8) [unfolded One_nat_def]
  have d: "d10 \<noteq> d21" "d10 \<noteq> d32" "d21 \<noteq> d32"
    using c(2,10,12,14) by auto
  then show ?thesis
    by (auto simp: tcpchain_main_def myproj2_main_def c' Let_def receive_error_rate_def numeral_3_eq_3)
qed

theorem shared_error_model_witness:
  "\<exists>cs. tcpchain_main numbered = Inr cs \<and>
    map (\<lambda>(ns, ds). receive_error_rate cs (ds ! 1)) (links cs) = replicate 3 (Some (5 / 100000))"
  using shared_error_model [OF numbered_ok] by blast

section \<open>The packets of MyApp in time\<close>

text \<open>
  The run of a started application up to the time \<open>stop\<close>: its event fires at its time. The
  unit of time is that of one bit at the data rate.
\<close>

function app_run :: "nat \<Rightarrow> nat \<Rightarrow> my_app \<Rightarrow> my_app" where
  "app_run stop t a =
    (case m_sendEvent a of
       None \<Rightarrow> a
     | Some dt \<Rightarrow>
         if 0 < dt \<and> t + dt < stop then app_run stop (t + dt) (SendPacket (a\<lparr>m_sendEvent := None\<rparr>)) else a)"
  by auto
termination
  by (relation "measure (\<lambda>(stop, t, a). stop - t)") auto

declare app_run.simps [simp del]

definition next_event :: "my_app \<Rightarrow> nat option" where
  "next_event a = (if m_packetsSent a < m_nPackets a then Some (m_packetSize a * 8) else None)"

lemma app_run_sends:
  assumes "m_running a" and "m_sendEvent a = next_event a" and "packets a = replicate (m_packetsSent a) (m_packetSize a)"
    and "0 < m_packetSize a" and "m_packetsSent a \<le> m_nPackets a"
    and "t + (m_nPackets a - m_packetsSent a) * (m_packetSize a * 8) < stop"
  shows "packets (app_run stop t a) = replicate (m_nPackets a) (m_packetSize a) \<and> m_sendEvent (app_run stop t a) = None"
  using assms
proof (induction "m_nPackets a - m_packetsSent a" arbitrary: a t)
  case 0
  then show ?case
    by (simp add: app_run.simps [of stop t a] next_event_def)
next
  case (Suc k)
  define b where "b = SendPacket (a\<lparr>m_sendEvent := None\<rparr>)"
  let ?dt = "m_packetSize a * 8"
  have b: "m_running b" "m_sendEvent b = next_event b" "m_packetSize b = m_packetSize a" "m_nPackets b = m_nPackets a"
    "m_packetsSent b = Suc (m_packetsSent a)" "packets b = packets a @ [m_packetSize a]"
    using Suc.prems(1) by (auto simp: b_def SendPacket_def ScheduleTx_def next_event_def Let_def)
  have k: "k = m_nPackets b - m_packetsSent b"
    unfolding b(4,5) using Suc.hyps(2) by arith
  have "(m_nPackets a - m_packetsSent a) * ?dt = ?dt + k * ?dt"
    by (simp flip: Suc.hyps(2))
  then have t: "t + ?dt + k * ?dt < stop"
    using Suc.prems(6) by simp
  have "packets b = replicate (m_packetsSent b) (m_packetSize b)"
    unfolding b Suc.prems(3) by (simp add: replicate_append_same)
  moreover have "m_packetsSent b \<le> m_nPackets b"
    using Suc.hyps(2) b(4,5) by simp
  moreover have "0 < m_packetSize b" "t + ?dt + (m_nPackets b - m_packetsSent b) * (m_packetSize b * 8) < stop"
    using Suc.prems(4) t by (simp_all add: b(3) flip: k)
  ultimately have "packets (app_run stop (t + ?dt) b) = replicate (m_nPackets b) (m_packetSize b) \<and>
      m_sendEvent (app_run stop (t + ?dt) b) = None"
    using b(1,2) by (intro Suc.hyps(1) [OF k])
  moreover have "m_sendEvent a = Some ?dt"
    using Suc.prems(2) Suc.hyps(2) by (simp add: next_event_def)
  then have "app_run stop t a = app_run stop (t + ?dt) b"
    using Suc.prems(4) t by (simp add: app_run.simps [of stop t a] b_def)
  ultimately show ?case
    by (simp only: b(3,4))
qed

text \<open>
  C40: The application of \<open>tcpchain.cc\<close>, started after 1 second, has sent all its 1000 packets of 1040
  bytes and has no event left when it is stopped after 20 seconds.
\<close>

theorem source_sends_all:
  assumes "ns3_ok s"
  shows "\<exists>cs n address app. tcpchain_main s = Inr cs \<and> InstallApp n (Source address 8080 app) 1 20 \<in> set cs \<and>
    packets (app_run (20 * m_dataRate app) (1 * m_dataRate app) (StartApplication app)) = replicate 1000 1040 \<and>
    m_sendEvent (app_run (20 * m_dataRate app) (1 * m_dataRate app) (StartApplication app)) = None"
proof (rule chain [OF assms])
  fix n0 n1 n2 n3 d01 d10 d12 d21 d23 d32 a01 a10 a12 a21 a23 a32
  assume c: "chain_nodes s = Inr ([n0, n1], [n1, n2], [n2, n3])" "Install s 0 [n0, n1] = [d01, d10]"
    "Install s 1 [n1, n2] = [d12, d21]" "Install s 2 [n2, n3] = [d23, d32]" "Assign s 2 [d23, d32] = [a23, a32]"
  define app where "app = setup_app 1040 1000 1000000 new_app"
  define a where "a = StartApplication app"
  have a: "m_running a" "m_sendEvent a = next_event a" "packets a = [1040]" "m_packetsSent a = 1"
    "m_packetSize a = 1040" "m_nPackets a = 1000" "m_dataRate app = 1000000"
    by (simp_all add: a_def app_def StartApplication_def SendPacket_def ScheduleTx_def setup_app_def new_app_def
        next_event_def Let_def)
  then have "packets (app_run 20000000 1000000 a) = replicate 1000 1040 \<and> m_sendEvent (app_run 20000000 1000000 a) = None"
    using app_run_sends [of a 1000000 20000000] by simp
  moreover obtain cs where "tcpchain_main s = Inr cs" "InstallApp n0 (Source a32 8080 app) 1 20 \<in> set cs"
    using c by (simp add: tcpchain_main_def Let_def app_def)
  ultimately show ?thesis
    using a(7) unfolding a_def by (intro exI conjI) (assumption | simp)+
qed

theorem source_sends_all_witness:
  "\<exists>cs n address app. tcpchain_main numbered = Inr cs \<and> InstallApp n (Source address 8080 app) 1 20 \<in> set cs \<and>
    packets (app_run (20 * m_dataRate app) (1 * m_dataRate app) (StartApplication app)) = replicate 1000 1040 \<and>
    m_sendEvent (app_run (20 * m_dataRate app) (1 * m_dataRate app) (StartApplication app)) = None"
  by (rule source_sends_all [OF numbered_ok])

end
