(* ===== verification/Liveness.thy ===== *)
theory Liveness
  imports WholeTransfer
begin

text \<open>
  A transfer never gets stuck on a frame that has been sent: from every state that can be
  reached, whatever the network has lost so far, there is a way on that delivers it. The
  timer asks for the frame the server expects, the driver sends it again, and it arrives.
  Only the stall of the server (\<open>lfr\<close> is 63) ends this.
\<close>

section \<open>One more frame\<close>

definition resend_request_arrives :: "nat \<Rightarrow> driver_input" where
  "resend_request_arrives k =
    block_arrives\<lparr>from_timer := Some (resend_message (slot k)), from_ftpc := None\<rparr>"

lemma resent:
  assumes inv: "driver_inv s"
  shows "\<exists>s' r out now. driver_step (resend_request_arrives k) s =
      Inr (s', Packet_out (fill_packet (packet s) (slot k) (sendbuf s ! nat (slot k)) now) # Start_timer r (slot k) # out) \<and>
    bufpos s' = bufpos s \<and> lar s' = lar s"
proof -
  let ?now = "\<lparr>tv_sec = 0, tv_usec = 0\<rparr> :: timeval"
  obtain s1 r where 1: "resend_step (\<lambda>_. True) ?now (resend_message (slot k)) s = Inr (s1,
      [Packet_out (fill_packet (packet s) (slot k) (sendbuf s ! nat (slot k)) ?now), Start_timer r (slot k)])"
    using resend_step_good [OF inv slot_bounds, of "\<lambda>_. True"] by blast
  have s1: "driver_inv s1" "bufpos s1 = bufpos s" "lar s1 = lar s"
    using resend_step_frame [OF inv 1] by simp_all
  obtain v out where 2: "send_next (\<lambda>_. True) ?now s1 = Inr (v, out)"
  proof (cases "can_send s1")
    case True
    then show ?thesis
      using send_next_good [OF s1(1), of "\<lambda>_. True" ?now] that by blast
  next
    case False
    then show ?thesis
      using that by (simp add: send_next_def)
  qed
  have "bufpos v = bufpos s" "lar v = lar s"
    using send_next_frame [OF s1(1) 2] s1(2,3) by simp_all
  with 1 2 show ?thesis
    by (simp add: driver_step_def resend_request_arrives_def block_arrives_def) blast
qed

text \<open>The frame that the server expects is not acknowledged, so its block is still held.\<close>

lemma expected_frame:
  assumes "transfer msg blk s R N A out t n sout K" and st: "is_stream blk" and "n < N"
  shows "n \<notin> A" "R \<le> n + 64" "sendbuf s ! nat (slot n) = blk n" "driver_inv s"
proof -
  have run: "sender_run msg blk s R N A out" and t: "transfer_inv blk N A t n sout K"
    using transfer_invariant [OF assms(1) st] by simp_all
  have out: "out_inv blk s R N A"
    using sender_run_inv [OF run st] by simp
  have "slots (abs_recv t) ! 0 = zero_block"
    using t by (simp add: transfer_inv_def stream_inv_def)
  then have "n \<notin> received (abs_recv t) n"
    by (simp add: received_def)
  then show A: "n \<notin> A"
    using t by (auto simp: transfer_inv_def)
  have "n < R"
    using out assms(3) by (simp add: out_inv_def)
  with A out show "R \<le> n + 64" "sendbuf s ! nat (slot n) = blk n" "driver_inv s"
    by (simp_all add: out_inv_def held_def)
qed

lemma one_more_frame:
  assumes tr: "transfer msg blk s R N A out t n sout K" and st: "is_stream blk"
    and n: "n < N" and lfr: "lfr t \<noteq> 63"
  shows "\<exists>s' N' out' t' n' sout' K'.
    continues msg blk (s, R, N, A, out, t, n, sout, K) (s', R, N', A, out', t', n', sout', K') \<and>
    N \<le> N' \<and> n < n' \<and> lar s' = lar s"
proof -
  note e = expected_frame [OF tr st n]
  obtain s' r o1 now where step: "driver_step (resend_request_arrives n) s =
      Inr (s', Packet_out (fill_packet (packet s) (slot n) (blk n) now) # Start_timer r (slot n) # o1)"
    "bufpos s' = bufpos s" "lar s' = lar s"
    using resent [OF e(4), of n] e(3) by auto
  define pkt where "pkt = fill_packet (packet s) (slot n) (blk n) now"
  define N' where "N' = (if lfs s' = lfs s then N else Suc N)"
  have "timer_ok (resend_request_arrives n) R N"
    using n e(2) by (auto simp: timer_ok_def resend_request_arrives_def)
  then obtain out' where one: "transfer_step msg blk (s, R, N, A, out, t, n, sout, K) (s', R, N', A, out', t, n, sout, K)"
    "Packet_out pkt \<in> set out'"
    using transfer_step.driver [OF _ _ _ step(1), where N = N and R = R and msg = msg and blk = blk and K = K and a = "{}" and A = A and out = out and t = t and n = n and sout = sout] step(2)
    by (auto simp: ftpc_ok_def network_ack_def resend_request_arrives_def block_arrives_def N'_def pkt_def)
  have ready: "packet_ready (packet s)"
    by (rule driver_invD(9) [OF e(4)])
  have N': "N \<le> N'" "n < N'"
    using n by (simp_all add: N'_def)
  have t: "server_ok t" "stream_inv blk (abs_recv t) n"
    using transfer_invariant [OF tr st] by (simp_all add: transfer_inv_def)
  obtain t' n' a where srv: "server_step all_sent t (Some pkt) =
      Inr (t', map To_ftps (map blk [n..<n']) @ [To_troll a])" "n < n'"
    using server_step_frame [OF st t(1) lfr t(2) _ _ ready, of n now] by (auto simp: pkt_def slot_def)
  have "carried blk A n pkt"
    using ready by (auto simp: carried_def packet_of_def pkt_def)
  note two = transfer_step.server [OF one(2) N'(2) this _ _ lfr srv(1)]
  moreover have "ftps_of (map To_ftps (map blk [n..<n']) @ [To_troll a]) = map blk [n..<n']"
    using ftps_of_map [of "\<lambda>b. b" "map blk [n..<n']"] by simp
  then have "n < n + length (ftps_of (map To_ftps (map blk [n..<n']) @ [To_troll a]))"
    using srv(2) by simp
  moreover have "continues msg blk (s, R, N, A, out, t, n, sout, K) (s', R, N', A, out', t',
      n + length (ftps_of (map To_ftps (map blk [n..<n']) @ [To_troll a])),
      sout @ map To_ftps (map blk [n..<n']) @ [To_troll a],
      K \<union> {(n, d) |d. To_troll d \<in> set (map To_ftps (map blk [n..<n']) @ [To_troll a])})"
    by (rule continues_first [OF one(1) continues_one], rule two) simp_all
  ultimately show ?thesis
    using N'(1) step(3) by blast
qed

lemma deliver_sent:
  assumes "transfer msg blk s R N A out t n sout K" and "is_stream blk"
  shows "\<exists>s' N' out' t' n' sout' K'.
    continues msg blk (s, R, N, A, out, t, n, sout, K) (s', R, N', A, out', t', n', sout', K') \<and>
    N \<le> N' \<and> n \<le> n' \<and> (n' = N' \<or> lfr t' = 63) \<and> lar s' = lar s"
  using assms(1)
proof (induction "R - n" arbitrary: s N out t n sout K rule: less_induct)
  case less
  have inv: "transfer_inv blk N A t n sout K" and "out_inv blk s R N A"
    using transfer_invariant [OF less.prems assms(2)] sender_run_inv [OF _ assms(2)] by blast+
  then have "{..<n} \<subseteq> {..<N}" "N \<le> R"
    by (auto simp: transfer_inv_def received_def out_inv_def)
  then have nN: "n \<le> N" "N \<le> R" by simp_all
  show ?case
  proof (cases "n = N \<or> lfr t = 63")
    case True
    then show ?thesis by blast
  next
    case False
    then obtain s1 N1 out1 t1 n1 sout1 K1 where
      one: "continues msg blk (s, R, N, A, out, t, n, sout, K) (s1, R, N1, A, out1, t1, n1, sout1, K1)"
        "N \<le> N1" "n < n1" "lar s1 = lar s"
      using one_more_frame [OF less.prems assms(2)] nN by fastforce
    have "R - n1 < R - n"
      using one(3) False nN by linarith
    from less.hyps [OF this transfer_continues [OF one(1) less.prems]] obtain s' N' out' t' n' sout' K' where
      rest: "continues msg blk (s1, R, N1, A, out1, t1, n1, sout1, K1) (s', R, N', A, out', t', n', sout', K')"
        "N1 \<le> N'" "n1 \<le> n'" "n' = N' \<or> lfr t' = 63" "lar s' = lar s1"
      by blast
    have "continues msg blk (s, R, N, A, out, t, n, sout, K) (s', R, N', A, out', t', n', sout', K')"
      by (rule continues_trans [OF one(1) rest(1)])
    moreover have "N \<le> N'" "n \<le> n'" "lar s' = lar s"
      using one(2-4) rest(2,3,5) by simp_all
    ultimately show ?thesis
      using rest(4) by blast
  qed
qed

section \<open>Taking and sending what is left\<close>

text \<open>Without a delivery the server expects the same frame as before.\<close>

lemma deliver_nothing: "deliver sent n bs i hi = Inr (j, out) \<Longrightarrow> ftps_of out = [] \<Longrightarrow> j = i"
  by (subst (asm) deliver.simps) (auto simp: bindE_eq_Inr split: if_splits)

lemma accept_nothing:
  assumes "accept_packet sent s q buf len = Inr (s', out)" and "ftps_of out = []"
  shows "lfr s' = lfr s"
proof -
  have straight: "lfr s' = lfr s" if "advance_straight sent n s = Inr (s', out)" for n s
  proof (cases "deliver sent n (recvbuf s) (lfr s + 1) (laf s)")
    case (Inr r)
    obtain i o1 where r: "r = (i, o1)" by (cases r)
    show ?thesis
    proof (cases "i = lfr s + 1")
      case False
      then have "ftps_of o1 \<noteq> []"
        using deliver_nothing Inr r by blast
      moreover have "o1 = out"
        using that False by (simp add: advance_straight_def Inr r bindE_eq_Inr Let_def del: split_paired_Ex) blast
      ultimately show ?thesis using assms(2) by simp
    qed (use that in \<open>simp add: advance_straight_def Inr r\<close>)
  qed (use that in \<open>simp add: advance_straight_def\<close>)
  have wrapped: "lfr s' = lfr s" if "advance_wrapped sent n s = Inr (s', out)" for n s
  proof (cases "deliver sent n (recvbuf s) (lfr s + 1) 63")
    case (Inr r)
    obtain i o1 where r: "r = (i, o1)" by (cases r)
    show ?thesis
    proof (cases "i = lfr s + 1")
      case False
      then have "ftps_of o1 \<noteq> []"
        using deliver_nothing Inr r by blast
      moreover have "\<exists>o2. out = o1 @ o2"
        using that False
        by (simp add: advance_wrapped_def Inr r) (auto simp: bindE_eq_Inr Let_def split: if_splits)
      ultimately show ?thesis using assms(2) by auto
    qed (use that in \<open>simp add: advance_wrapped_def Inr r\<close>)
  qed (use that in \<open>simp add: advance_wrapped_def\<close>)
  consider "lfr s' = lfr s"
    | bs where "advance_straight sent (len - header_size) (s\<lparr>recvbuf := bs\<rparr>) = Inr (s', out)"
    | bs where "advance_wrapped sent (len - header_size) (s\<lparr>recvbuf := bs\<rparr>) = Inr (s', out)"
    using assms(1) by (auto simp: accept_packet_def bindE_eq_Inr Let_def split: if_splits)
  then show ?thesis
  proof cases
    case 2
    from straight [OF this] show ?thesis by simp
  next
    case 3
    from wrapped [OF this] show ?thesis by simp
  qed
qed

lemma server_nothing:
  assumes "server_step sent s r = Inr (s', out)" and "ftps_of out = []"
  shows "lfr s' = lfr s"
proof (cases r)
  case (Some d)
  define buf where "buf = put_bytes 0 (take packet_size d) (replicate packet_size 0)"
  show ?thesis
  proof (cases "packet_ok buf")
    case True
    then obtain t o1 where "accept_packet sent s (packet_seq buf) buf (min (length d) packet_size) = Inr (t, o1)"
      "lfr s' = lfr t" "ftps_of o1 = []"
      using assms Some by (auto simp: server_step_def Let_def bindE_eq_Inr simp flip: buf_def split: if_splits)
    then show ?thesis
      using accept_nothing by metis
  qed (use assms Some in \<open>auto simp: server_step_def Let_def simp flip: buf_def\<close>)
qed (use assms in \<open>simp add: server_step_def\<close>)

lemma before_first:
  "transfer msg blk s R N A out t n sout K \<Longrightarrow> n = 0 \<longrightarrow> lfr t = -1"
proof (induction rule: transfer.induct)
  case (start bs p b a)
  then show ?case by (simp add: server_init_def)
next
  case (step s R N A out t n sout K s' R' N' A' out' t' n' sout' K')
  from step.hyps(2) show ?case
  proof cases
    case (server pkt j o1)
    with step.IH show ?thesis
      using server_nothing [OF server(15)] by simp
  next
    case (noise d o1)
    then have "lfr t' = lfr t"
      by (auto simp: server_step_damaged)
    with step.IH noise show ?thesis by simp
  qed (use step.IH in simp)
qed

text \<open>While at most 63 blocks are taken the indices are the counts.\<close>

lemma indices:
  assumes "transfer msg blk s R N A out t n sout K" and "is_stream blk" and "R \<le> 63"
  shows "driver_inv s" "bufpos s = int R" "lfs s = int N - 1" "N \<le> R" "A \<subseteq> {..<N}" "n \<le> N"
    "held blk (sendbuf s) R A" "lfr t \<noteq> 63" "server_ok t"
proof -
  have run: "sender_run msg blk s R N A out" and t: "transfer_inv blk N A t n sout K"
    using transfer_invariant [OF assms(1,2)] by simp_all
  have out: "out_inv blk s R N A"
    using sender_run_inv [OF run assms(2)] by simp
  show "driver_inv s" "bufpos s = int R" "N \<le> R" "A \<subseteq> {..<N}" "held blk (sendbuf s) R A"
    using out assms(3) by (simp_all add: out_inv_def pos_def)
  show "lfs s = int N - 1"
    using out assms(3) by (auto simp: out_inv_def phase_def)
  have "{..<n} \<subseteq> {..<N}"
    using t by (auto simp: transfer_inv_def received_def)
  then show n: "n \<le> N" by simp
  show "lfr t \<noteq> 63" "server_ok t"
    using t n assms(3) \<open>N \<le> R\<close> before_first [OF assms(1)]
    by (cases "n = 0"; auto simp: transfer_inv_def stream_inv_def abs_recv_def)+
qed

lemma sender_window: "sender_run msg blk s R N A out \<Longrightarrow> driver_inv s \<and> lfs s - lar s \<le> 20"
proof (induction rule: sender_run.induct)
  case (start bs p b)
  then show ?case
    using driver_inv_init [OF start] by (simp add: driver_init_def)
next
  case (iteration s R N A out i a s' out')
  then obtain u where u: "driver_inv u" "lar s \<le> lar u" "lfs u = lfs s" "lar s' = lar u"
    "lfs s' = (if can_send u then next_lfs (lfs s) else lfs s)" "driver_inv s'"
    using driver_step_frame [of s i s' out'] by blast
  with iteration.IH driver_invD(3,4,5) [OF u(1)] show ?case
    by (auto simp: can_send_def next_lfs_def split: if_splits)
qed

section \<open>Properties\<close>

text \<open>
  A transfer never gets stuck short of the stall. Every state that can be reached can be
  continued, without another block from the application or another acknowledgement, to one
  in which every frame sent has been delivered, unless the server stalls on the way.
\<close>

theorem transfer_can_finish:
  assumes "transfer msg blk s R N A out t n sout K" and "is_stream blk"
  shows "\<exists>s' N' out' t' n' sout' K'.
    continues msg blk (s, R, N, A, out, t, n, sout, K) (s', R, N', A, out', t', n', sout', K') \<and>
    N \<le> N' \<and> n \<le> n' \<and> (n' = N' \<or> lfr t' = 63)"
  using deliver_sent [OF assms] by blast

theorem transfer_can_finish_witness:
  "\<exists>s out t s' N' out' t' n' sout' K'. transfer (\<lambda>_. ones) (\<lambda>_. ones) s 1 1 {} out t 0 [] {} \<and>
    continues (\<lambda>_. ones) (\<lambda>_. ones) (s, 1, 1, {}, out, t, 0, [], {}) (s', 1, N', {}, out', t', n', sout', K') \<and>
    1 \<le> N' \<and> (n' = N' \<or> lfr t' = 63)"
proof -
  obtain s out where tr: "transfer (\<lambda>_. ones) (\<lambda>_. ones) s 1 1 {} out (server_init (replicate header_size 0)) 0 [] {}"
    using transfer_sent_one by blast
  have "is_stream (\<lambda>_. ones)"
    by (simp add: is_stream_def)
  from transfer_can_finish [OF tr this] tr show ?thesis by blast
qed

end
