(* ===== verification/Window.thy ===== *)
theory Window
  imports Outgoing
begin

text \<open>
  The window of the driver while at most 63 blocks are taken. It is never closed by frames
  that are all acknowledged, and an acknowledgement of the first frame that is not opens it.
\<close>

section \<open>Inputs of the driver\<close>

definition idle :: driver_input where
  "idle = block_arrives\<lparr>from_ftpc := None\<rparr>"

definition ack_arrives :: "byte list \<Rightarrow> driver_input" where
  "ack_arrives d = idle\<lparr>from_troll := Some (Some d)\<rparr>"

section \<open>A frame is outstanding\<close>

text \<open>After an acknowledgement the block behind \<open>lar\<close> is filled.\<close>

lemma ack_finds_block:
  assumes inv: "driver_inv s" and "driver_step i s = Inr (s', out)"
    and d: "from_troll i = Some (Some d)" "good_ack d q" "0 \<le> q" "q < 64" and "lfs s \<noteq> 0"
  shows "filled (sendbuf s' ! nat (lar s' + 1))"
  using assms(2)
proof (rule driver_step_split)
  fix s1 out1 s2 u out2 v out3
  assume 1: "(case from_timer i of None \<Rightarrow> Inr (s, [])
        | Some msg \<Rightarrow> resend_step (sending i) (clock_resend i) msg s) = Inr (s1, out1)"
    and 2: "(case from_ftpc i of None \<Rightarrow> Inr s1 | Some r \<Rightarrow> ftpc_step r s1) = Inr s2"
    and 3: "(case from_troll i of None \<Rightarrow> Inr (s2, []) | Some r \<Rightarrow> ack_step (clock_ack i) r s2) = Inr (u, out2)"
    and 4: "send_next (sending i) (clock_send i) u = Inr (v, out3)"
    and s': "s' = v\<lparr>packet := clear_packet (packet v)\<rparr>"
  have s1: "driver_inv s1" "lfs s1 = lfs s"
    using 1 inv resend_step_frame by (auto split: option.splits)
  have s2: "driver_inv s2" "lfs s2 = lfs s"
    using 2 s1 ftpc_step_frame [OF s1(1)] by (auto split: option.splits)
  note s2' = driver_invD [OF s2(1)]
  have "ack_step (clock_ack i) (Some d) s2 = Inr (u, out2)"
    using 3 d(1) by simp
  then have up: "update_lar (acknowledged (clock_ack i) d q s2) = Inr u"
    using ack_step_good [OF d(2), of s2] s2'(2) by (auto simp: bindE_eq_Inr)
  obtain r where u: "u = acknowledged (clock_ack i) d q s2\<lparr>lar := r\<rparr>"
    "filled (sendbuf (acknowledged (clock_ack i) d q s2) ! nat (r + 1))"
    using update_lar_sound [OF up] s2' s2(2) assms(7) by (auto simp: acknowledged_def)
  have "driver_inv u"
    using ack_step_frame [OF s2(1)] 3 d(1) by (auto split: option.splits)
  from send_next_frame [OF this 4] have "sendbuf s' = sendbuf u" "lar s' = lar u"
    by (simp_all add: s')
  with u show ?thesis by simp
qed

lemma without_ack:
  assumes inv: "driver_inv s" and "driver_step i s = Inr (s', out)"
    and "from_troll i = None \<or> (\<exists>d. from_troll i = Some (Some d) \<and> \<not> ack_ok (take header_size d))"
  shows "lar s' = lar s"
  using assms(2)
proof (rule driver_step_split)
  fix s1 out1 s2 u out2 v out3
  assume 1: "(case from_timer i of None \<Rightarrow> Inr (s, [])
        | Some msg \<Rightarrow> resend_step (sending i) (clock_resend i) msg s) = Inr (s1, out1)"
    and 2: "(case from_ftpc i of None \<Rightarrow> Inr s1 | Some r \<Rightarrow> ftpc_step r s1) = Inr s2"
    and 3: "(case from_troll i of None \<Rightarrow> Inr (s2, []) | Some r \<Rightarrow> ack_step (clock_ack i) r s2) = Inr (u, out2)"
    and 4: "send_next (sending i) (clock_send i) u = Inr (v, out3)"
    and s': "s' = v\<lparr>packet := clear_packet (packet v)\<rparr>"
  have s1: "driver_inv s1" "lar s1 = lar s"
    using 1 inv resend_step_frame by (auto split: option.splits)
  have s2: "driver_inv s2" "lar s2 = lar s"
    using 2 s1 ftpc_step_frame [OF s1(1)] by (auto split: option.splits)
  have "u = s2"
    using 3 assms(3) by (auto simp: ack_step_def Let_def split: if_splits)
  with send_next_frame [OF s2(1)] 4 s2(2) show ?thesis
    by (simp add: s')
qed

lemma some_outstanding:
  assumes "sender_run msg blk s R N A out" and st: "is_stream blk"
  shows "R \<le> 63 \<longrightarrow> lar s < lfs s \<longrightarrow> lfs s \<noteq> 0 \<longrightarrow> (\<exists>k < N. k \<notin> A)"
  using assms(1)
proof (induction rule: sender_run.induct)
  case (start bs p b)
  then show ?case by (simp add: driver_init_def)
next
  case (iteration s R N A out i a s' out')
  define R' where "R' = (if bufpos s' = bufpos s then R else Suc R)"
  have inv: "out_inv blk s R N A"
    using sender_run_inv [OF iteration.hyps(1) st] by simp
  have s: "driver_inv s" "A \<subseteq> {..<N}"
    using inv by (simp_all add: out_inv_def)
  have a: "a \<subseteq> {..<N}"
    using iteration.hyps(4) by (auto simp: acks_ok_def)
  show ?case
  proof (cases "lfs s' = lfs s")
    case False
    then show ?thesis
      using a s(2) by (auto intro: exI [of _ N])
  next
    case True
    have "out_inv blk s' R' N (A \<union> a)"
      using out_inv_step [OF inv st iteration.hyps(2-5)] True by (simp add: R'_def)
    then have s': "cleared (sendbuf s') R' (A \<union> a)" "phase (lar s') (lfs s') (int R') (int N)" "N \<le> R'" "driver_inv s'"
      by (simp_all add: out_inv_def)
    have "\<exists>k < N. k \<notin> A \<union> a" if R: "R' \<le> 63" and l: "lar s' < lfs s'" "lfs s' \<noteq> 0"
    proof -
      consider "a = {}" "lar s' = lar s"
        | d k where "from_troll i = Some (Some d)" "good_ack d (slot k)"
        using iteration.hyps(4) without_ack [OF s(1) iteration.hyps(5)] by (auto simp: acks_ok_def)
      then show ?thesis
      proof cases
        case 1
        moreover have "R \<le> 63"
          using R by (simp add: R'_def split: if_splits)
        ultimately show ?thesis
          using iteration.IH l True by simp
      next
        case 2
        then have f: "filled (sendbuf s' ! nat (lar s' + 1))"
          using ack_finds_block [OF s(1) iteration.hyps(5) 2 slot_bounds] l(2) True by simp
        define j where "j = nat (lar s' + 1)"
        have j: "int j = lar s' + 1"
          using driver_invD(3) [OF s'(4)] by (simp add: j_def)
        have "lfs s' = int N - 1"
          using s'(2,3) R by (auto simp: phase_def)
        then have "j < N"
          using j l(1) by simp
        have "slot j = int j"
          using \<open>j < N\<close> s'(3) R by (simp add: slot_def)
        then have "filled (sendbuf s' ! nat (slot j))"
          using f j by simp
        then have "j \<notin> A \<union> a"
          using s'(1) R unfolding cleared_def by fastforce
        with \<open>j < N\<close> show ?thesis by blast
      qed
    qed
    then show ?thesis
      using True by (simp add: R'_def)
  qed
qed

text \<open>No frame that is not acknowledged lies before the window.\<close>

lemma behind_lar:
  assumes inv: "out_inv blk s R N A" and st: "is_stream blk" and R: "R \<le> 63" and lar: "lar s \<le> lfs s"
    and k: "k < N" "k \<notin> A"
  shows "lar s < int k"
proof (rule ccontr)
  have s: "N \<le> R" "held blk (sendbuf s) R A" "freed (sendbuf s) 0 (lar s)"
    using inv lar R by (simp_all add: out_inv_def low_def)
  assume "\<not> lar s < int k"
  then have "sendbuf s ! nat (int k) = zero_block"
    using s(3) unfolding freed_def by (meson not_less of_nat_0_le_iff)
  moreover have "slot k = int k"
    using k(1) s(1) R by (simp add: slot_def)
  then have "sendbuf s ! nat (int k) = blk k"
    using s(2) k less_le_trans [OF k(1) s(1)] unfolding held_def by metis
  ultimately show False
    using st by (metis is_stream_def checkEmpty_zero_block)
qed

text \<open>The first such frame lies behind \<open>lar\<close>, with only empty slots between.\<close>

lemma first_outstanding:
  assumes run: "sender_run msg blk s R N A out" and st: "is_stream blk" and R: "R \<le> 63"
    and l: "lar s < lfs s" "lfs s \<noteq> 0"
  shows "\<exists>k < N. k \<notin> A \<and> {..<k} \<subseteq> A \<and> lar s < int k \<and> (\<forall>i. lar s < i \<and> i < int k \<longrightarrow> checkEmpty (sendbuf s ! nat i))"
proof -
  have inv: "out_inv blk s R N A"
    using sender_run_inv [OF run st] by simp
  then have s: "driver_inv s" "N \<le> R" "cleared (sendbuf s) R A"
    by (simp_all add: out_inv_def)
  have slot: "slot j = int j" if "j < N" for j
    using that s(2) R by (simp add: slot_def)
  define k where "k = (LEAST k. k \<notin> A)"
  obtain k0 where k0: "k0 < N" "k0 \<notin> A"
    using some_outstanding [OF run st] R l by blast
  then have k: "k \<notin> A" "k < N"
    using LeastI [of "\<lambda>k. k \<notin> A" k0] Least_le [of "\<lambda>k. k \<notin> A" k0] by (simp_all add: k_def)
  moreover have before: "j \<in> A" if "j < k" for j
    using that not_less_Least [of j "\<lambda>k. k \<notin> A"] by (auto simp: k_def)
  moreover have "lar s < int k"
    using behind_lar [OF inv st R _ k(2,1)] l(1) by simp
  moreover have "checkEmpty (sendbuf s ! nat i)" if "lar s < i" "i < int k" for i
  proof -
    have i: "0 \<le> i" "nat i < k"
      using that driver_invD(3) [OF s(1)] by simp_all
    then have "nat i \<in> A" "nat i < N"
      using before k(2) by simp_all
    with s(3) R slot [of "nat i"] i(1) show ?thesis
      by (auto simp: cleared_def)
  qed
  ultimately show ?thesis by blast
qed

section \<open>Opening the window\<close>

lemma idle_step:
  assumes inv: "driver_inv s" and can: "can_send s"
  shows "\<exists>s' out. driver_step idle s = Inr (s', out) \<and> bufpos s' = bufpos s \<and> lar s' = lar s \<and> lfs s' \<noteq> lfs s"
proof -
  let ?now = "\<lparr>tv_sec = 0, tv_usec = 0\<rparr> :: timeval"
  obtain v out where v: "send_next (\<lambda>_. True) ?now s = Inr (v, out)"
    using send_next_good [OF inv can, of "\<lambda>_. True" ?now] by blast
  then have "driver_step idle s = Inr (v\<lparr>packet := clear_packet (packet v)\<rparr>, out)"
    by (simp add: driver_step_def idle_def block_arrives_def)
  moreover have "bufpos v = bufpos s" "lar v = lar s" "lfs v \<noteq> lfs s"
    using send_next_frame [OF inv v] can by (simp_all add: next_lfs_neq)
  ultimately show ?thesis by simp
qed

lemma window_opens:
  assumes inv: "driver_inv s" and ix: "bufpos s = int R" "lfs s = int N - 1" "N < R" "R \<le> 63"
    and w: "lfs s - lar s = 20"
    and k: "lar s < int k" "k < N" "\<forall>i. lar s < i \<and> i < int k \<longrightarrow> checkEmpty (sendbuf s ! nat i)"
    and N: "filled (sendbuf s ! N)" and d: "good_ack d (slot k)"
  shows "\<exists>s' o1. driver_step (ack_arrives d) s = Inr (s', Cancel_timer (slot k) # o1) \<and>
    bufpos s' = bufpos s \<and> lfs s' = next_lfs (lfs s) \<and> lar s' \<le> lfs s'"
proof -
  let ?now = "\<lparr>tv_sec = 0, tv_usec = 0\<rparr> :: timeval"
  note s = driver_invD [OF inv]
  define B where "B = (sendbuf s)[nat (slot k) := zero_block]"
  have k': "slot k = int k"
    using k(2) ix by (simp add: slot_def)
  have N': "filled (B ! N)"
    using N k(2) k' by (simp add: B_def)
  define j where "j = (LEAST j. k < j \<and> filled (B ! j))"
  have j: "k < j" "filled (B ! j)" "j \<le> N"
    using LeastI [of "\<lambda>j. k < j \<and> filled (B ! j)" N] Least_le [of "\<lambda>j. k < j \<and> filled (B ! j)" N] N' k(2)
    by (simp_all add: j_def)
  have zero: "checkEmpty (B ! nat i)" if "lar s < i" "i < int j" for i
  proof (cases "nat i = k")
    case True
    then show ?thesis
      using s(2) k(2) k' ix by (simp add: B_def)
  next
    case False
    then consider "i < int k" | "k < nat i"
      using that s(3) by linarith
    then show ?thesis
    proof cases
      case 1
      with k(3) that(1) False k' show ?thesis by (simp add: B_def)
    next
      case 2
      then show ?thesis
        using that(2) not_less_Least [of "nat i" "\<lambda>j. k < j \<and> filled (B ! j)"] by (auto simp: j_def)
    qed
  qed
  define u where "u = s\<lparr>rtt := calculate_rtt ?now (ack_time (take header_size d)), sendbuf := B, lar := int j - 1\<rparr>"
  have "ack_scan B (lar s) (lfs s) (lar s + 1) = Inr (int j)"
    using w zero j k(1) ix s(2-5) by (intro ack_scan_finds) (auto simp: B_def)
  moreover have "int j < 64"
    using j(3) ix by simp
  ultimately have u: "ack_step ?now (Some d) s = Inr (u, [Cancel_timer (slot k)])"
    using s(2) by (simp add: ack_step_good [OF d] update_lar_def acknowledged_def u_def B_def)
  have inv': "driver_inv u"
    using ack_step_frame [OF inv u] by simp
  have c: "can_send u"
    using w j k(1) ix by (simp add: can_send_def u_def)
  obtain v o1 where v: "send_next (\<lambda>_. True) ?now u = Inr (v, o1)"
    using send_next_good [OF inv' c, of "\<lambda>_. True" ?now] by blast
  define s' where "s' = v\<lparr>packet := clear_packet (packet v)\<rparr>"
  have step: "driver_step (ack_arrives d) s = Inr (s', Cancel_timer (slot k) # o1)"
    using u v by (simp add: driver_step_def ack_arrives_def idle_def block_arrives_def s'_def)
  moreover have "bufpos s' = bufpos s" "lar s' = int j - 1" "lfs s' = next_lfs (lfs s)"
    using send_next_frame [OF inv' v] c by (simp_all add: s'_def u_def)
  moreover from this have "lar s' \<le> lfs s'"
    using j(3) ix by (simp add: next_lfs_def)
  ultimately show ?thesis by blast
qed

end
