(* ===== verification/Completion.thy ===== *)
theory Completion
  imports Liveness Window
begin

text \<open>
  Transfers can be completed: from every state in which \<open>lar\<close> has not overtaken \<open>lfs\<close>, the
  blocks that are left can be taken, sent, sent again and delivered, up to 63 blocks, before
  the frame at which the server stalls. When the window is closed, a packet of its first
  frame is repeated to the server, whose acknowledgement opens it.
\<close>

section \<open>Sending the next frame\<close>

lemma send_more:
  assumes tr: "transfer msg blk s R N A out t n sout K" and st: "is_stream blk" and R: "R \<le> 63"
    and can: "can_send s"
  shows "\<exists>s' out'. continues msg blk (s, R, N, A, out, t, n, sout, K) (s', R, Suc N, A, out', t, n, sout, K) \<and>
    lar s' = lar s"
proof -
  obtain s' o1 where step: "driver_step idle s = Inr (s', o1)" "bufpos s' = bufpos s" "lar s' = lar s" "lfs s' \<noteq> lfs s"
    using idle_step [OF indices(1) [OF tr st R] can] by blast
  with continues_one [OF transfer_step.driver [OF _ _ _ step(1), where N = N and R = R and msg = msg and blk = blk and K = K and a = "{}" and A = A and out = out and t = t and n = n and sout = sout]] show ?thesis
    by (auto simp: timer_ok_def ftpc_ok_def network_ack_def idle_def block_arrives_def)
qed

section \<open>Taking the next block\<close>

lemma block_taken:
  assumes inv: "driver_inv s" and b: "length b \<le> BUFFSIZE"
    and ix: "bufpos s = int R" "lfs s = int N - 1" "N \<le> R" "R < 63" and lar: "lar s \<le> lfs s"
  shows "\<exists>s' out. driver_step (arriving b) s = Inr (s', out) \<and> bufpos s' \<noteq> bufpos s \<and> lar s' = lar s"
proof -
  let ?now = "\<lparr>tv_sec = 0, tv_usec = 0\<rparr> :: timeval"
  note len = driver_invD(2) [OF inv]
  define u where "u = s\<lparr>sendbuf := (sendbuf s)[R := put_bytes 0 b (sendbuf s ! R)], bufpos := int R + 1\<rparr>"
  have u: "ftpc_step (Some b) s = Inr u"
    using lar ix len b by (simp add: ftpc_step_def can_store_def write_block_def Let_def u_def)
  have inv': "driver_inv u" "lar u = lar s"
    using ftpc_step_frame [OF inv u] by simp_all
  obtain v out where v: "send_next (\<lambda>_. True) ?now u = Inr (v, out)"
    using send_next_good [OF inv'(1), of "\<lambda>_. True" ?now]
    by (cases "can_send u") (auto simp: send_next_def)
  then have "driver_step (arriving b) s = Inr (v\<lparr>packet := clear_packet (packet v)\<rparr>, out)"
    using u by (simp add: driver_step_def arriving_def block_arrives_def)
  moreover have "bufpos v \<noteq> bufpos s" "lar v = lar s"
    using send_next_frame [OF inv'(1) v] inv'(2) ix(1) by (simp_all add: u_def)
  ultimately show ?thesis by simp
qed

lemma store_more:
  assumes tr: "transfer msg blk s R N A out t n sout K" and st: "is_stream blk" and R: "R < 63"
    and lar: "lar s \<le> lfs s" and fit: "fits msg blk s R M" and M: "R < M" "M \<le> 64"
  shows "\<exists>s' N' out'. continues msg blk (s, R, N, A, out, t, n, sout, K) (s', Suc R, N', A, out', t, n, sout, K) \<and>
    lar s' = lar s \<and> N \<le> N' \<and> fits msg blk s' (Suc R) M"
proof -
  note ix = indices [OF tr st less_imp_le [OF R]]
  have m: "length (msg R) \<le> BUFFSIZE" "put_bytes 0 (msg R) (sendbuf s ! R) = blk R"
    using fit M(1) by (simp_all add: fits_def)
  then obtain s' o1 where step: "driver_step (arriving (msg R)) s = Inr (s', o1)" "bufpos s' \<noteq> bufpos s" "lar s' = lar s"
    using block_taken [OF ix(1) _ ix(2-4) R lar] by blast
  have ok: "ftpc_ok msg blk (arriving (msg R)) s R" "acks_ok (arriving (msg R)) R N {}"
    using m ix(2) by (simp_all add: ftpc_ok_def acks_ok_def arriving_def block_arrives_def)
  have "out_inv blk s R N A"
    using transfer_invariant [OF tr st] sender_run_inv [OF _ st] by blast
  from fits_driver [OF fit M(2) this ok step(1)] step(2) have "fits msg blk s' (Suc R) M"
    by simp
  moreover have "continues msg blk (s, R, N, A, out, t, n, sout, K)
      (s', Suc R, if lfs s' = lfs s then N else Suc N, A, out @ o1, t, n, sout, K)"
    using continues_one [OF transfer_step.driver [OF _ ok(1) _ step(1), where N = N and K = K and a = "{}" and A = A and out = out and t = t and n = n and sout = sout]] step(2)
    by (simp add: timer_ok_def network_ack_def arriving_def block_arrives_def)
  moreover have "N \<le> (if lfs s' = lfs s then N else Suc N)"
    by simp
  ultimately show ?thesis
    using step(3) by blast
qed

section \<open>Opening the window\<close>

lemma repeat_once:
  assumes tr: "transfer msg blk s R N A out t n sout K" and st: "is_stream blk" and R: "R \<le> 63"
    and k: "k < N" "n \<le> k + 44" "k < n + 20" and pkt: "Packet_out pkt \<in> set out" "packet_of blk k pkt"
  shows "\<exists>t' n' sout' K'. continues msg blk (s, R, N, A, out, t, n, sout, K) (s, R, N, A, out, t', n', sout', K') \<and>
    n \<le> n' \<and> (k, ack_for t pkt) \<in> K' \<and> ack_ready (ack t')"
proof -
  note ix = indices [OF tr st R]
  obtain p now where p: "packet_ready p" "pkt = fill_packet p (slot k) (blk k) now"
    using pkt(2) by (auto simp: packet_of_def)
  have "length (blk k) = BUFFSIZE"
    using st by (simp add: is_stream_def)
  then obtain t' o1 where step: "server_step all_sent t (Some pkt) = Inr (t', o1 @ [To_troll (ack_for t pkt)])"
    "ack_ready (ack t')"
    using server_step_spec [OF ix(9,8) p(1) _ slot_bounds p(2)] by blast
  have "carried blk A k pkt"
    using pkt(2) by (simp add: carried_def)
  from continues_one [OF transfer_step.server [OF pkt(1) k(1) this k(2,3) ix(8) step(1)]] show ?thesis
    using step(2) by (intro exI conjI) (assumption | simp)+
qed

text \<open>Repeated twice, a packet is answered by an acknowledgement with a right checksum.\<close>

lemma acknowledged_again:
  assumes tr: "transfer msg blk s R N A out t n sout K" and st: "is_stream blk" and R: "R \<le> 63"
    and k: "k < N" "N \<le> k + 44" "k < n + 20"
  shows "\<exists>t' n' sout' K' d. continues msg blk (s, R, N, A, out, t, n, sout, K) (s, R, N, A, out, t', n', sout', K') \<and>
    n \<le> n' \<and> (k, d) \<in> K' \<and> good_ack d (slot k)"
proof -
  have "sender_run msg blk s R N A out"
    using transfer_invariant [OF tr st] by simp
  then obtain pkt where pkt: "Packet_out pkt \<in> set out" "packet_of blk k pkt"
    using sender_run_inv [OF _ st] k(1) by blast
  have n: "n \<le> k + 44"
    using indices(6) [OF tr st R] k(2) by simp
  obtain t1 n1 sout1 K1 where
    1: "continues msg blk (s, R, N, A, out, t, n, sout, K) (s, R, N, A, out, t1, n1, sout1, K1)" "n \<le> n1"
      "ack_ready (ack t1)"
    using repeat_once [OF tr st R k(1) n k(3) pkt] by blast
  note tr1 = transfer_continues [OF 1(1) tr]
  have n1: "n1 \<le> k + 44" "k < n1 + 20"
    using indices(6) [OF tr1 st R] k(2,3) 1(2) by simp_all
  obtain t2 n2 sout2 K2 where
    2: "continues msg blk (s, R, N, A, out, t1, n1, sout1, K1) (s, R, N, A, out, t2, n2, sout2, K2)" "n1 \<le> n2"
      "(k, ack_for t1 pkt) \<in> K2"
    using repeat_once [OF tr1 st R k(1) n1 pkt] by blast
  obtain p now where p: "packet_ready p" "pkt = fill_packet p (slot k) (blk k) now"
    using pkt(2) by (auto simp: packet_of_def)
  have "length (blk k) = BUFFSIZE"
    using st by (simp add: is_stream_def)
  then have "packet_seq pkt = slot k"
    using p by (simp add: packet_seq_fill is_int32_index)
  then have "good_ack (ack_for t1 pkt) (slot k)"
    using good_ack_fill [OF 1(3) slot_bounds] by (simp add: ack_for_def)
  moreover have "n \<le> n2"
    using 1(2) 2(2) by simp
  ultimately show ?thesis
    using continues_trans [OF 1(1) 2(1)] 2(3) by blast
qed

text \<open>An acknowledgement of the first frame of a closed window lets the next frame be sent.\<close>

lemma open_window:
  assumes tr: "transfer msg blk s R N A out t n sout K" and st: "is_stream blk" and R: "R \<le> 63" "N < R"
    and lar: "lar s \<le> lfs s" and can: "\<not> can_send s" and k: "int k = lar s + 1"
    and d: "(k, d) \<in> K" "good_ack d (slot k)"
  shows "\<exists>s' A' out'. continues msg blk (s, R, N, A, out, t, n, sout, K) (s', R, Suc N, A', out', t, n, sout, K) \<and>
    lar s' \<le> lfs s'"
proof -
  note ix = indices [OF tr st R(1)]
  have "sender_run msg blk s R N A out"
    using transfer_invariant [OF tr st] by simp
  then have w: "lfs s - lar s = 20"
    using can lar ix(2,3) R sender_window by (fastforce simp: can_send_def)
  have "N \<notin> A"
    using ix(5) by auto
  then have "sendbuf s ! N = blk N"
    using ix(7) R by (auto simp: held_def slot_def)
  then have N: "filled (sendbuf s ! N)"
    using st by (simp add: is_stream_def)
  have k': "lar s < int k" "k < N" "\<forall>i. lar s < i \<and> i < int k \<longrightarrow> checkEmpty (sendbuf s ! nat i)"
    using k w ix(3) by auto
  obtain s' o1 where step: "driver_step (ack_arrives d) s = Inr (s', Cancel_timer (slot k) # o1)"
    and s': "bufpos s' = bufpos s" "lfs s' = next_lfs (lfs s)" "lar s' \<le> lfs s'"
    using window_opens [OF ix(1-3) R(2,1) w k' N d(2)] by blast
  have "ack_ok (take header_size d)"
    using d(2) by (simp add: good_ack_def)
  then have "continues msg blk (s, R, N, A, out, t, n, sout, K)
      (s', R, Suc N, A \<union> {k}, out @ Cancel_timer (slot k) # o1, t, n, sout, K)"
    using continues_one [OF transfer_step.driver [OF _ _ _ step, where N = N and R = R and msg = msg and blk = blk and K = K and a = "{k}" and A = A and out = out and t = t and n = n and sout = sout]] s' d(1) R(1)
    by (simp add: timer_ok_def ftpc_ok_def network_ack_def ack_arrives_def idle_def block_arrives_def next_lfs_neq)
  with s'(3) show ?thesis by blast
qed

section \<open>All that is left\<close>

text \<open>One more frame, through an acknowledgement if the window is closed.\<close>

lemma send_one:
  assumes tr: "transfer msg blk s R N A out t N sout K" and st: "is_stream blk" and R: "R \<le> 63" "N < R"
    and lar: "lar s \<le> lfs s"
  shows "\<exists>s' A' out' t' n' sout' K'.
    continues msg blk (s, R, N, A, out, t, N, sout, K) (s', R, Suc N, A', out', t', n', sout', K') \<and> lar s' \<le> lfs s'"
proof (cases "can_send s")
  case True
  then obtain s2 out2 where
    2: "continues msg blk (s, R, N, A, out, t, N, sout, K) (s2, R, Suc N, A, out2, t, N, sout, K)" "lar s2 = lar s"
    using send_more [OF tr st R(1)] by blast
  then have "lar s2 \<le> lfs s2"
    using lar indices(3) [OF tr st R(1)] indices(3) [OF transfer_continues [OF 2(1) tr] st R(1)] by simp
  with 2(1) show ?thesis by blast
next
  case False
  note ix = indices [OF tr st R(1)]
  have "sender_run msg blk s R N A out"
    using transfer_invariant [OF tr st] by simp
  then have w: "lfs s - lar s = 20"
    using False lar ix(2,3) R sender_window by (fastforce simp: can_send_def)
  define k where "k = nat (lar s + 1)"
  have k: "int k = lar s + 1" "k < N" "N \<le> k + 44"
    using w ix(3) driver_invD(3) [OF ix(1)] by (simp_all add: k_def)
  then obtain t2 n2 sout2 K2 d where
    2: "continues msg blk (s, R, N, A, out, t, N, sout, K) (s, R, N, A, out, t2, n2, sout2, K2)" "(k, d) \<in> K2"
      "good_ack d (slot k)"
    using acknowledged_again [OF tr st R(1) k(2,3)] by auto
  obtain s3 A3 out3 where
    "continues msg blk (s, R, N, A, out, t2, n2, sout2, K2) (s3, R, Suc N, A3, out3, t2, n2, sout2, K2)"
    "lar s3 \<le> lfs s3"
    using open_window [OF transfer_continues [OF 2(1) tr] st R lar False k(1) 2(2,3)] by blast
  with continues_trans [OF 2(1) this(1)] show ?thesis by blast
qed

lemma send_rest:
  assumes "transfer msg blk s R N A out t n sout K" and st: "is_stream blk" and R: "R \<le> 63" and "lar s \<le> lfs s"
  shows "\<exists>s' A' out' t' sout' K'.
    continues msg blk (s, R, N, A, out, t, n, sout, K) (s', R, R, A', out', t', R, sout', K') \<and> lar s' \<le> lfs s'"
  using assms(1,4)
proof (induction "R - N" arbitrary: s N A out t n sout K rule: less_induct)
  case less
  obtain s1 N1 out1 t1 n1 sout1 K1 where
    1: "continues msg blk (s, R, N, A, out, t, n, sout, K) (s1, R, N1, A, out1, t1, n1, sout1, K1)" "N \<le> N1"
      "n1 = N1 \<or> lfr t1 = 63" "lar s1 = lar s"
    using deliver_sent [OF less.prems(1) st] by blast
  note tr1 = transfer_continues [OF 1(1) less.prems(1)]
  note ix1 = indices [OF tr1 st R]
  have n1: "n1 = N1"
    using 1(3) ix1(8) by simp
  have lar1: "lar s1 \<le> lfs s1"
    using 1(2,4) less.prems(2) ix1(3) indices(3) [OF less.prems(1) st R] by simp
  show ?case
  proof (cases "N1 = R")
    case True
    with 1(1) n1 lar1 show ?thesis by blast
  next
    case False
    then have N1: "N1 < R"
      using ix1(4) by simp
    obtain s2 A2 out2 t2 n2 sout2 K2 where
      2: "continues msg blk (s1, R, N1, A, out1, t1, n1, sout1, K1) (s2, R, Suc N1, A2, out2, t2, n2, sout2, K2)"
        "lar s2 \<le> lfs s2"
      using send_one [OF tr1 [unfolded n1] st R N1 lar1] n1 by blast
    have "R - Suc N1 < R - N"
      using N1 1(2) by linarith
    from less.hyps [OF this transfer_continues [OF 2(1) tr1] 2(2)] obtain s' A' out' t' sout' K' where
      "continues msg blk (s2, R, Suc N1, A2, out2, t2, n2, sout2, K2) (s', R, R, A', out', t', R, sout', K')"
      "lar s' \<le> lfs s'"
      by blast
    with continues_trans [OF continues_trans [OF 1(1) 2(1)] this(1)] show ?thesis by blast
  qed
qed

lemma transfer_rest:
  assumes "transfer msg blk s R N A out t n sout K" and st: "is_stream blk" and "lar s \<le> lfs s"
    and M: "R \<le> M" "M \<le> 63" and "fits msg blk s R M"
  shows "\<exists>s' A' out' t' sout' K'.
    continues msg blk (s, R, N, A, out, t, n, sout, K) (s', M, M, A', out', t', M, sout', K')"
  using assms(1,3) M(1) assms(6)
proof (induction "M - R" arbitrary: s R N A out)
  case 0
  then have "R = M" by simp
  with send_rest [OF 0(2) st _ 0(3)] M(2) show ?case by blast
next
  case (Suc m)
  then have R: "R < 63" "m = M - Suc R" "Suc R \<le> M" "R < M" "M \<le> 64"
    using M(2) by simp_all
  obtain s' N' out' where
    s': "continues msg blk (s, R, N, A, out, t, n, sout, K) (s', Suc R, N', A, out', t, n, sout, K)"
      "lar s' = lar s" "N \<le> N'" "fits msg blk s' (Suc R) M"
    using store_more [OF Suc.prems(1) st R(1) Suc.prems(2,4) R(4,5)] by blast
  note tr' = transfer_continues [OF s'(1) Suc.prems(1)]
  have "lar s' \<le> lfs s'"
    using s'(2,3) Suc.prems(2) indices(3) [OF Suc.prems(1) st less_imp_le [OF R(1)]]
      indices(3) [OF tr' st] R(1) by simp
  from Suc.hyps(1) [OF R(2) tr' this R(3) s'(4)] continues_trans [OF s'(1)] show ?case by blast
qed

section \<open>Files that are too long\<close>

lemma ftps_loop_waits:
  assumes "\<forall>k. fwrite k = k" and "\<forall>r \<in> set rs. length r = BUFFSIZE" and "int (BUFFSIZE * length rs) < filesize"
  shows "\<exists>part. ftps_loop fwrite filesize (map Some rs) content = Inr (filesize - int (BUFFSIZE * length rs), part)"
  using assms(2,3)
proof (induction rs arbitrary: filesize content)
  case (Cons r rs)
  then show ?case
    using Cons.IH [of "filesize - int BUFFSIZE" "content @ r"] assms(1) by (simp add: Let_def algebra_simps)
qed simp

lemma at_most_84_delivered:
  assumes "transfer msg blk s R N A out t n sout K" and "is_stream blk"
  shows "n \<le> 84"
proof -
  have run: "sender_run msg blk s R N A out" and t: "transfer_inv blk N A t n sout K"
    using transfer_invariant [OF assms] by simp_all
  have "out_inv blk s R N A"
    using sender_run_inv [OF run assms(2)] by simp
  then have "N \<le> 84"
    by (auto simp: out_inv_def phase_def split: if_splits)
  moreover have "{..<n} \<subseteq> {..<N}"
    using t by (auto simp: transfer_inv_def received_def)
  ultimately show ?thesis by simp
qed

lemma small_fits: "fits small_msg small_stream empty_driver 0 (length [small_header, [1, 2, 3]])"
  using small_file(5) by (simp add: fits_def padded_def empty_driver_def driver_init_def)

section \<open>Properties\<close>

text \<open>
  C4: Every file of up to 62 blocks whose size \<open>ftps\<close> reads right can arrive. From every state of a
  transfer in which \<open>lar\<close> has not overtaken \<open>lfs\<close>, as at the start, whatever has been lost,
  repeated or reordered so far within the conditions of \<open>transfer_step\<close>, it can be continued so
  that all messages of \<open>ftpc\<close> are delivered, and \<open>ftps\<close> has then written the file under its name
  and left its loop. As for the arrival of a file above, no slot taken is all zero, the name has less than 20 bytes and
  \<open>fwrite\<close> writes all; \<open>fits\<close> says what the slots hold behind a short datagram.
\<close>

theorem file_can_arrive:
  assumes "transfer msg blk s R N A out t n sout K" and "is_stream blk" and "lar s \<le> lfs s"
    and "R \<le> length msgs" and "length msgs \<le> 63"
    and "ftpc argc name fopen sends = Inr msgs" and "\<forall>k < length msgs. msg k = msgs ! k"
    and "file_name name" and "fopen name = Some content" and "\<forall>k. fwrite k = k"
    and "size_read (int (length content)) = int (length content)"
    and "fits msg blk s R (length msgs)"
  shows "\<exists>s' A' out' t' sout' K' rest.
    continues msg blk (s, R, N, A, out, t, n, sout, K)
      (s', length msgs, length msgs, A', out', t', length msgs, sout', K') \<and>
    ftps True True fwrite (map Some (ftps_of sout')) =
      Inr (bytes_of_string ''./receive/'' @ name, rest, content) \<and> rest \<le> 0"
proof -
  obtain s' A' out' t' sout' K' where
    c: "continues msg blk (s, R, N, A, out, t, n, sout, K)
      (s', length msgs, length msgs, A', out', t', length msgs, sout', K')"
    using transfer_rest [OF assms(1-5,12)] by blast
  from delivered_file [OF transfer_continues [OF c assms(1)] assms(2,6-11)] c show ?thesis by blast
qed

theorem file_can_arrive_witness:
  "\<exists>s A out t sout K rest.
    continues small_msg small_stream (empty_driver, 0, 0, {}, [], server_init (replicate header_size 0), 0, [], {})
      (s, 2, 2, A, out, t, 2, sout, K) \<and>
    ftps True True (\<lambda>k. k) (map Some (ftps_of sout)) =
      Inr (bytes_of_string ''./receive/'' @ [97], rest, [1, 2, 3]) \<and> rest \<le> 0"
proof -
  have start: "transfer small_msg small_stream empty_driver 0 0 {} [] (server_init (replicate header_size 0)) 0 [] {}"
    unfolding empty_driver_def by (rule transfer.start) (simp_all add: blocks_ok_replicate)
  have "lar empty_driver \<le> lfs empty_driver"
    by (simp add: empty_driver_def driver_init_def)
  from file_can_arrive [OF start small_file(1) this _ _ small_file(2,3,4) _ _ _ small_fits,
      where fwrite = "\<lambda>k. k"] show ?thesis
    by (simp add: size_read_small numeral_2_eq_2)
qed

text \<open>
  Where \<open>lar\<close> overtakes \<open>lfs\<close>. The search behind an acknowledgement does not stop at \<open>lfs\<close>:
  if everything sent is acknowledged and the next block has not come yet, it goes on to the
  first block \<open>j\<close> that happens to be filled in the uninitialised buffer. Then no frame is
  sent any more until another acknowledgement comes, and none is outstanding.
\<close>

theorem lar_overtakes_lfs:
  assumes "driver_inv s" and "lfs s \<noteq> 0" and "good_ack d q" and "lar s < j" and "j < 64"
    and "\<forall>k. lar s < k \<and> k < j \<longrightarrow> checkEmpty ((sendbuf s)[nat q := zero_block] ! nat k)"
    and "filled ((sendbuf s)[nat q := zero_block] ! nat j)"
    and "lfs s + 1 < j" and "j \<le> lfs s + 44"
  shows "\<exists>s1. ack_step t (Some d) s = Inr (s1, [Cancel_timer q]) \<and> lfs s1 < lar s1 \<and>
    (\<forall>i s2 out. from_troll i = None \<and> driver_step i s1 = Inr (s2, out) \<longrightarrow> lfs s2 = lfs s1 \<and> lar s2 = lar s1)"
proof -
  define s1 where "s1 = s\<lparr>rtt := calculate_rtt t (ack_time (take header_size d)),
    sendbuf := (sendbuf s)[nat q := zero_block], lar := j - 1\<rparr>"
  note s = driver_invD [OF assms(1)]
  have "ack_scan ((sendbuf s)[nat q := zero_block]) (lar s) (lfs s) (lar s + 1) = Inr j"
    using assms(2-7) s by (intro ack_scan_finds) auto
  then have 1: "ack_step t (Some d) s = Inr (s1, [Cancel_timer q])"
    using assms(5) s(2) by (simp add: ack_step_good [OF assms(3)] update_lar_def acknowledged_def s1_def)
  have inv: "driver_inv s1"
    using ack_step_frame [OF assms(1) 1] by simp
  have l: "lfs s1 = lfs s" "lar s1 = j - 1"
    by (simp_all add: s1_def)
  have "lfs s2 = lfs s1 \<and> lar s2 = lar s1" if i: "from_troll i = None" and step: "driver_step i s1 = Inr (s2, out)"
    for i s2 out
    using step
  proof (rule driver_step_split)
    fix a out1 b u out2 v out3
    assume a: "(case from_timer i of None \<Rightarrow> Inr (s1, [])
          | Some msg \<Rightarrow> resend_step (sending i) (clock_resend i) msg s1) = Inr (a, out1)"
      and b: "(case from_ftpc i of None \<Rightarrow> Inr a | Some r \<Rightarrow> ftpc_step r a) = Inr b"
      and u: "(case from_troll i of None \<Rightarrow> Inr (b, []) | Some r \<Rightarrow> ack_step (clock_ack i) r b) = Inr (u, out2)"
      and v: "send_next (sending i) (clock_send i) u = Inr (v, out3)"
      and s2: "s2 = v\<lparr>packet := clear_packet (packet v)\<rparr>"
    have a': "driver_inv a" "lar a = lar s1" "lfs a = lfs s1"
      using a inv resend_step_frame [OF inv] by (auto split: option.splits)
    have "lar u = lar s1" "lfs u = lfs s1"
      using b u i a' ftpc_step_frame [OF a'(1)] by (auto split: option.splits)
    moreover from this have "\<not> can_send u"
      using l assms(8,9) by (simp add: can_send_def)
    ultimately show ?thesis
      using v s2 by (simp add: send_next_def)
  qed
  with 1 l assms(8) show ?thesis by auto
qed

theorem lar_overtakes_lfs_witness:
  "\<exists>s1. ack_step noon (Some (ack_of 3)) (driver_at ((replicate 64 zero_block)[9 := ones]) 2 3 4) =
    Inr (s1, [Cancel_timer 3]) \<and> lfs s1 < lar s1"
proof -
  have first: "\<forall>k. 2 < k \<and> k < 9 \<longrightarrow> checkEmpty ((replicate 64 zero_block)[9 := ones, nat 3 := zero_block] ! nat k)"
    by (auto simp: nth_list_update)
  show ?thesis
    using lar_overtakes_lfs [of "driver_at ((replicate 64 zero_block)[9 := ones]) 2 3 4" "ack_of 3" 3 9 noon] first
    by (auto simp: driver_inv_at blocks_ok_replicate blocks_ok_update good_ack_of)
qed

text \<open>
  C5: No file of more than 83000 bytes whose size \<open>ftps\<close> reads right arrives in a transfer of the
  model: its driver sends at most 84 frames, because \<open>lar\<close> wraps around only after the search
  of \<open>client\<close> has read behind \<open>sendbuf\<close>, which is a fault here, and \<open>ftps\<close>, once it has the size,
  never leaves its loop. Of a size that is read wrongly, such as a multiple of 256, \<open>ftps\<close>
  expects less.
\<close>

theorem long_file_never_arrives:
  assumes "transfer msg blk s R N A out t n sout K" and "is_stream blk" and "0 < n"
    and "ftpc argc name fopen sends = Inr msgs" and "msg 0 = msgs ! 0"
    and "file_name name" and "fopen name = Some content" and "\<forall>k. fwrite k = k"
    and "size_read (int (length content)) = int (length content)" and "83000 < length content"
  shows "\<exists>rest part. ftps True True fwrite (map Some (ftps_of sout)) =
    Inr (bytes_of_string ''./receive/'' @ name, rest, part) \<and> 0 < rest"
proof -
  let ?h = "file_information 1000 (int (length content)) name"
  have "msgs ! 0 = ?h"
    using assms(4,6,7) by (auto simp: ftpc_def c_str_set_filename send_all_def split: if_splits)
  moreover have h: "length ?h = 1000"
    by (rule length_file_information [OF assms(6)]) simp
  moreover have "0 < R" if "{..<n} \<subseteq> {..<N}" "N \<le> R"
    using that assms(3) by simp
  then have "carries (msg 0) (blk 0)"
    using transfer_invariant [OF assms(1,2)] sender_run_inv [OF _ assms(2)] sender_run_carries [OF _ assms(2)]
    by (fastforce simp: transfer_inv_def received_def out_inv_def)
  ultimately have "blk 0 = ?h"
    using assms(5) by (metis carries_def order_refl take_all)
  moreover have "ftps_of sout = blk 0 # map blk [1..<n]"
    using transfer_invariant [OF assms(1,2)] assms(3) by (simp add: transfer_inv_def upt_rec)
  ultimately have blocks: "map Some (ftps_of sout) = Some ?h # map Some (map blk [1..<n])"
    by simp
  have "int (BUFFSIZE * length (map blk [1..<n])) < int (length content)"
    using at_most_84_delivered [OF assms(1,2)] assms(10) by simp
  moreover have "\<forall>r \<in> set (map blk [1..<n]). length r = BUFFSIZE"
    using assms(2) by (simp add: is_stream_def)
  ultimately obtain part where "ftps_loop fwrite (int (length content)) (map Some (map blk [1..<n])) [] =
      Inr (int (length content) - int (BUFFSIZE * length (map blk [1..<n])), part)"
    and "0 < int (length content) - int (BUFFSIZE * length (map blk [1..<n]))"
    using ftps_loop_waits [OF assms(8), of "map blk [1..<n]" "int (length content)" "[]"] by auto
  moreover have "pad_block 1000 ?h = ?h"
    using h by (simp add: pad_block_full)
  ultimately show ?thesis
    unfolding blocks
    using read_file_information [OF assms(6), of 1000 "int (length content)"] receive_path_name [OF assms(6)]
    by (simp add: ftps_def assms(9) del: map_map)
qed

theorem long_file_never_arrives_witness:
  "\<exists>blk s out t sout K rest part. transfer blk blk s 2 2 {} out t 2 sout K \<and>
    ftps True True (\<lambda>k. k) (map Some (ftps_of sout)) =
      Inr (bytes_of_string ''./receive/'' @ [97], rest, part) \<and> 0 < rest"
proof -
  let ?file = "replicate 90000 7 :: byte list"
  define h where "h = file_information 1000 90000 [97]"
  define blk where "blk = (\<lambda>k :: nat. if k = 0 then h else ones)"
  have name: "file_name [97]"
    by (simp add: file_name_def)
  have h: "length h = 1000"
    unfolding h_def by (rule length_file_information [OF name]) simp
  have "97 \<in> set h"
    by (simp add: h_def file_information_def put_bytes_def)
  moreover have "(97 :: byte) \<noteq> 0" by simp
  ultimately have "filled h"
    unfolding checkEmpty_iff by (metis in_set_replicate)
  with h have st: "is_stream blk"
    by (simp add: is_stream_def blk_def)
  have msgs: "ftpc 4 [97] (\<lambda>_. Some ?file) (\<lambda>_. True) = Inr (h # file_blocks 1000 ?file)"
    using name by (simp add: ftpc_def c_str_set_filename send_all_def list_all_iff h_def)
  have c: "blk 0 = (h # file_blocks 1000 ?file) ! 0"
    by (simp add: blk_def)
  have "int_bytes 90000 = [0x90, 0x5F, 1, 0]"
    by code_simp
  moreover have "int_of_bytes [0x90, 0x5F, 1, 0] = 90000"
    by code_simp
  ultimately have size: "size_read (int (length ?file)) = int (length ?file)"
    by (simp add: size_read_def c_strncpy_def c_string_def)
  obtain s out t sout K where tr: "transfer blk blk s 2 2 {} out t 2 sout K"
    using undisturbed [OF st padded_whole, of 2] st by (auto simp: is_stream_def)
  from long_file_never_arrives [OF tr st _ msgs c name, where fwrite = "\<lambda>k. k"]
  have "\<exists>rest part. ftps True True (\<lambda>k. k) (map Some (ftps_of sout)) =
      Inr (bytes_of_string ''./receive/'' @ [97], rest, part) \<and> 0 < rest"
    using size by simp
  with tr show ?thesis by blast
qed

end
