(* ===== verification/Processes.thy ===== *)
theory Processes
  imports Completion Retransmission
begin

text \<open>
  The four processes together: driver, timer, server and a network that holds what is in
  flight, may lose or damage any of it, and delivers it in any order, but only once. Every
  state of the system is one of a transfer of \<open>EndToEnd\<close> and one of driver and timer of
  \<open>Retransmission\<close>, so that all that is proved of these holds for it. Then what each
  process does when its turn comes: the timer reads its pipe and fires, the driver reads the
  requests and sends again, the server answers.
\<close>

section \<open>The system\<close>

fun packets_of :: "driver_out list \<Rightarrow> byte list list" where
  "packets_of [] = []"
| "packets_of (Packet_out pkt # out) = pkt # packets_of out"
| "packets_of (x # out) = packets_of out"

text \<open>The acknowledgements that the server sends for frame \<open>j\<close>.\<close>

fun acks_of :: "nat \<Rightarrow> datagram list \<Rightarrow> (nat \<times> byte list) list" where
  "acks_of j [] = []"
| "acks_of j (To_troll d # out) = (j, d) # acks_of j out"
| "acks_of j (To_ftps b # out) = acks_of j out"

text \<open>An acknowledgement that is received leaves the network.\<close>

definition takes_ack :: "driver_input \<Rightarrow> (nat \<times> byte list) list \<Rightarrow> (nat \<times> byte list) list \<Rightarrow> bool" where
  "takes_ack i acks acks' \<longleftrightarrow>
    (from_troll i = None \<and> acks' = acks) \<or>
    (\<exists>d k. from_troll i = Some (Some d) \<and> (k, d) \<in> set acks \<and> acks' = remove1 (k, d) acks) \<or>
    (\<exists>d. from_troll i = Some (Some d) \<and> \<not> ack_ok (take header_size d) \<and> acks' = acks)"

type_synonym system_state =
  "driver_state \<times> nat \<times> nat \<times> nat set \<times> timer_proc \<times> byte list list \<times> byte list list \<times>
    byte list list \<times> (nat \<times> byte list) list \<times> server_state \<times> nat \<times> datagram list"

inductive system_step ::
  "(u32 \<Rightarrow> byte list) \<Rightarrow> (byte list \<Rightarrow> timeval) \<Rightarrow> (nat \<Rightarrow> byte list) \<Rightarrow> (nat \<Rightarrow> byte list) \<Rightarrow>
    system_state \<Rightarrow> system_state \<Rightarrow> bool"
  for interval interval_of msg blk
where
  sys_driver: "reads i q2 q2' \<Longrightarrow> timer_ok i R N \<Longrightarrow> ftpc_ok msg blk i s R \<Longrightarrow> network_ack i R (set acks) a \<Longrightarrow>
    takes_ack i acks acks' \<Longrightarrow> driver_step i s = Inr (s', out) \<Longrightarrow>
    system_step interval interval_of msg blk (s, R, N, A, p, q1, q2, net, acks, t, n, sout)
      (s', if bufpos s' = bufpos s then R else Suc R, if lfs s' = lfs s then N else Suc N, A \<union> a, p,
       q1 @ timer_messages interval out, q2', net @ packets_of out, acks', t, n, sout)"
| sys_message: "clock_ok now \<Longrightarrow> allocated (timer_list p) < 500 \<Longrightarrow> next_node fresh = Null \<Longrightarrow> remaining_ok left \<Longrightarrow>
    timer_step interval_of fresh now left (Readable m) p = Inr (p', out, go) \<Longrightarrow>
    system_step interval interval_of msg blk (s, R, N, A, p, m # q1, q2, net, acks, t, n, sout)
      (s, R, N, A, p', q1, q2 @ out, net, acks, t, n, sout)"
| sys_timeout: "clock_ok now \<Longrightarrow> allocated (timer_list p) \<le> 500 \<Longrightarrow> remaining_ok left \<Longrightarrow>
    timer_step interval_of fresh now left TimedOut p = Inr (p', out, go) \<Longrightarrow>
    system_step interval interval_of msg blk (s, R, N, A, p, q1, q2, net, acks, t, n, sout)
      (s, R, N, A, p', q1, q2 @ out, net, acks, t, n, sout)"
| sys_server: "pkt \<in> set net \<Longrightarrow> j < N \<Longrightarrow> carried blk A j pkt \<Longrightarrow> n \<le> j + 44 \<Longrightarrow> j < n + 20 \<Longrightarrow> lfr t \<noteq> 63 \<Longrightarrow>
    server_step all_sent t (Some pkt) = Inr (t', out) \<Longrightarrow>
    system_step interval interval_of msg blk (s, R, N, A, p, q1, q2, net, acks, t, n, sout)
      (s, R, N, A, p, q1, q2, remove1 pkt net, acks @ acks_of j out, t', n + length (ftps_of out), sout @ out)"
| sys_damage: "\<not> packet_ok (put_bytes 0 (take packet_size d) (replicate packet_size 0)) \<Longrightarrow>
    server_step all_sent t (Some d) = Inr (t', out) \<Longrightarrow>
    system_step interval interval_of msg blk (s, R, N, A, p, q1, q2, net, acks, t, n, sout)
      (s, R, N, A, p, q1, q2, remove1 pkt net, acks, t', n, sout @ out)"
| sys_loss: "set net' \<subseteq> set net \<Longrightarrow> set acks' \<subseteq> set acks \<Longrightarrow>
    system_step interval interval_of msg blk (s, R, N, A, p, q1, q2, net, acks, t, n, sout)
      (s, R, N, A, p, q1, q2, net', acks', t, n, sout)"

abbreviation goes_on ::
  "(u32 \<Rightarrow> byte list) \<Rightarrow> (byte list \<Rightarrow> timeval) \<Rightarrow> (nat \<Rightarrow> byte list) \<Rightarrow> (nat \<Rightarrow> byte list) \<Rightarrow>
    system_state \<Rightarrow> system_state \<Rightarrow> bool" where
  "goes_on interval interval_of msg blk \<equiv> rtranclp (system_step interval interval_of msg blk)"

inductive system ::
  "(u32 \<Rightarrow> byte list) \<Rightarrow> (byte list \<Rightarrow> timeval) \<Rightarrow> (nat \<Rightarrow> byte list) \<Rightarrow> (nat \<Rightarrow> byte list) \<Rightarrow>
    system_state \<Rightarrow> bool"
  for interval interval_of msg blk
where
  sys_start: "blocks_ok bs \<Longrightarrow> length pkt = packet_size \<Longrightarrow> length b = BUFFER_SIZE \<Longrightarrow> clock_ok c \<Longrightarrow>
    length a = header_size \<Longrightarrow>
    system interval interval_of msg blk
      (driver_init bs pkt b, 0, 0, {}, timer_init c, [], [], [], [], server_init a, 0, [])"
| sys_step: "system interval interval_of msg blk c \<Longrightarrow> system_step interval interval_of msg blk c c' \<Longrightarrow>
    system interval interval_of msg blk c'"

lemmas system_induct = system.induct [split_format (complete), case_names sys_start sys_step]

section \<open>Its runs as transfers, and as runs of driver and timer\<close>

lemma system_goes_on: "goes_on interval interval_of msg blk c c' \<Longrightarrow> system interval interval_of msg blk c \<Longrightarrow>
    system interval interval_of msg blk c'"
  by (induction rule: rtranclp_induct) (auto intro: system.sys_step)

lemma goes_one: "system_step interval interval_of msg blk c c' \<Longrightarrow> goes_on interval interval_of msg blk c c'"
  by (rule r_into_rtranclp)

lemma goes_trans: "goes_on interval interval_of msg blk c c' \<Longrightarrow> goes_on interval interval_of msg blk c' c'' \<Longrightarrow>
    goes_on interval interval_of msg blk c c''"
  by (rule rtranclp_trans)

lemma packets_of_set: "pkt \<in> set (packets_of out) \<longleftrightarrow> Packet_out pkt \<in> set out"
  by (induction out rule: packets_of.induct) auto

lemma acks_of_set: "x \<in> set (acks_of j out) \<longleftrightarrow> (\<exists>d. x = (j, d) \<and> To_troll d \<in> set out)"
  by (induction j out rule: acks_of.induct) auto

lemma network_ack_mono: "network_ack i R K a \<Longrightarrow> K \<subseteq> K' \<Longrightarrow> network_ack i R K' a"
  unfolding network_ack_def by blast

lemma system_transfer_step:
  assumes "system_step interval interval_of msg blk (s, R, N, A, p, q1, q2, net, acks, t, n, sout)
      (s', R', N', A', p', q1', q2', net', acks', t', n', sout')"
    and tr: "transfer msg blk s R N A o1 t n sout K" "\<forall>pkt \<in> set net. Packet_out pkt \<in> set o1" "set acks \<subseteq> K"
  shows "\<exists>out K. transfer msg blk s' R' N' A' out t' n' sout' K \<and>
    (\<forall>pkt \<in> set net'. Packet_out pkt \<in> set out) \<and> set acks' \<subseteq> K"
  using assms(1)
proof cases
  case (sys_driver i a out)
  have "transfer msg blk s' R' N' A' (o1 @ out) t' n' sout' K"
    using transfer_driver [OF tr(1) sys_driver(11,12) network_ack_mono [OF sys_driver(13) tr(3)] sys_driver(15)]
      sys_driver(1-9) by simp
  moreover have "set acks' \<subseteq> set acks"
    using sys_driver(14) set_remove1_subset by (fastforce simp: takes_ack_def)
  ultimately show ?thesis
    using tr(2,3) sys_driver(1-9)
    by (intro exI [of _ "o1 @ out"] exI [of _ K]) (auto simp: packets_of_set)
next
  case (sys_server pkt j out)
  then have "Packet_out pkt \<in> set o1"
    using tr(2) by blast
  from transfer_server [OF tr(1) this sys_server(13-18)]
  have "transfer msg blk s' R' N' A' o1 t' n' sout' (K \<union> {(j, d) | d. To_troll d \<in> set out})"
    using sys_server(1-11) by simp
  moreover have "set (remove1 pkt net) \<subseteq> set net"
    by (rule set_remove1_subset)
  ultimately show ?thesis
    using tr(2,3) sys_server(1-11)
    by (intro exI [of _ o1] exI [of _ "K \<union> {(j, d) | d. To_troll d \<in> set out}"]) (auto simp: acks_of_set)
next
  case (sys_damage d out pkt)
  have "set (remove1 pkt net) \<subseteq> set net"
    by (rule set_remove1_subset)
  then show ?thesis
    using transfer_noise [OF tr(1) sys_damage(12,13)] sys_damage(1-11) tr(2,3) by blast
qed (use tr in blast)+

lemma system_transfer:
  assumes "system interval interval_of msg blk (s, R, N, A, p, q1, q2, net, acks, t, n, sout)"
  shows "\<exists>out K. transfer msg blk s R N A out t n sout K \<and> (\<forall>pkt \<in> set net. Packet_out pkt \<in> set out) \<and> set acks \<subseteq> K"
  using assms
proof (induction rule: system_induct)
  case (sys_start bs pkt b c a)
  then show ?case
    using transfer.start [of bs pkt b a msg blk] by fastforce
next
  case (sys_step s R N A p q1 q2 net acks t n sout s' R' N' A' p' q1' q2' net' acks' t' n' sout')
  from sys_step.IH obtain out K where
    "transfer msg blk s R N A out t n sout K" "\<forall>pkt \<in> set net. Packet_out pkt \<in> set out" "set acks \<subseteq> K"
    by blast
  from system_transfer_step [OF sys_step.hyps(2) this] show ?case .
qed

lemma system_timed_step:
  assumes "system_step interval interval_of msg blk (s, R, N, A, p, q1, q2, net, acks, t, n, sout)
      (s', R', N', A', p', q1', q2', net', acks', t', n', sout')"
    and tr: "transfer msg blk s R N A o1 t n sout K" "set acks \<subseteq> K" and st: "is_stream blk"
    and run: "timed_run interval interval_of msg blk s R N A p q1 q2"
  shows "timed_run interval interval_of msg blk s' R' N' A' p' q1' q2'"
  using assms(1)
proof cases
  case (sys_driver i a out)
  have "transfer_inv blk N A t n sout K" "network_ack i R K a"
    using transfer_invariant [OF tr(1) st] network_ack_mono [OF sys_driver(13) tr(2)] by simp_all
  then have "acks_ok i R N a"
    by (auto simp: network_ack_def acks_ok_def transfer_inv_def subset_iff)
  from timed_run.timed_driver [OF run sys_driver(10-12) this sys_driver(15)] sys_driver(1-9) show ?thesis
    by simp
qed (use run in \<open>blast intro: timed_run.intros\<close>)+

lemma system_timed:
  assumes "system interval interval_of msg blk (s, R, N, A, p, q1, q2, net, acks, t, n, sout)" and st: "is_stream blk"
  shows "timed_run interval interval_of msg blk s R N A p q1 q2"
  using assms(1)
proof (induction rule: system_induct)
  case (sys_step s R N A p q1 q2 net acks t n sout s' R' N' A' p' q1' q2' net' acks' t' n' sout')
  obtain o1 K where "transfer msg blk s R N A o1 t n sout K" "set acks \<subseteq> K"
    using system_transfer [OF sys_step.hyps(1)] by blast
  from system_timed_step [OF sys_step.hyps(2) this st sys_step.IH] show ?case .
qed (blast intro: timed_run.intros)

section \<open>The timer does its work\<close>

lemma system_joint:
  assumes "system interval interval_of msg blk (s, R, N, A, p, q1, q2, net, acks, t, n, sout)" and "is_stream blk"
    and "intervals_ok interval interval_of"
  shows "joint_inv interval blk s R N A p q1 q2"
  using timed_run_inv [OF system_timed [OF assms(1,2)] assms(2,3)] .

lemma system_out_inv:
  assumes "system interval interval_of msg blk (s, R, N, A, p, q1, q2, net, acks, t, n, sout)" and "is_stream blk"
  shows "out_inv blk s R N A"
proof -
  obtain out K where "transfer msg blk s R N A out t n sout K"
    using system_transfer [OF assms(1)] by blast
  then show ?thesis
    using transfer_invariant [OF _ assms(2)] sender_run_inv [OF _ assms(2)] by blast
qed

text \<open>The datagrams still to come keep fitting into the slots ahead.\<close>

lemma system_acks_ok:
  assumes "system interval interval_of msg blk (s, R, N, A, p, q1, q2, net, acks, t, n, sout)" and st: "is_stream blk"
    and "network_ack i R (set acks) a"
  shows "acks_ok i R N a"
proof -
  obtain out K where tr: "transfer msg blk s R N A out t n sout K" "set acks \<subseteq> K"
    using system_transfer [OF assms(1)] by blast
  have "transfer_inv blk N A t n sout K" "network_ack i R K a"
    using transfer_invariant [OF tr(1) st] network_ack_mono [OF assms(3) tr(2)] by simp_all
  then show ?thesis
    by (auto simp: network_ack_def acks_ok_def transfer_inv_def subset_iff)
qed

lemma system_step_fits:
  assumes "system_step interval interval_of msg blk (s, R, N, A, p, q1, q2, net, acks, t, n, sout)
      (s', R', N', A', p', q1', q2', net', acks', t', n', sout')"
    and "system interval interval_of msg blk (s, R, N, A, p, q1, q2, net, acks, t, n, sout)" and st: "is_stream blk"
    and "fits msg blk s R M" and "M \<le> 64"
  shows "fits msg blk s' R' M"
  using assms(1)
proof cases
  case (sys_driver i a out)
  have "acks_ok i R N a"
    by (rule system_acks_ok [OF assms(2) st sys_driver(13)])
  from fits_driver [OF assms(4,5) system_out_inv [OF assms(2) st] sys_driver(12) this sys_driver(15)]
  show ?thesis
    using sys_driver(1) by simp
qed (use assms(4) in simp_all)

lemma goes_on_fits:
  assumes "goes_on interval interval_of msg blk c c'" and "system interval interval_of msg blk c" and "is_stream blk"
    and "fits msg blk (fst c) (fst (snd c)) M" and "M \<le> 64"
  shows "fits msg blk (fst c') (fst (snd c')) M"
  using assms(1,4)
proof (induction rule: rtranclp_induct)
  case (step c1 c2)
  then have "system interval interval_of msg blk c1"
    using system_goes_on assms(2) by blast
  with step system_step_fits [OF _ _ assms(3) _ assms(5)] show ?case
    by (cases c1; cases c2) fastforce
qed simp

text \<open>All timers that run fire when their time has come, if \<open>select\<close> accepts the time.\<close>

lemma fire:
  assumes sys: "system interval interval_of msg blk (s, R, N, A, p, q1, q2, net, acks, t, n, sout)" and st: "is_stream blk"
    and iv: "intervals_ok interval interval_of" and alloc: "allocated (timer_list p) \<le> 500" and acc: "accepted p"
  shows "\<exists>p' out. goes_on interval interval_of msg blk (s, R, N, A, p, q1, q2, net, acks, t, n, sout)
      (s, R, N, A, p', q1, q2 @ out, net, acks, t, n, sout) \<and> resend_message ` running p \<subseteq> set out"
proof -
  obtain b D where rep: "rep_timers (timer_list p) (b, D)" and pt: "pointed p"
    using system_joint [OF sys st iv] by (auto simp: joint_inv_def)
  show ?thesis
  proof (cases "D = Map.empty")
    case True
    then have "running p = {}"
      using running_dom [OF rep] by simp
    then show ?thesis
      by (intro exI [of _ p] exI [of _ "[]"]) simp
  next
    case False
    obtain x where x: "waiting p = Inr (Some x)"
      and fires: "\<And>now. clock_ok now \<Longrightarrow> usecs (since p) + usecs x \<le> usecs now \<Longrightarrow>
        \<exists>p' ids. timer_step interval_of zeroed now None TimedOut p = Inr (p', map resend_message ids, True) \<and>
          fired D (usecs now) ids"
      using timer_armed [OF rep pt False alloc, where fresh = zeroed and interval_of = interval_of] acc by (auto simp: accepted_def)
    have fin: "finite (ran D)"
      using rep by (auto simp: rep_timers_def finite_dom_map_of intro: finite_ran)
    define m where "m = Max (insert 1 (insert (usecs (since p) + usecs x) (ran D)))"
    define now where "now = at_time m"
    have m: "1 \<le> m" "usecs (since p) + usecs x \<le> m" "\<And>d. d \<in> ran D \<Longrightarrow> d \<le> m"
      using fin unfolding m_def by (auto intro!: Max_ge simp del: Max_insert)
    then have now: "clock_ok now" "usecs (since p) + usecs x \<le> usecs now"
      by (simp_all add: now_def clock_ok_def normal_def usecs_def)
    have max: "d < usecs now" if "d \<in> ran D" for d
      using m(1) m(3) [OF that] by (simp add: now_def usecs_def)
    obtain p' ids where u: "timer_step interval_of zeroed now None TimedOut p = Inr (p', map resend_message ids, True)"
      "fired D (usecs now) ids"
      using fires [OF now] by blast
    have "running p \<subseteq> set ids"
      using u(2) max by (auto simp: running_dom [OF rep] fired_def ran_def)
    then have "resend_message ` running p \<subseteq> set (map resend_message ids)"
      by auto
    with goes_one [OF system_step.sys_timeout [OF now(1) alloc remaining_ok_None u(1)]] show ?thesis
      by blast
  qed
qed

section \<open>The driver reads the resend requests\<close>

definition packet_waits :: "(nat \<Rightarrow> byte list) \<Rightarrow> nat \<Rightarrow> byte list list \<Rightarrow> bool" where
  "packet_waits blk j net \<longleftrightarrow> (\<exists>pkt \<in> set net. packet_of blk j pkt)"

lemma packet_waits_mono: "packet_waits blk j net \<Longrightarrow> set net \<subseteq> set net' \<Longrightarrow> packet_waits blk j net'"
  by (auto simp: packet_waits_def)

text \<open>Of a frame that an iteration sends for the first time there is a packet.\<close>

lemma new_frame_sent:
  assumes sys: "system interval interval_of msg blk (s, R, N, A, p, q1, q2, net, acks, t, n, sout)" and st: "is_stream blk"
    and ok: "timer_ok i R N" "ftpc_ok msg blk i s R" "acks_ok i R N a" and step: "driver_step i s = Inr (s', out)"
    and j: "N \<le> j" "j < (if lfs s' = lfs s then N else Suc N)"
  shows "packet_waits blk j (packets_of out)"
proof -
  have "j = N" "lfs s' \<noteq> lfs s"
    using j by (auto split: if_splits)
  with out_inv_step [OF system_out_inv [OF sys st] st ok step] show ?thesis
    by (auto simp: packet_waits_def packets_of_set)
qed

text \<open>While at most 63 blocks are taken the indices are the counts.\<close>

lemma system_indices:
  assumes "system interval interval_of msg blk (s, R, N, A, p, q1, q2, net, acks, t, n, sout)" and "is_stream blk"
    and "R \<le> 63"
  shows "driver_inv s" "lfr t \<noteq> 63"
proof -
  obtain out K where "transfer msg blk s R N A out t n sout K"
    using system_transfer [OF assms(1)] by blast
  from indices [OF this assms(2,3)] show "driver_inv s" "lfr t \<noteq> 63"
    by simp_all
qed

lemma system_lfs:
  assumes "system interval interval_of msg blk (s, R, N, A, p, q1, q2, net, acks, t, n, sout)" and "is_stream blk"
    and "R \<le> 63"
  shows "lfs s = int N - 1"
proof -
  obtain out K where "transfer msg blk s R N A out t n sout K"
    using system_transfer [OF assms(1)] by blast
  from indices(3) [OF this assms(2,3)] show ?thesis .
qed

lemma packet_of_number:
  assumes "is_stream blk" and "packet_of blk j pkt"
  shows "packet_seq pkt = slot j"
  using assms by (auto simp: packet_of_def is_stream_def packet_seq_fill is_int32_index)

lemma system_held:
  assumes "system interval interval_of msg blk (s, R, N, A, p, q1, q2, net, acks, t, n, sout)" and "is_stream blk"
    and "k < R" "k \<notin> A"
  shows "sendbuf s ! nat (slot k) = blk k"
  using system_out_inv [OF assms(1,2)] assms(3,4) by (simp add: out_inv_def held_def)

text \<open>The frame that the server expects is not acknowledged.\<close>

lemma system_expected:
  assumes "system interval interval_of msg blk (s, R, N, A, p, q1, q2, net, acks, t, n, sout)" and "is_stream blk"
  shows "n \<notin> A" "n \<le> N" "A \<subseteq> {..<N}" "N \<le> R"
proof -
  obtain out K where tr: "transfer msg blk s R N A out t n sout K"
    using system_transfer [OF assms(1)] by blast
  then have t: "transfer_inv blk N A t n sout K"
    using transfer_invariant [OF _ assms(2)] by blast
  then have "n \<notin> received (abs_recv t) n"
    by (auto simp: received_def transfer_inv_def stream_inv_def)
  with t show "n \<notin> A"
    by (auto simp: transfer_inv_def)
  have "{..<n} \<subseteq> {..<N}"
    using t by (auto simp: transfer_inv_def received_def)
  then show "n \<le> N" by simp
  show "A \<subseteq> {..<N}" "N \<le> R"
    using system_out_inv [OF assms] by (simp_all add: out_inv_def)
qed

lemma read_request:
  assumes sys: "system interval interval_of msg blk (s, R, N, A, p, q1, resend_message (slot k) # q2, net, acks, t, n, sout)"
    and st: "is_stream blk" and R: "R \<le> 63" and k: "k < N"
  shows "\<exists>s' N' q1' pkts.
    goes_on interval interval_of msg blk (s, R, N, A, p, q1, resend_message (slot k) # q2, net, acks, t, n, sout)
      (s', R, N', A, p, q1', q2, net @ pkts, acks, t, n, sout) \<and> N \<le> N' \<and> lar s' = lar s \<and>
    (\<forall>j. N \<le> j \<and> j < N' \<longrightarrow> packet_waits blk j pkts) \<and> (k \<notin> A \<longrightarrow> packet_waits blk k pkts)"
proof -
  note ix = system_indices [OF sys st R]
  obtain s' r o1 now where step: "driver_step (resend_request_arrives k) s = Inr (s',
      Packet_out (fill_packet (packet s) (slot k) (sendbuf s ! nat (slot k)) now) # Start_timer r (slot k) # o1)"
    "bufpos s' = bufpos s" "lar s' = lar s"
    using resent [OF ix(1), of k] by blast
  have i: "reads (resend_request_arrives k) (resend_message (slot k) # q2) q2"
    "timer_ok (resend_request_arrives k) R N" "ftpc_ok msg blk (resend_request_arrives k) s R"
    "network_ack (resend_request_arrives k) R (set acks) {}"
    "takes_ack (resend_request_arrives k) acks acks"
    using k R by (auto simp: reads_def timer_ok_def ftpc_ok_def network_ack_def takes_ack_def
        resend_request_arrives_def block_arrives_def)
  define o2 where "o2 = Packet_out (fill_packet (packet s) (slot k) (sendbuf s ! nat (slot k)) now) #
    Start_timer r (slot k) # o1"
  note step = step [folded o2_def]
  have "acks_ok (resend_request_arrives k) R N {}"
    by (simp add: acks_ok_def resend_request_arrives_def block_arrives_def)
  note new = new_frame_sent [OF sys st i(2,3) this step(1)]
  have again: "packet_waits blk k (packets_of o2)" if "k \<notin> A"
  proof -
    have "k < R"
      using k system_out_inv [OF sys st] by (simp add: out_inv_def)
    then have "sendbuf s ! nat (slot k) = blk k"
      using system_held [OF sys st _ that] by simp
    then show ?thesis
      using driver_invD(9) [OF ix(1)] by (auto simp: packet_waits_def packet_of_def o2_def)
  qed
  have "goes_on interval interval_of msg blk
      (s, R, N, A, p, q1, resend_message (slot k) # q2, net, acks, t, n, sout)
      (s', R, if lfs s' = lfs s then N else Suc N, A, p, q1 @ timer_messages interval o2, q2,
       net @ packets_of o2, acks, t, n, sout)"
    using goes_one [OF system_step.sys_driver [OF i step(1), where interval = interval and A = A and p = p
          and interval_of = interval_of and ?q1.0 = q1 and net = net and t = t and n = n and sout = sout]] step(2)
    by simp
  moreover have "N \<le> (if lfs s' = lfs s then N else Suc N)"
    by simp
  ultimately show ?thesis
    using step(3) new again by blast
qed

text \<open>The driver reads all requests: each frame asked for, and each new one, has a packet in the network.\<close>

lemma read_requests:
  assumes "system interval interval_of msg blk (s, R, N, A, p, q1, q2, net, acks, t, n, sout)"
    and st: "is_stream blk" and iv: "intervals_ok interval interval_of" and R: "R \<le> 63"
  shows "\<exists>s' N' q1' net'. goes_on interval interval_of msg blk (s, R, N, A, p, q1, q2, net, acks, t, n, sout)
      (s', R, N', A, p, q1', [], net', acks, t, n, sout) \<and>
    N \<le> N' \<and> lar s' = lar s \<and> set net \<subseteq> set net' \<and>
    (\<forall>j. N \<le> j \<and> j < N' \<longrightarrow> packet_waits blk j net') \<and>
    (\<forall>j < N. j \<notin> A \<and> resend_message (slot j) \<in> set q2 \<longrightarrow> packet_waits blk j net')"
  using assms(1)
proof (induction q2 arbitrary: s N q1 net)
  case Nil
  show ?case
    by (rule exI [of _ s], rule exI [of _ N], rule exI [of _ q1], rule exI [of _ net]) auto
next
  case (Cons m q2)
  have "m \<in> resend_message ` known N"
    using system_joint [OF Cons.prems st iv] by (auto simp: joint_inv_def numbers_known_def)
  then obtain k0 where "k0 < N" "m = resend_message (slot k0)"
    by (auto simp: known_def)
  then obtain k where k: "k < N" "m = resend_message (slot k)"
    by blast
  note sys = Cons.prems [unfolded k(2)]
  from read_request [OF sys st R k(1)] obtain s1 N1 q3 pkts where
    1: "goes_on interval interval_of msg blk (s, R, N, A, p, q1, resend_message (slot k) # q2, net, acks, t, n, sout)
        (s1, R, N1, A, p, q3, q2, net @ pkts, acks, t, n, sout)"
      "N \<le> N1" "lar s1 = lar s" "\<And>j. N \<le> j \<Longrightarrow> j < N1 \<Longrightarrow> packet_waits blk j pkts"
      "k \<notin> A \<Longrightarrow> packet_waits blk k pkts"
    by blast
  from Cons.IH [OF system_goes_on [OF 1(1) sys]] obtain s' N' q1' net' where
    2: "goes_on interval interval_of msg blk (s1, R, N1, A, p, q3, q2, net @ pkts, acks, t, n, sout)
        (s', R, N', A, p, q1', [], net', acks, t, n, sout)"
      "N1 \<le> N'" "lar s' = lar s1" "set (net @ pkts) \<subseteq> set net'" "\<And>j. N1 \<le> j \<Longrightarrow> j < N' \<Longrightarrow> packet_waits blk j net'"
      "\<And>j. j < N1 \<Longrightarrow> j \<notin> A \<Longrightarrow> resend_message (slot j) \<in> set q2 \<Longrightarrow> packet_waits blk j net'"
    by blast
  have sub: "set pkts \<subseteq> set net'" "set net \<subseteq> set net'"
    using 2(4) by simp_all
  have small: "slot j = int j" if "j < N" for j
    using that R system_out_inv [OF Cons.prems st] by (simp add: slot_def out_inv_def)
  have new: "packet_waits blk j net'" if "N \<le> j" "j < N'" for j
    using packet_waits_mono [OF 1(4) [OF that(1)] sub(1)] 2(5) that(2) by (cases "j < N1") simp_all
  have asked: "packet_waits blk j net'" if j: "j < N" "j \<notin> A" "resend_message (slot j) \<in> set (m # q2)" for j
  proof (cases "resend_message (slot j) \<in> set q2")
    case True
    with 2(6) j(1,2) 1(2) show ?thesis by simp
  next
    case False
    then have "slot j = slot k"
      using j(3) k(2) resend_slot_eq [of j k] by simp
    then have "j = k"
      using small [OF j(1)] small [OF k(1)] by simp
    with packet_waits_mono [OF 1(5) sub(1)] j(2) show ?thesis by simp
  qed
  have "N \<le> N'" "lar s' = lar s"
    using 1(2,3) 2(2,3) by simp_all
  with goes_trans [OF 1(1) 2(1)] sub(2) new asked show ?case
    unfolding k(2) by blast
qed

text \<open>Every frame that is not acknowledged is sent again in time.\<close>

lemma sent_again:
  assumes sys: "system interval interval_of msg blk (s, R, N, A, p, [], q2, net, acks, t, n, sout)" and st: "is_stream blk"
    and iv: "intervals_ok interval interval_of" and R: "R \<le> 63"
    and alloc: "allocated (timer_list p) \<le> 500" and acc: "accepted p"
  shows "\<exists>s' N' p' q1' net'. goes_on interval interval_of msg blk (s, R, N, A, p, [], q2, net, acks, t, n, sout)
      (s', R, N', A, p', q1', [], net', acks, t, n, sout) \<and>
    N \<le> N' \<and> lar s' = lar s \<and> (\<forall>j < N'. j \<notin> A \<longrightarrow> packet_waits blk j net')"
proof -
  obtain p2 out where
    p2: "goes_on interval interval_of msg blk (s, R, N, A, p, [], q2, net, acks, t, n, sout)
      (s, R, N, A, p2, [], q2 @ out, net, acks, t, n, sout)" "resend_message ` running p \<subseteq> set out"
    using fire [OF sys st iv alloc acc] by blast
  have asked: "resend_message (slot j) \<in> set (q2 @ out)" if "j < N" "j \<notin> A" for j
    using system_joint [OF sys st iv] p2(2) that by (auto simp: joint_inv_def watched_def)
  from read_requests [OF system_goes_on [OF p2(1) sys] st iv R] obtain s3 N3 q1' net3 where
    p3: "goes_on interval interval_of msg blk (s, R, N, A, p2, [], q2 @ out, net, acks, t, n, sout)
        (s3, R, N3, A, p2, q1', [], net3, acks, t, n, sout)" "N \<le> N3" "lar s3 = lar s"
      "\<And>j. N \<le> j \<Longrightarrow> j < N3 \<Longrightarrow> packet_waits blk j net3"
      "\<And>j. j < N \<Longrightarrow> j \<notin> A \<Longrightarrow> resend_message (slot j) \<in> set (q2 @ out) \<Longrightarrow> packet_waits blk j net3"
    by blast
  have "packet_waits blk j net3" if "j < N3" "j \<notin> A" for j
    using p3(4,5) asked that by (cases "j < N") simp_all
  with goes_trans [OF p2(1) p3(1)] p3(2,3) show ?thesis by blast
qed

section \<open>The server answers\<close>

text \<open>A packet in the window: its frame is delivered if the server expects it, and it is acknowledged.\<close>

lemma answered:
  assumes sys: "system interval interval_of msg blk (s, R, N, A, p, q1, q2, net, acks, t, n, sout)" and st: "is_stream blk"
    and R: "R \<le> 63" and pkt: "pkt \<in> set net" "packet_of blk j pkt" and j: "j < N" "n \<le> j + 44" "j < n + 20"
  shows "\<exists>t' n' sout'. goes_on interval interval_of msg blk (s, R, N, A, p, q1, q2, net, acks, t, n, sout)
      (s, R, N, A, p, q1, q2, remove1 pkt net, acks @ [(j, ack_for t pkt)], t', n', sout') \<and>
    n \<le> n' \<and> (j = n \<longrightarrow> n < n') \<and> ack_ready (ack t') \<and>
    (ack_ready (ack t) \<longrightarrow> good_ack (ack_for t pkt) (slot j))"
proof -
  note ix = system_indices [OF sys st R]
  obtain out K where tr: "transfer msg blk s R N A out t n sout K"
    using system_transfer [OF sys] by blast
  have t: "server_ok t" "stream_inv blk (abs_recv t) n"
    using transfer_invariant [OF tr st] by (simp_all add: transfer_inv_def)
  obtain p0 now where p0: "packet_ready p0" "pkt = fill_packet p0 (slot j) (blk j) now"
    using pkt(2) by (auto simp: packet_of_def)
  obtain t' n' a where srv: "server_step all_sent t (Some pkt) =
      Inr (t', map To_ftps (map blk [n..<n']) @ [To_troll a])" "n \<le> n'" "j = n \<longrightarrow> n < n'"
    using server_step_frame [OF st t(1) ix(2) t(2) j(2,3) p0(1), of now] by (auto simp: p0(2) slot_def)
  have body: "length (blk j) = BUFFSIZE"
    using st by (simp add: is_stream_def)
  then obtain o1 where "server_step all_sent t (Some pkt) = Inr (t', o1 @ [To_troll (ack_for t pkt)])"
    and ready: "ack_ready (ack t')"
    using server_step_spec [OF t(1) ix(2) p0(1) _ slot_bounds p0(2)] srv(1) by auto
  with srv(1) have a: "a = ack_for t pkt"
    by simp
  have ftps: "ftps_of (map To_ftps (map blk [n..<n']) @ [To_troll a]) = map blk [n..<n']"
    using ftps_of_map [of "\<lambda>b. b" "map blk [n..<n']"] by simp
  have len: "n + length (ftps_of (map To_ftps (map blk [n..<n']) @ [To_troll a])) = n'"
    using srv(2) unfolding ftps by simp
  have acks: "acks_of j (map To_ftps bs @ [To_troll a]) = [(j, a)]" for bs
    by (induction bs) simp_all
  have "carried blk A j pkt"
    using pkt(2) by (simp add: carried_def)
  then have "goes_on interval interval_of msg blk (s, R, N, A, p, q1, q2, net, acks, t, n, sout)
      (s, R, N, A, p, q1, q2, remove1 pkt net, acks @ [(j, ack_for t pkt)], t', n',
       sout @ map To_ftps (map blk [n..<n']) @ [To_troll a])"
    using goes_one [OF system_step.sys_server [OF pkt(1) j(1) _ j(2,3) ix(2) srv(1)]]
    unfolding a len [unfolded a] acks [unfolded a] by blast
  moreover have "good_ack (ack_for t pkt) (slot j)" if "ack_ready (ack t)"
  proof -
    have "packet_seq pkt = slot j"
      using p0 body by (simp add: packet_seq_fill is_int32_index)
    then show ?thesis
      using good_ack_fill [OF that slot_bounds] by (simp add: ack_for_def)
  qed
  ultimately show ?thesis
    using srv(2,3) ready by blast
qed

end
