(* ===== verification/WholeSystem.thy ===== *)
theory WholeSystem
  imports Processes
begin

text \<open>
  The system of driver, timer, server and lossy network recovers. If everything in flight is
  lost, the timer asks for all frames that are not acknowledged, the driver sends them
  again, and the server delivers and acknowledges them: then the system is \<open>calm\<close>. From a
  calm state every block that is left is taken, sent and delivered. So whatever is lost, a
  file of up to 62 blocks still arrives.
\<close>

section \<open>The frame that the server expects\<close>

lemma expected_arrives:
  assumes sys: "system interval interval_of msg blk (s, R, N, A, p, [], q2, net, acks, t, n, sout)" and st: "is_stream blk"
    and iv: "intervals_ok interval interval_of" and R: "R \<le> 63" and n: "n < N"
    and alloc: "allocated (timer_list p) \<le> 500" and acc: "accepted p"
  shows "\<exists>s' N' p' q1' q2' net' acks' t' n' sout'.
    goes_on interval interval_of msg blk (s, R, N, A, p, [], q2, net, acks, t, n, sout)
      (s', R, N', A, p', q1', q2', net', acks', t', n', sout') \<and> N \<le> N' \<and> n < n'"
proof -
  obtain s1 N1 p1 q1' net1 where
    1: "goes_on interval interval_of msg blk (s, R, N, A, p, [], q2, net, acks, t, n, sout)
        (s1, R, N1, A, p1, q1', [], net1, acks, t, n, sout)" "N \<le> N1"
      "\<And>j. j < N1 \<Longrightarrow> j \<notin> A \<Longrightarrow> packet_waits blk j net1"
    using sent_again [OF sys st iv R alloc acc] by blast
  have n1: "n < N1"
    using n 1(2) by simp
  then obtain pkt where "pkt \<in> set net1" "packet_of blk n pkt"
    using 1(3) system_expected(1) [OF sys st] by (auto simp: packet_waits_def)
  from answered [OF system_goes_on [OF 1(1) sys] st R this n1] obtain net2 acks2 t2 n2 sout2 where
    2: "goes_on interval interval_of msg blk (s1, R, N1, A, p1, q1', [], net1, acks, t, n, sout)
        (s1, R, N1, A, p1, q1', [], net2, acks2, t2, n2, sout2)" "n < n2"
    by auto
  from goes_trans [OF 1(1) 2(1)] 1(2) 2(2) show ?thesis by blast
qed

section \<open>Calm states\<close>

text \<open>
  A state is calm when for each frame that is sent and not acknowledged an acknowledgement
  with a right checksum is in the network; then all of them are delivered.
\<close>

definition answer_waits :: "nat \<Rightarrow> (nat \<times> byte list) list \<Rightarrow> bool" where
  "answer_waits j acks \<longleftrightarrow> (\<exists>d. (j, d) \<in> set acks \<and> good_ack d (slot j))"

definition calm :: "driver_state \<Rightarrow> nat \<Rightarrow> nat set \<Rightarrow> (nat \<times> byte list) list \<Rightarrow> server_state \<Rightarrow> bool" where
  "calm s N A acks t \<longleftrightarrow> lar s \<le> lfs s \<and> ack_ready (ack t) \<and> (\<forall>j < N. j \<notin> A \<longrightarrow> answer_waits j acks)"

lemma calm_delivered:
  assumes sys: "system interval interval_of msg blk (s, R, N, A, p, q1, q2, net, acks, t, n, sout)" and st: "is_stream blk"
    and c: "calm s N A acks t"
  shows "n = N"
proof (rule ccontr)
  assume "n \<noteq> N"
  then have "n < N" "n \<notin> A"
    using system_expected [OF sys st] by simp_all
  then obtain d where d: "(n, d) \<in> set acks"
    using c by (auto simp: calm_def answer_waits_def)
  obtain out K where tr: "transfer msg blk s R N A out t n sout K" "set acks \<subseteq> K"
    using system_transfer [OF sys] by blast
  then have t: "transfer_inv blk N A t n sout K"
    using transfer_invariant [OF tr(1) st] by simp
  with d tr(2) have "n \<in> received (abs_recv t) n"
    by (auto simp: transfer_inv_def)
  with t show False
    by (auto simp: received_def transfer_inv_def stream_inv_def)
qed

text \<open>While at most 63 blocks are taken a frame that is not acknowledged is in the window of the server.\<close>

lemma unacknowledged_window:
  assumes sys: "system interval interval_of msg blk (s, R, N, A, p, q1, q2, net, acks, t, n, sout)" and st: "is_stream blk"
    and R: "R \<le> 63" and lar: "lar s \<le> lfs s" and j: "j < N" "j \<notin> A"
  shows "n \<le> j + 44" "j < n + 20"
proof -
  obtain out K where tr: "transfer msg blk s R N A out t n sout K"
    using system_transfer [OF sys] by blast
  have "sender_run msg blk s R N A out"
    using transfer_invariant [OF tr st] by simp
  then have w: "int N \<le> lar s + 21"
    using sender_window indices(3) [OF tr st R] by fastforce
  have behind: "lar s < int k" if "k < N" "k \<notin> A" for k
    using behind_lar [OF system_out_inv [OF sys st] st R lar that] .
  note n = system_expected(1,2) [OF sys st]
  show "n \<le> j + 44"
    using behind [OF j] w n(2) by simp
  show "j < n + 20"
  proof (cases "n = N")
    case False
    then show ?thesis
      using behind [of n] w n j(1) by simp
  qed (use j in simp)
qed

text \<open>The server answers all packets that wait.\<close>

lemma answer_all:
  assumes "system interval interval_of msg blk (s, R, N, A, p, q1, q2, net, acks, t, n, sout)" and st: "is_stream blk"
    and R: "R \<le> 63" and lar: "lar s \<le> lfs s" and "ack_ready (ack t)"
    and "\<forall>j < N. j \<notin> A \<longrightarrow> packet_waits blk j net \<or> answer_waits j acks"
  shows "\<exists>net' acks' t' n' sout'. goes_on interval interval_of msg blk (s, R, N, A, p, q1, q2, net, acks, t, n, sout)
      (s, R, N, A, p, q1, q2, net', acks', t', n', sout') \<and> calm s N A acks' t'"
  using assms(1,5,6)
proof (induction "card {j. j < N \<and> j \<notin> A \<and> \<not> answer_waits j acks}" arbitrary: net acks t n sout rule: less_induct)
  case less
  note sys = less.prems(1)
  show ?case
  proof (cases "\<forall>j < N. j \<notin> A \<longrightarrow> answer_waits j acks")
    case True
    then have "calm s N A acks t"
      using lar less.prems(2) by (simp add: calm_def)
    then show ?thesis by blast
  next
    case False
    then obtain j where j: "j < N" "j \<notin> A" "\<not> answer_waits j acks"
      by blast
    then obtain pkt where pkt: "pkt \<in> set net" "packet_of blk j pkt"
      using less.prems(3) by (auto simp: packet_waits_def)
    obtain t1 n1 sout1 where
      1: "goes_on interval interval_of msg blk (s, R, N, A, p, q1, q2, net, acks, t, n, sout)
          (s, R, N, A, p, q1, q2, remove1 pkt net, acks @ [(j, ack_for t pkt)], t1, n1, sout1)"
        "ack_ready (ack t1)" "good_ack (ack_for t pkt) (slot j)"
      using answered [OF sys st R pkt j(1) unacknowledged_window [OF sys st R lar j(1,2)]] less.prems(2) by blast
    have more: "answer_waits k (acks @ [(j, ack_for t pkt)]) \<longleftrightarrow> k = j \<or> answer_waits k acks" for k
      using 1(3) by (auto simp: answer_waits_def)
    have "{k. k < N \<and> k \<notin> A \<and> \<not> answer_waits k (acks @ [(j, ack_for t pkt)])} \<subset>
        {k. k < N \<and> k \<notin> A \<and> \<not> answer_waits k acks}"
      using more j by auto
    then have "card {k. k < N \<and> k \<notin> A \<and> \<not> answer_waits k (acks @ [(j, ack_for t pkt)])} <
        card {k. k < N \<and> k \<notin> A \<and> \<not> answer_waits k acks}"
      by (intro psubset_card_mono) simp_all
    moreover have "packet_waits blk k (remove1 pkt net) \<or> answer_waits k (acks @ [(j, ack_for t pkt)])"
      if k: "k < N" "k \<notin> A" for k
    proof (cases "k = j \<or> answer_waits k acks")
      case False
      then obtain pkt' where pkt': "pkt' \<in> set net" "packet_of blk k pkt'"
        using less.prems(3) k by (auto simp: packet_waits_def)
      have "pkt' \<noteq> pkt"
        using packet_of_number [OF st pkt(2)] packet_of_number [OF st pkt'(2)] False k(1) j(1) R
          system_expected(4) [OF sys st] by (auto simp: slot_def)
      with pkt' show ?thesis
        by (auto simp: packet_waits_def in_set_remove1)
    qed (simp add: more)
    ultimately obtain net' acks' t' n' sout' where
      "goes_on interval interval_of msg blk
        (s, R, N, A, p, q1, q2, remove1 pkt net, acks @ [(j, ack_for t pkt)], t1, n1, sout1)
        (s, R, N, A, p, q1, q2, net', acks', t', n', sout')" "calm s N A acks' t'"
      using less.hyps [OF _ system_goes_on [OF 1(1) sys] 1(2)] by blast
    with goes_trans [OF 1(1) this(1)] show ?thesis by blast
  qed
qed

text \<open>Every state goes on to a calm one.\<close>

lemma calms_down:
  assumes sys: "system interval interval_of msg blk (s, R, N, A, p, [], q2, net, acks, t, n, sout)" and st: "is_stream blk"
    and iv: "intervals_ok interval interval_of" and R: "R \<le> 63" and lar: "lar s \<le> lfs s"
    and ready: "ack_ready (ack t)" and alloc: "allocated (timer_list p) \<le> 500" and acc: "accepted p"
  shows "\<exists>s' N' p' q1' q2' net' acks' t' n' sout'.
    goes_on interval interval_of msg blk (s, R, N, A, p, [], q2, net, acks, t, n, sout)
      (s', R, N', A, p', q1', q2', net', acks', t', n', sout') \<and> N \<le> N' \<and> calm s' N' A acks' t'"
proof -
  obtain s1 N1 p1 q1' net1 where
    1: "goes_on interval interval_of msg blk (s, R, N, A, p, [], q2, net, acks, t, n, sout)
        (s1, R, N1, A, p1, q1', [], net1, acks, t, n, sout)"
      "N \<le> N1" "lar s1 = lar s" "\<forall>j < N1. j \<notin> A \<longrightarrow> packet_waits blk j net1"
    using sent_again [OF sys st iv R alloc acc] by blast
  note sys1 = system_goes_on [OF 1(1) sys]
  have "lar s1 \<le> lfs s1"
    using lar 1(2,3) system_lfs [OF sys st R] system_lfs [OF sys1 st R] by simp
  from answer_all [OF sys1 st R this ready] 1(4) obtain net2 acks2 t2 n2 sout2 where
    2: "goes_on interval interval_of msg blk (s1, R, N1, A, p1, q1', [], net1, acks, t, n, sout)
        (s1, R, N1, A, p1, q1', [], net2, acks2, t2, n2, sout2)" "calm s1 N1 A acks2 t2"
    by blast
  from goes_trans [OF 1(1) 2(1)] 1(2) 2(2) show ?thesis by blast
qed

section \<open>From calm to calm\<close>

lemma frames_grow:
  assumes "system interval interval_of msg blk (s, R, N, A, p, q1, q2, net, acks, t, n, sout)" and "is_stream blk"
    and "R \<le> 63" and "driver_step i s = Inr (s', out)" and "N < 63"
  shows "lfs s \<le> lfs s'"
  using driver_step_frame [OF system_indices(1) [OF assms(1-3)] assms(4)] system_lfs [OF assms(1-3)] assms(5)
  by (auto simp: next_lfs_def split: if_splits)

text \<open>
  After an iteration of the driver that sends at most one frame for the first time, and takes
  at most its own acknowledgements from the network, the server makes the state calm again.
\<close>

lemma calm_again:
  assumes sys: "system interval interval_of msg blk (s, R, N, A, p, q1, q2, net, acks, t, n, sout)" and st: "is_stream blk"
    and c: "calm s N A acks t" and R: "R' \<le> 63" and lar: "lar s' \<le> lfs s'"
    and i: "reads i q2 q2'" "timer_ok i R N" "ftpc_ok msg blk i s R" "network_ack i R (set acks) a" "takes_ack i acks acks'"
    and ok: "acks_ok i R N a" and step: "driver_step i s = Inr (s', out)"
    and left: "\<forall>(j, d) \<in> set acks. j \<notin> A \<union> a \<longrightarrow> (j, d) \<in> set acks'"
    and counts: "R' = (if bufpos s' = bufpos s then R else Suc R)" "N' = (if lfs s' = lfs s then N else Suc N)"
  shows "\<exists>net' acks'' t' n' sout'. goes_on interval interval_of msg blk (s, R, N, A, p, q1, q2, net, acks, t, n, sout)
      (s', R', N', A \<union> a, p, q1 @ timer_messages interval out, q2', net', acks'', t', n', sout') \<and>
    calm s' N' (A \<union> a) acks'' t'"
proof -
  have 1: "goes_on interval interval_of msg blk (s, R, N, A, p, q1, q2, net, acks, t, n, sout)
      (s', R', N', A \<union> a, p, q1 @ timer_messages interval out, q2', net @ packets_of out, acks', t, n, sout)"
    unfolding counts by (rule goes_one [OF system_step.sys_driver [OF i step]])
  have "packet_waits blk j (net @ packets_of out) \<or> answer_waits j acks'" if j: "j < N'" "j \<notin> A \<union> a" for j
  proof (cases "j < N")
    case True
    then have "answer_waits j acks"
      using c j(2) by (simp add: calm_def)
    with left j(2) show ?thesis
      by (auto simp: answer_waits_def)
  next
    case False
    then have "packet_waits blk j (packets_of out)"
      using new_frame_sent [OF sys st i(2,3) ok step] j(1) by (simp add: counts)
    then show ?thesis
      by (auto simp: packet_waits_def)
  qed
  moreover have "ack_ready (ack t)"
    using c by (simp add: calm_def)
  ultimately obtain net' acks'' t' n' sout' where
    2: "goes_on interval interval_of msg blk
        (s', R', N', A \<union> a, p, q1 @ timer_messages interval out, q2', net @ packets_of out, acks', t, n, sout)
        (s', R', N', A \<union> a, p, q1 @ timer_messages interval out, q2', net', acks'', t', n', sout')"
      "calm s' N' (A \<union> a) acks'' t'"
    using answer_all [OF system_goes_on [OF 1 sys] st R lar] by blast
  from goes_trans [OF 1 2(1)] 2(2) show ?thesis by blast
qed

lemma calm_sends:
  assumes sys: "system interval interval_of msg blk (s, R, N, A, p, q1, q2, net, acks, t, n, sout)" and st: "is_stream blk"
    and R: "R \<le> 63" "N < R" and c: "calm s N A acks t"
  shows "\<exists>s' A' q1' net' acks' t' n' sout'.
    goes_on interval interval_of msg blk (s, R, N, A, p, q1, q2, net, acks, t, n, sout)
      (s', R, Suc N, A', p, q1', q2, net', acks', t', n', sout') \<and> calm s' (Suc N) A' acks' t'"
proof (cases "can_send s")
  case True
  obtain s' o1 where step: "driver_step idle s = Inr (s', o1)" "bufpos s' = bufpos s" "lar s' = lar s" "lfs s' \<noteq> lfs s"
    using idle_step [OF system_indices(1) [OF sys st R(1)] True] by blast
  have "lfs s \<le> lfs s'"
    by (rule frames_grow [OF sys st R(1) step(1)]) (use R in simp)
  then have lar: "lar s' \<le> lfs s'"
    using c step(3) by (simp add: calm_def)
  have i: "reads idle q2 q2" "timer_ok idle R N" "ftpc_ok msg blk idle s R" "network_ack idle R (set acks) {}"
    "takes_ack idle acks acks" "acks_ok idle R N {}"
    by (simp_all add: reads_def timer_ok_def ftpc_ok_def network_ack_def takes_ack_def acks_ok_def
        idle_def block_arrives_def)
  have "\<forall>(j, d) \<in> set acks. j \<notin> A \<union> {} \<longrightarrow> (j, d) \<in> set acks"
    "R = (if bufpos s' = bufpos s then R else Suc R)" "Suc N = (if lfs s' = lfs s then N else Suc N)"
    using step(2,4) by auto
  from calm_again [OF sys st c R(1) lar i step(1) this] show ?thesis by blast
next
  case False
  obtain out K where tr: "transfer msg blk s R N A out t n sout K"
    using system_transfer [OF sys] by blast
  note ix = indices [OF tr st R(1)]
  have run: "sender_run msg blk s R N A out"
    using transfer_invariant [OF tr st] by simp
  have w: "lfs s - lar s = 20"
    using False c ix(2,3) R sender_window [OF run] by (auto simp: can_send_def calm_def)
  moreover have "-1 \<le> lar s"
    using driver_invD(3) [OF ix(1)] .
  ultimately have "lar s < lfs s" "lfs s \<noteq> 0"
    by simp_all
  from first_outstanding [OF run st R(1) this] obtain k where
    k: "k < N" "k \<notin> A" "lar s < int k" "\<forall>i. lar s < i \<and> i < int k \<longrightarrow> checkEmpty (sendbuf s ! nat i)"
    by blast
  obtain d where d: "(k, d) \<in> set acks" "good_ack d (slot k)"
    using c k(1,2) by (auto simp: calm_def answer_waits_def)
  have "N \<notin> A"
    using ix(5) by auto
  then have "sendbuf s ! N = blk N"
    using ix(7) R by (auto simp: held_def slot_def)
  then have N: "filled (sendbuf s ! N)"
    using st by (simp add: is_stream_def)
  obtain s' o1 where step: "driver_step (ack_arrives d) s = Inr (s', Cancel_timer (slot k) # o1)"
    "bufpos s' = bufpos s" "lfs s' = next_lfs (lfs s)" "lar s' \<le> lfs s'"
    using window_opens [OF ix(1-3) R(2,1) w k(3,1,4) N d(2)] by blast
  have "ack_ok (take header_size d)"
    using d(2) by (simp add: good_ack_def)
  then have i: "reads (ack_arrives d) q2 q2" "timer_ok (ack_arrives d) R N" "ftpc_ok msg blk (ack_arrives d) s R"
    "network_ack (ack_arrives d) R (set acks) {k}" "takes_ack (ack_arrives d) acks (remove1 (k, d) acks)"
    "acks_ok (ack_arrives d) R N {k}"
    using d k(1) R(1) by (auto simp: reads_def timer_ok_def ftpc_ok_def network_ack_def takes_ack_def acks_ok_def
        ack_arrives_def idle_def block_arrives_def)
  have "\<forall>(j, e) \<in> set acks. j \<notin> A \<union> {k} \<longrightarrow> (j, e) \<in> set (remove1 (k, d) acks)"
    "R = (if bufpos s' = bufpos s then R else Suc R)" "Suc N = (if lfs s' = lfs s then N else Suc N)"
    using step(2,3) by (auto simp: in_set_remove1 next_lfs_neq)
  from calm_again [OF sys st c R(1) step(4) i step(1) this] show ?thesis by blast
qed

text \<open>The driver takes the next block.\<close>

lemma calm_stores:
  assumes sys: "system interval interval_of msg blk (s, R, N, A, p, q1, q2, net, acks, t, n, sout)" and st: "is_stream blk"
    and R: "R < 63" and c: "calm s N A acks t" and fit: "fits msg blk s R M" "R < M"
  shows "\<exists>s' N' q1' net' acks' t' n' sout'.
    goes_on interval interval_of msg blk (s, R, N, A, p, q1, q2, net, acks, t, n, sout)
      (s', Suc R, N', A, p, q1', q2, net', acks', t', n', sout') \<and> calm s' N' A acks' t'"
proof -
  obtain out K where tr: "transfer msg blk s R N A out t n sout K"
    using system_transfer [OF sys] by blast
  note ix = indices [OF tr st less_imp_le [OF R]]
  have lar: "lar s \<le> lfs s"
    using c by (simp add: calm_def)
  have m: "length (msg R) \<le> BUFFSIZE" "put_bytes 0 (msg R) (sendbuf s ! R) = blk R"
    using fit by (simp_all add: fits_def)
  then obtain s' o1 where step: "driver_step (arriving (msg R)) s = Inr (s', o1)" "bufpos s' \<noteq> bufpos s" "lar s' = lar s"
    using block_taken [OF ix(1) _ ix(2-4) R lar] by blast
  have "lfs s \<le> lfs s'"
    by (rule frames_grow [OF sys st _ step(1)]) (use R ix(4) in simp_all)
  then have lar': "lar s' \<le> lfs s'"
    using lar step(3) by simp
  have i: "reads (arriving (msg R)) q2 q2" "timer_ok (arriving (msg R)) R N" "ftpc_ok msg blk (arriving (msg R)) s R"
    "network_ack (arriving (msg R)) R (set acks) {}" "takes_ack (arriving (msg R)) acks acks"
    "acks_ok (arriving (msg R)) R N {}"
    using m ix(2) by (simp_all add: reads_def timer_ok_def ftpc_ok_def network_ack_def takes_ack_def acks_ok_def
        arriving_def block_arrives_def)
  have R': "Suc R \<le> 63"
    using R by simp
  have "\<forall>(j, d) \<in> set acks. j \<notin> A \<union> {} \<longrightarrow> (j, d) \<in> set acks"
    "Suc R = (if bufpos s' = bufpos s then R else Suc R)"
    using step(2) by auto
  from calm_again [OF sys st c R' lar' i step(1) this refl] show ?thesis
    unfolding Un_empty_right by blast
qed

section \<open>All that is left\<close>

lemma calm_sends_all:
  assumes "system interval interval_of msg blk (s, R, N, A, p, q1, q2, net, acks, t, n, sout)" and st: "is_stream blk"
    and R: "R \<le> 63" and "calm s N A acks t"
  shows "\<exists>s' A' q1' net' acks' t' n' sout'.
    goes_on interval interval_of msg blk (s, R, N, A, p, q1, q2, net, acks, t, n, sout)
      (s', R, R, A', p, q1', q2, net', acks', t', n', sout') \<and> calm s' R A' acks' t'"
  using assms(1,4)
proof (induction "R - N" arbitrary: s N A q1 net acks t n sout)
  case 0
  then have "N = R"
    using system_expected(4) [OF 0(2) st] by simp
  with 0(3) show ?case by blast
next
  case (Suc k)
  then have N: "N < R" "k = R - Suc N"
    by simp_all
  obtain s1 A1 q3 net1 acks1 t1 n1 sout1 where
    1: "goes_on interval interval_of msg blk (s, R, N, A, p, q1, q2, net, acks, t, n, sout)
        (s1, R, Suc N, A1, p, q3, q2, net1, acks1, t1, n1, sout1)" "calm s1 (Suc N) A1 acks1 t1"
    using calm_sends [OF Suc.prems(1) st R N(1) Suc.prems(2)] by blast
  from Suc.hyps(1) [OF N(2) system_goes_on [OF 1(1) Suc.prems(1)] 1(2)] goes_trans [OF 1(1)] show ?case
    by blast
qed

lemma calm_takes_all:
  assumes "system interval interval_of msg blk (s, R, N, A, p, q1, q2, net, acks, t, n, sout)" and st: "is_stream blk"
    and M: "R \<le> M" "M \<le> 63" and "calm s N A acks t" and "fits msg blk s R M"
  shows "\<exists>s' N' q1' net' acks' t' n' sout'.
    goes_on interval interval_of msg blk (s, R, N, A, p, q1, q2, net, acks, t, n, sout)
      (s', M, N', A, p, q1', q2, net', acks', t', n', sout') \<and> calm s' N' A acks' t'"
  using assms(1,3,5,6)
proof (induction "M - R" arbitrary: s R N q1 net acks t n sout)
  case 0
  then have "R = M" by simp
  with 0(4) show ?case by blast
next
  case (Suc k)
  then have R: "R < 63" "k = M - Suc R" "Suc R \<le> M" "R < M"
    using M(2) by simp_all
  obtain s1 N1 q3 net1 acks1 t1 n1 sout1 where
    1: "goes_on interval interval_of msg blk (s, R, N, A, p, q1, q2, net, acks, t, n, sout)
        (s1, Suc R, N1, A, p, q3, q2, net1, acks1, t1, n1, sout1)" "calm s1 N1 A acks1 t1"
    using calm_stores [OF Suc.prems(1) st R(1) Suc.prems(3,4) R(4)] by blast
  have "fits msg blk s1 (Suc R) M"
    using goes_on_fits [OF 1(1) Suc.prems(1) st] Suc.prems(4) M(2) by simp
  from Suc.hyps(1) [OF R(2) system_goes_on [OF 1(1) Suc.prems(1)] R(3) 1(2) this] goes_trans [OF 1(1)] show ?case
    by blast
qed

lemma system_rest:
  assumes sys: "system interval interval_of msg blk (s, R, N, A, p, [], q2, net, acks, t, n, sout)" and st: "is_stream blk"
    and iv: "intervals_ok interval interval_of" and lar: "lar s \<le> lfs s" and ready: "ack_ready (ack t)"
    and M: "R \<le> M" "M \<le> 63" and fit: "fits msg blk s R M" and alloc: "allocated (timer_list p) \<le> 500" and acc: "accepted p"
  shows "\<exists>s' A' p' q1' q2' net' acks' t' sout'.
    goes_on interval interval_of msg blk (s, R, N, A, p, [], q2, net, acks, t, n, sout)
      (s', M, M, A', p', q1', q2', net', acks', t', M, sout')"
proof -
  have R: "R \<le> 63"
    using M by simp
  obtain s1 N1 p1 q11 q21 net1 acks1 t1 n1 sout1 where
    1: "goes_on interval interval_of msg blk (s, R, N, A, p, [], q2, net, acks, t, n, sout)
        (s1, R, N1, A, p1, q11, q21, net1, acks1, t1, n1, sout1)" "calm s1 N1 A acks1 t1"
    using calms_down [OF sys st iv R lar ready alloc acc] by blast
  note sys1 = system_goes_on [OF 1(1) sys]
  obtain s2 N2 q12 net2 acks2 t2 n2 sout2 where
    2: "goes_on interval interval_of msg blk (s1, R, N1, A, p1, q11, q21, net1, acks1, t1, n1, sout1)
        (s2, M, N2, A, p1, q12, q21, net2, acks2, t2, n2, sout2)" "calm s2 N2 A acks2 t2"
    using calm_takes_all [OF sys1 st M 1(2)] goes_on_fits [OF 1(1) sys st] fit M(2) by fastforce
  note sys2 = system_goes_on [OF 2(1) sys1]
  obtain s3 A3 q13 net3 acks3 t3 n3 sout3 where
    3: "goes_on interval interval_of msg blk (s2, M, N2, A, p1, q12, q21, net2, acks2, t2, n2, sout2)
        (s3, M, M, A3, p1, q13, q21, net3, acks3, t3, n3, sout3)" "calm s3 M A3 acks3 t3"
    using calm_sends_all [OF sys2 st M(2) 2(2)] by blast
  have "n3 = M"
    by (rule calm_delivered [OF system_goes_on [OF 3(1) sys2] st 3(2)])
  with goes_trans [OF goes_trans [OF 1(1) 2(1)] 3(1)] show ?thesis by blast
qed

lemma fits_none: "fits msg blk s R R"
  by (auto simp: fits_def)

lemma waiting_sent:
  assumes sys: "system interval interval_of msg blk (s, R, N, A, p, [], q2, net, acks, t, n, sout)" and st: "is_stream blk"
    and iv: "intervals_ok interval interval_of" and R: "R \<le> 63" "N < R" and lar: "lar s \<le> lfs s"
    and ready: "ack_ready (ack t)" and alloc: "allocated (timer_list p) \<le> 500" and acc: "accepted p"
  shows "\<exists>s' N' A' p' q1' q2' net' acks' t' n' sout'.
    goes_on interval interval_of msg blk (s, R, N, A, p, [], q2, net, acks, t, n, sout)
      (s', R, N', A', p', q1', q2', net', acks', t', n', sout') \<and> N < N'"
  using system_rest [OF sys st iv lar ready order_refl R(1) fits_none alloc acc] R(2) by blast

section \<open>A first block\<close>

text \<open>The first block is sent and its timer runs; nothing has arrived yet.\<close>

abbreviation fresh_server :: server_state where
  "fresh_server \<equiv> server_init (replicate header_size 0)"

lemma system_first:
  assumes st: "is_stream blk" and pad: "padded msg blk"
  shows "\<exists>s net. system (\<lambda>_. replicate 8 0) (\<lambda>_. at_time 1) msg blk
      (s, 1, 1, {}, first_timer, [], [], net, [], fresh_server, 0, []) \<and>
    lar s \<le> lfs s \<and> fits msg blk s 1 64"
proof -
  let ?int = "\<lambda>_ :: u32. replicate 8 0 :: byte list" and ?of = "\<lambda>_ :: byte list. at_time 1"
  have start: "system ?int ?of msg blk
      (empty_driver, 0, 0, {}, timer_init (at_time 1000), [], [], [], [], fresh_server, 0, [])"
    unfolding empty_driver_def
    by (rule system.sys_start) (simp_all add: blocks_ok_replicate clock_ok_def normal_def usecs_def)
  have e: "lfs empty_driver = -1" "bufpos empty_driver = 0" "sendbuf empty_driver ! 0 = zero_block"
    by (simp_all add: empty_driver_def driver_init_def)
  have first: "first_blocks empty_driver 0"
    using system_indices(1) [OF start st] e by (simp add: first_blocks_def) (simp add: empty_driver_def driver_init_def)
  have m: "length (msg 0) \<le> BUFFSIZE" "put_bytes 0 (msg 0) zero_block = blk 0"
    using pad by (simp_all add: padded_def)
  obtain s out where step: "driver_step (arriving (msg 0)) empty_driver = Inr (s, out)" "first_blocks s (Suc 0)"
    using next_block_step [OF first _ m(1)] by auto
  then have s: "lfs s = 0" "bufpos s = 1" "lar s = -1"
    by (simp_all add: first_blocks_def)
  have i: "reads (arriving (msg 0)) [] []" "timer_ok (arriving (msg 0)) 0 0"
    "ftpc_ok msg blk (arriving (msg 0)) empty_driver 0" "network_ack (arriving (msg 0)) 0 (set []) {}"
    "takes_ack (arriving (msg 0)) [] []"
    using m e by (simp_all add: reads_def timer_ok_def ftpc_ok_def network_ack_def takes_ack_def
        arriving_def block_arrives_def)
  obtain pkt r where out: "out = [Packet_out pkt, Start_timer r 0]"
    using first_outputs [OF system_out_inv [OF start st] _ _ step(1)] s e
    by (auto simp: arriving_def block_arrives_def)
  have "system_step ?int ?of msg blk
      (empty_driver, 0, 0, {}, timer_init (at_time 1000), [], [], [], [], fresh_server, 0, [])
      (s, 1, 1, {}, timer_init (at_time 1000), [starttimer (replicate 8 0) 0], [], [pkt], [], fresh_server, 0, [])"
    using system_step.sys_driver [OF i step(1), where interval = ?int and interval_of = ?of and A = "{}"
        and p = "timer_init (at_time 1000)" and ?q1.0 = "[]" and net = "[]" and t = fresh_server and n = 0
        and sout = "[]"] s e
    by (simp add: out timer_messages_def)
  note one = system.sys_step [OF start this]
  have "clock_ok (at_time 1000)" "allocated (timer_list (timer_init (at_time 1000))) < 500" "next_node zeroed = Null"
    by (simp_all add: clock_ok_def normal_def usecs_def timer_init_def zeroed_def)
  from system_step.sys_message [OF this remaining_ok_None first_timer_step]
  have "system ?int ?of msg blk (s, 1, 1, {}, first_timer, [], [], [pkt], [], fresh_server, 0, [])"
    using system.sys_step [OF one] by fastforce
  moreover have "fits msg blk s 1 64"
    using step(2) pad by (simp add: fits_def padded_def first_blocks_def)
  ultimately show ?thesis
    using s by auto
qed

lemma first_ready:
  "ack_ready (ack fresh_server)" "allocated (timer_list first_timer) \<le> 500" "accepted first_timer"
  "intervals_ok (\<lambda>_. replicate 8 0) (\<lambda>_. at_time 1)"
  by (simp_all add: server_init_def ack_ready_def get_bytes_def numeral_2_eq_2 first_timer_facts
      intervals_ok_def interval_ok_def)

section \<open>Properties\<close>

lemma all_lost:
  "system_step interval interval_of msg blk (s, R, N, A, p, q1, q2, net, acks, t, n, sout)
    (s, R, N, A, p, q1, q2, [], [], t, n, sout)"
  by (rule system_step.sys_loss) simp_all



text \<open>
  No block waits for ever. If the driver holds blocks that are not sent yet and everything in
  flight is lost, the system can go on to send the next one: if the window is closed, the timer asks
  for the first frame that is not acknowledged, which is always one of the window, and its
  acknowledgement opens it. As above, unless \<open>lar\<close> has overtaken \<open>lfs\<close>, and with the buffer for
  acknowledgements cleared, as it is after the first packet.
\<close>

lemma waiting_block_sent:
  assumes "system interval interval_of msg blk (s, R, N, A, p, [], q2, net, acks, t, n, sout)" and "is_stream blk"
    and "intervals_ok interval interval_of" and "R \<le> 63" and "N < R" and "lar s \<le> lfs s"
    and "ack_ready (ack t)" and "allocated (timer_list p) \<le> 500" and "accepted p"
  shows "\<exists>s' N' A' p' q1' q2' net' acks' t' n' sout'.
    goes_on interval interval_of msg blk (s, R, N, A, p, [], q2, [], [], t, n, sout)
      (s', R, N', A', p', q1', q2', net', acks', t', n', sout') \<and> N < N'"
  using waiting_sent [OF system.sys_step [OF assms(1) all_lost] assms(2-9)] .

text \<open>
  C3: Losses do not stop a file. In every state of driver, timer, server and network in which the
  timer has read its pipe and waits in \<open>select\<close> with a time that is not negative, when all that
  is in flight is lost, the system can go on until each message of a file of up to 62 blocks is
  delivered, and \<open>ftps\<close> has then written the file under its name and left its loop. It takes
  no more than the requests of the timer: what has been sent and not acknowledged is sent again
  and acknowledged again, then the rest follows. Up to 500 timers, with a null \<open>next\<close> in new
  memory, unless \<open>lar\<close> has overtaken \<open>lfs\<close>, with the buffer for acknowledgements cleared, as it is
  after the first packet, and for a file whose size \<open>ftps\<close> reads right.
\<close>

theorem file_survives_losses:
  assumes "system interval interval_of msg blk (s, R, N, A, p, [], q2, net, acks, t, n, sout)" and "is_stream blk"
    and "intervals_ok interval interval_of" and "lar s \<le> lfs s" and "ack_ready (ack t)"
    and "R \<le> length msgs" and "length msgs \<le> 63" and "fits msg blk s R (length msgs)"
    and "allocated (timer_list p) \<le> 500" and "accepted p"
    and "ftpc argc name fopen sends = Inr msgs" and "\<forall>k < length msgs. msg k = msgs ! k"
    and "file_name name" and "fopen name = Some content" and "\<forall>k. fwrite k = k"
    and "size_read (int (length content)) = int (length content)"
  shows "\<exists>s' A' p' q1' q2' net' acks' t' sout' rest.
    goes_on interval interval_of msg blk (s, R, N, A, p, [], q2, [], [], t, n, sout)
      (s', length msgs, length msgs, A', p', q1', q2', net', acks', t', length msgs, sout') \<and>
    ftps True True fwrite (map Some (ftps_of sout')) =
      Inr (bytes_of_string ''./receive/'' @ name, rest, content) \<and> rest \<le> 0"
proof -
  note sys = system.sys_step [OF assms(1) all_lost]
  obtain s' A' p' q1' q2' net' acks' t' sout' where
    1: "goes_on interval interval_of msg blk (s, R, N, A, p, [], q2, [], [], t, n, sout)
      (s', length msgs, length msgs, A', p', q1', q2', net', acks', t', length msgs, sout')"
    using system_rest [OF sys assms(2-10)] by blast
  obtain out K where "transfer msg blk s' (length msgs) (length msgs) A' out t' (length msgs) sout' K"
    using system_transfer [OF system_goes_on [OF 1 sys]] by blast
  from delivered_file [OF this assms(2,11-16)] 1 show ?thesis by blast
qed

text \<open>The first message of a small file is sent and lost, and the second has not come yet.\<close>

theorem file_survives_losses_witness:
  "\<exists>s s' A' p' q1' q2' net' acks' t' sout' rest.
    goes_on (\<lambda>_. replicate 8 0) (\<lambda>_. at_time 1) small_msg small_stream
      (s, 1, 1, {}, first_timer, [], [], [], [], fresh_server, 0, [])
      (s', 2, 2, A', p', q1', q2', net', acks', t', 2, sout') \<and>
    ftps True True (\<lambda>k. k) (map Some (ftps_of sout')) =
      Inr (bytes_of_string ''./receive/'' @ [97], rest, [1, 2, 3]) \<and> rest \<le> 0"
proof -
  obtain s net where sys: "system (\<lambda>_. replicate 8 0) (\<lambda>_. at_time 1) small_msg small_stream
      (s, 1, 1, {}, first_timer, [], [], net, [], fresh_server, 0, [])"
    and s: "lar s \<le> lfs s" "fits small_msg small_stream s 1 64"
    using system_first [OF small_file(1,5)] by blast
  have fit: "fits small_msg small_stream s 1 (length [small_header, [1, 2, 3]])"
    using s(2) by (simp add: fits_def)
  from file_survives_losses [OF sys small_file(1) first_ready(4) s(1) first_ready(1) _ _ fit first_ready(2,3)
      small_file(2,3,4), where fwrite = "\<lambda>k. k"] show ?thesis
    by (simp add: size_read_small numeral_2_eq_2) blast
qed

end
